(* ===== verification/Prelude.thy ===== *)
theory Prelude
  imports Main "HOL-Library.Word" "HOL-Library.Monad_Syntax"
begin

text \<open>
  Shared vocabulary of the development: bytes and machine integers at the widths the Go code
  uses, Go string literals as byte lists, and the two big-endian codecs of
  \<^verbatim>\<open>encoding/binary\<close> that every layer of the protocol is built on.

  A Go \<^verbatim>\<open>string\<close> and a Go \<^verbatim>\<open>[]byte\<close> are both sequences of bytes, so both are
  \<open>byte list\<close>; \<open>str\<close> turns an ASCII literal into its bytes.
\<close>

unbundle bit_operations_syntax

named_theorems codec_simps \<open>encode/decode laws used by the message layers\<close>
named_theorems go_io \<open>totality and content laws of the byte-stream operations\<close>

type_synonym byte = "8 word"
type_synonym u16 = "16 word"
type_synonym u32 = "32 word"
type_synonym i64 = "64 word"

definition str :: "string \<Rightarrow> byte list" where
  "str s = map of_char s"

lemma str_Nil [simp]: "str [] = []"
  by (simp add: str_def)

lemma str_Cons [simp]: "str (c # cs) = of_char c # str cs"
  by (simp add: str_def)

lemma length_str [simp]: "length (str s) = length s"
  by (simp add: str_def)

subsection \<open>Big-endian integers (\<open>encoding/binary\<close>)\<close>

definition putUint16 :: "u16 \<Rightarrow> byte list" where
  "putUint16 v = [ucast (drop_bit 8 v), ucast v]"

definition putUint32 :: "u32 \<Rightarrow> byte list" where
  "putUint32 v = [ucast (drop_bit 24 v), ucast (drop_bit 16 v), ucast (drop_bit 8 v), ucast v]"

text \<open>
  The readers index the first two or four bytes. Go panics on a shorter slice; every caller
  passes a slice of the right length, and the last equations only complete the functions.
\<close>

fun beUint16 :: "byte list \<Rightarrow> u16" where
  "beUint16 (a # b # _) = push_bit 8 (ucast a) OR ucast b"
| "beUint16 _ = 0"

fun beUint32 :: "byte list \<Rightarrow> u32" where
  "beUint32 (a # b # c # d # _) =
     push_bit 24 (ucast a) OR push_bit 16 (ucast b) OR push_bit 8 (ucast c) OR ucast d"
| "beUint32 _ = 0"

lemma length_putUint16 [simp]: "length (putUint16 v) = 2"
  by (simp add: putUint16_def)

lemma length_putUint32 [simp]: "length (putUint32 v) = 4"
  by (simp add: putUint32_def)

lemmas be_simps = beUint16.simps beUint32.simps

declare be_simps [simp del]

lemma beUint16_put [simp, codec_simps]: "beUint16 (putUint16 v @ xs) = v"
  by (rule bit_word_eqI) (auto simp: putUint16_def bit_simps be_simps)

lemma beUint32_put [simp, codec_simps]: "beUint32 (putUint32 v @ xs) = v"
proof (rule bit_word_eqI)
  fix n assume "n < LENGTH(32)"
  then consider "n < 8" | "8 \<le> n" "n < 16" | "16 \<le> n" "n < 24" | "24 \<le> n" "n < 32"
    by force
  then show "bit (beUint32 (putUint32 v @ xs)) n = bit v n"
    by cases (auto simp: putUint32_def bit_simps be_simps)
qed

lemma byte_bit_high [simp]: "8 \<le> n \<Longrightarrow> \<not> bit (a :: byte) n"
  by (auto dest: bit_imp_le_length)

lemma putUint16_be [simp, codec_simps]: "putUint16 (beUint16 (a # b # xs)) = [a, b]"
  by (auto simp: putUint16_def bit_simps be_simps intro!: bit_word_eqI)

lemma putUint32_be [simp, codec_simps]: "putUint32 (beUint32 (a # b # c # d # xs)) = [a, b, c, d]"
  by (auto simp: putUint32_def bit_simps be_simps intro!: bit_word_eqI)

lemma putUint16_inj [simp]: "putUint16 a = putUint16 b \<longleftrightarrow> a = b"
  by (metis append_Nil2 beUint16_put)

subsection \<open>Words read as naturals\<close>

lemma unat_of_nat_u16 [simp]: "n < 65536 \<Longrightarrow> unat (word_of_nat n :: u16) = n"
  by (simp add: unat_of_nat take_bit_eq_mod)

lemma unat_of_nat_u32 [simp]: "n < 4294967296 \<Longrightarrow> unat (word_of_nat n :: u32) = n"
  by (simp add: unat_of_nat take_bit_eq_mod)

lemma unat_of_nat_byte [simp]: "n < 256 \<Longrightarrow> unat (word_of_nat n :: byte) = n"
  by (simp add: unat_of_nat take_bit_eq_mod)

lemma word_of_nat_unat: "word_of_nat (unat w) = (w :: 'a::len word)"
  by simp

lemma unat_u16_bound: "unat (x :: u16) < 65536"
  using unsigned_less [of x] by simp

lemma unat_byte_bound: "unat (x :: byte) < 256"
  using unsigned_less [of x] by simp

text \<open>A range of bytes as a list, for comparing a test with the characters it means.\<close>

lemma byte_range:
  assumes "lo \<le> hi" "hi < 256"
  shows "(word_of_nat lo :: byte) \<le> c \<and> c \<le> word_of_nat hi \<longleftrightarrow> c \<in> set (map word_of_nat [lo..<Suc hi])"
proof -
  have "(word_of_nat lo :: byte) \<le> c \<and> c \<le> word_of_nat hi \<longleftrightarrow> lo \<le> unat c \<and> unat c \<le> hi"
    using assms by (simp add: word_le_nat_alt)
  also have "\<dots> \<longleftrightarrow> c \<in> set (map word_of_nat [lo..<Suc hi])"
  proof
    assume "lo \<le> unat c \<and> unat c \<le> hi"
    then show "c \<in> set (map word_of_nat [lo..<Suc hi])" by (auto simp: word_of_nat_unat simp del: upt_Suc intro!: image_eqI [of c _ "unat c"])
  qed (use assms in auto)
  finally show ?thesis .
qed

subsection \<open>Results\<close>

text \<open>
  A Go function with an error result returns \<open>'e + 'a\<close>: \<open>Inl\<close> the error, \<open>Inr\<close> the value.
  \<open>sbind\<close> is the pattern \<^verbatim>\<open>x, err := f(); if err != nil { return err }\<close>.
\<close>

definition sbind :: "'e + 'a \<Rightarrow> ('a \<Rightarrow> 'e + 'b) \<Rightarrow> 'e + 'b" where
  "sbind m f = (case m of Inl e \<Rightarrow> Inl e | Inr x \<Rightarrow> f x)"

lemma sbind_simps [simp]: "sbind (Inl e) f = Inl e" "sbind (Inr x) f = f x"
  by (simp_all add: sbind_def)

lemma sbind_eq_Inr [simp]: "sbind m f = Inr y \<longleftrightarrow> (\<exists>x. m = Inr x \<and> f x = Inr y)"
  by (cases m) simp_all

lemma sbind_eq_Inl: "sbind m f = Inl e \<longleftrightarrow> m = Inl e \<or> (\<exists>x. m = Inr x \<and> f x = Inl e)"
  by (cases m) auto

lemma not_Inl_iff: "(\<forall>e. m \<noteq> Inl e) \<longleftrightarrow> (\<exists>x. m = Inr x)"
  by (cases m) auto

subsection \<open>Lists\<close>

lemma take_prefix_split: "n \<le> length xs \<Longrightarrow> \<exists>ys zs. xs = ys @ zs \<and> length ys = n"
  by (metis append_take_drop_id length_take min.absorb2)

end
