(* ===== verification/Go_IO.thy ===== *)
theory Go_IO
  imports Prelude
begin

text \<open>
  The part of Go's \<^verbatim>\<open>io\<close>, \<^verbatim>\<open>bufio\<close> and \<^verbatim>\<open>net\<close> packages that the program is written
  against. An interface value is a dictionary of operations on an explicit state: a reader
  takes the number of bytes asked for and the state, and returns what was read, the error if
  there was one, and the new state.

  \<^item> \<open>readFull\<close>, \<open>copyN\<close> and \<open>copyDiscard\<close> are \<^verbatim>\<open>io.ReadFull\<close>,
    \<^verbatim>\<open>io.CopyN(io.Discard, ..)\<close> and \<^verbatim>\<open>io.Copy(io.Discard, io.LimitReader(..))\<close>.
    They loop until the reader delivers, so they are partial: \<open>None\<close> is "does not return".
  \<^item> The locale \<open>io_reader\<close> is the contract of \<^verbatim>\<open>io.Reader\<close>: there is a fixed sequence of
    bytes left to deliver, which the reader hands out in pieces of its own choice, followed by
    one final error. Every lemma about the loops is proved once against the contract, so it
    holds for every way the bytes can be cut into pieces.
  \<^item> \<open>tcp\<close> is a connection of the \<^verbatim>\<open>net\<close> package and \<open>bufio\<close> is \<^verbatim>\<open>bufio.Reader\<close> over any
    reader; both are interpretations of the contract.
\<close>

datatype io_err = EOF | UnexpectedEOF | ShortWrite | NetTimeout | NetClosed | IOFail nat

type_synonym 'r reader = "nat \<Rightarrow> 'r \<Rightarrow> (byte list \<times> io_err option) \<times> 'r"
type_synonym 'w writer = "byte list \<Rightarrow> 'w \<Rightarrow> (int \<times> io_err option) \<times> 'w"

subsection \<open>Loops over a reader\<close>

text \<open>
  \<^verbatim>\<open>io.ReadFull(r, buf)\<close>: read until \<open>n = len(buf)\<close> bytes are there or the reader reports an
  error; an error that comes with the last byte needed is dropped, and an end of file after
  some but not all bytes becomes \<open>UnexpectedEOF\<close>.
\<close>

partial_function (option) readFullLoop ::
  "'r reader \<Rightarrow> nat \<Rightarrow> byte list \<Rightarrow> 'r \<Rightarrow> ((byte list \<times> io_err option) \<times> 'r) option" where
  "readFullLoop rd n acc r =
     (if n \<le> length acc then Some ((acc, None), r)
      else (case rd (n - length acc) r of ((bs, e), r') \<Rightarrow>
        (case e of
           None \<Rightarrow> readFullLoop rd n (acc @ bs) r'
         | Some x \<Rightarrow>
             (if n \<le> length (acc @ bs) then Some ((acc @ bs, None), r')
              else Some ((acc @ bs,
                Some (if acc @ bs \<noteq> [] \<and> x = EOF then UnexpectedEOF else x)), r')))))"

definition readFull :: "'r reader \<Rightarrow> nat \<Rightarrow> 'r \<Rightarrow> ((byte list \<times> io_err option) \<times> 'r) option" where
  "readFull rd n r = readFullLoop rd n [] r"

text \<open>\<^verbatim>\<open>io.LimitedReader.Read\<close>: the state carries the bytes still allowed.\<close>

definition limitRead :: "'r reader \<Rightarrow> (nat \<times> 'r) reader" where
  "limitRead rd n s =
     (case s of (lim, r) \<Rightarrow>
       if lim = 0 then (([], Some EOF), (lim, r))
       else (case rd (min n lim) r of ((bs, e), r') \<Rightarrow> ((bs, e), (lim - length bs, r'))))"

text \<open>
  \<^verbatim>\<open>io.Discard.ReadFrom\<close>, which \<^verbatim>\<open>io.Copy(io.Discard, src)\<close> uses: read 8192 bytes at a time and
  count them; end of file is success.
\<close>

partial_function (option) discardReadFrom ::
  "'r reader \<Rightarrow> nat \<Rightarrow> 'r \<Rightarrow> ((nat \<times> io_err option) \<times> 'r) option" where
  "discardReadFrom rd written r =
     (case rd 8192 r of ((bs, e), r') \<Rightarrow>
       (case e of
          None \<Rightarrow> discardReadFrom rd (written + length bs) r'
        | Some x \<Rightarrow> Some ((written + length bs, if x = EOF then None else Some x), r')))"

definition copyDiscard :: "'r reader \<Rightarrow> nat \<Rightarrow> 'r \<Rightarrow> ((nat \<times> io_err option) \<times> 'r) option" where
  "copyDiscard rd lim r =
     (case discardReadFrom (limitRead rd) 0 (lim, r) of
        None \<Rightarrow> None
      | Some ((written, e), (_, r')) \<Rightarrow> Some ((written, e), r'))"

text \<open>\<^verbatim>\<open>io.CopyN(io.Discard, r, n)\<close>: fewer than \<open>n\<close> bytes without an error is end of file.\<close>

definition copyN :: "'r reader \<Rightarrow> nat \<Rightarrow> 'r \<Rightarrow> (io_err option \<times> 'r) option" where
  "copyN rd n r =
     (case copyDiscard rd n r of
        None \<Rightarrow> None
      | Some ((written, e), r') \<Rightarrow>
          Some (if written = n then None else if e = None then Some EOF else e, r'))"

subsection \<open>The contract of a reader\<close>

text \<open>
  \<open>content r\<close> is what is still to be delivered, \<open>ending r\<close> the error after it, and \<open>rest r\<close>
  whatever of the state reading leaves alone. \<open>weight\<close> bounds the number of successful reads, so
  that a reader may return nothing now and then but not forever.
\<close>

locale io_reader =
  fixes rd :: "'r reader"
    and content :: "'r \<Rightarrow> byte list"
    and ending :: "'r \<Rightarrow> io_err"
    and weight :: "'r \<Rightarrow> nat"
    and rest :: "'r \<Rightarrow> 's"
    and ok :: "'r \<Rightarrow> bool"
  assumes read_ok: "ok r \<Longrightarrow> rd n r = ((bs, e), r') \<Longrightarrow> ok r'"
    and read_content: "ok r \<Longrightarrow> rd n r = ((bs, e), r') \<Longrightarrow> content r = bs @ content r'"
    and read_bound: "ok r \<Longrightarrow> rd n r = ((bs, e), r') \<Longrightarrow> length bs \<le> n"
    and read_error: "ok r \<Longrightarrow> rd n r = ((bs, Some x), r') \<Longrightarrow> x = ending r \<and> content r' = []"
    and read_ending: "ok r \<Longrightarrow> rd n r = ((bs, e), r') \<Longrightarrow> ending r' = ending r"
    and read_rest: "ok r \<Longrightarrow> rd n r = ((bs, e), r') \<Longrightarrow> rest r' = rest r"
    and read_progress: "ok r \<Longrightarrow> 0 < n \<Longrightarrow> rd n r = ((bs, e), r') \<Longrightarrow> e = None \<or> bs \<noteq> [] \<Longrightarrow> weight r' < weight r"
begin

text \<open>
  One bundle says what every loop leaves behind: the invariant, the same ending, the same rest
  and the bytes after the first \<open>k\<close>.
\<close>

definition after :: "nat \<Rightarrow> 'r \<Rightarrow> 'r \<Rightarrow> bool" where
  "after k r r' \<longleftrightarrow> ok r' \<and> content r' = drop k (content r) \<and> ending r' = ending r \<and> rest r' = rest r"

lemma after_trans: "after k r r1 \<Longrightarrow> after l r1 r2 \<Longrightarrow> after (k + l) r r2"
  by (simp add: after_def add.commute)

lemma after_refl: "ok r \<Longrightarrow> after 0 r r"
  by (simp add: after_def)

lemma after_read: "ok r \<Longrightarrow> rd n r = ((bs, e), r') \<Longrightarrow> after (length bs) r r'"
  using read_ok read_content [of r n bs e r'] read_ending read_rest by (simp add: after_def)

lemma readFullLoop_spec:
  assumes "ok r"
  shows "\<exists>r'. readFullLoop rd n acc r =
      (if n \<le> length (acc @ content r)
       then Some ((acc @ take (n - length acc) (content r), None), r')
       else Some ((acc @ content r,
         Some (if acc @ content r \<noteq> [] \<and> ending r = EOF then UnexpectedEOF else ending r)), r'))
    \<and> after (n - length acc) r r'"
  using assms
proof (induction "weight r" arbitrary: acc r rule: less_induct)
  case less
  show ?case
  proof (cases "n \<le> length acc")
    case True
    with less.prems show ?thesis by (auto simp: readFullLoop.simps after_def)
  next
    case False
    obtain bs e r1 where rd: "rd (n - length acc) r = ((bs, e), r1)"
      by (metis surj_pair)
    note laws = read_ok [OF less.prems rd] read_content [OF less.prems rd]
      read_bound [OF less.prems rd] read_ending [OF less.prems rd] read_rest [OF less.prems rd]
    show ?thesis
    proof (cases e)
      case None
      with False rd less.prems have "weight r1 < weight r"
        using read_progress [of r "n - length acc" bs e r1] by simp
      from less.hyps [OF this laws(1), of "acc @ bs"] False None rd laws show ?thesis
        by (simp add: readFullLoop.simps [of rd n acc r] after_def split: if_splits) force+
    next
      case (Some x)
      with rd less.prems have "x = ending r" "content r1 = []" by (auto dest: read_error)
      with False Some rd laws show ?thesis
        by (auto simp: readFullLoop.simps [of rd n acc r] after_def)
    qed
  qed
qed

lemma readFull_ok:
  assumes "ok r" "n \<le> length (content r)"
  obtains r' where "readFull rd n r = Some ((take n (content r), None), r')" "after n r r'"
  using readFullLoop_spec [OF assms(1), of n "[]"] assms(2) by (auto simp: readFull_def)

lemma readFull_short:
  assumes "ok r" "length (content r) < n"
  obtains r' where "readFull rd n r =
       Some ((content r, Some (if content r \<noteq> [] \<and> ending r = EOF then UnexpectedEOF else ending r)), r')"
    "after n r r'"
  using readFullLoop_spec [OF assms(1), of n "[]"] assms(2) by (auto simp: readFull_def)

lemma discard_limit_spec:
  assumes "ok r"
  shows "\<exists>e lim' r'. discardReadFrom (limitRead rd) w (lim, r) =
        Some ((w + min lim (length (content r)), e), (lim', r'))
    \<and> (length (content r) < lim \<longrightarrow> e = (if ending r = EOF then None else Some (ending r)))
    \<and> after lim r r'"
  using assms
proof (induction "weight r" arbitrary: w lim r rule: less_induct)
  case less
  show ?case
  proof (cases "lim = 0")
    case True
    with less.prems show ?thesis
      by (simp add: discardReadFrom.simps [of "limitRead rd"] limitRead_def after_refl)
  next
    case False
    obtain bs e r1 where rd: "rd (min 8192 lim) r = ((bs, e), r1)"
      by (metis surj_pair)
    note laws = read_ok [OF less.prems rd] read_content [OF less.prems rd]
      read_bound [OF less.prems rd] read_ending [OF less.prems rd] read_rest [OF less.prems rd]
    show ?thesis
    proof (cases e)
      case None
      with False rd less.prems have "weight r1 < weight r"
        using read_progress [of r "min 8192 lim" bs e r1] by simp
      then obtain e' lim' r' where step:
        "discardReadFrom (limitRead rd) (w + length bs) (lim - length bs, r1) =
           Some ((w + length bs + min (lim - length bs) (length (content r1)), e'), (lim', r'))"
        "length (content r1) < lim - length bs \<longrightarrow> e' = (if ending r1 = EOF then None else Some (ending r1))"
        "after (lim - length bs) r1 r'"
        using less.hyps laws(1) by blast
      have "discardReadFrom (limitRead rd) w (lim, r) =
          Some ((w + min lim (length (content r)), e'), (lim', r'))"
        using step(1) False None rd laws(2,3)
        by (simp add: discardReadFrom.simps [of "limitRead rd" w] limitRead_def) linarith
      then show ?thesis using step(2-) laws by (auto simp: after_def)
    next
      case (Some x)
      with rd less.prems have "x = ending r" "content r1 = []" by (auto dest: read_error)
      with False Some rd laws show ?thesis
        by (auto simp: discardReadFrom.simps [of "limitRead rd" w] limitRead_def after_def)
    qed
  qed
qed

lemma copyDiscard_spec:
  assumes "ok r"
  obtains e r' where "copyDiscard rd lim r = Some ((min lim (length (content r)), e), r')" "after lim r r'"
  using discard_limit_spec [OF assms, of 0 lim] by (auto simp: copyDiscard_def)

lemma copyN_ok:
  assumes "ok r" "n \<le> length (content r)"
  obtains r' where "copyN rd n r = Some (None, r')" "after n r r'"
  using discard_limit_spec [OF assms(1), of 0 n] assms(2)
  by (auto simp: copyN_def copyDiscard_def min_absorb1)

lemma copyN_short:
  assumes "ok r" "length (content r) < n"
  obtains r' where "copyN rd n r = Some (Some (ending r), r')" "after n r r'"
  using discard_limit_spec [OF assms(1), of 0 n] assms(2)
  by (auto simp: copyN_def copyDiscard_def min_absorb2)

end

subsection \<open>Buffered readers (\<open>bufio.Reader\<close>)\<close>

text \<open>
  \<^verbatim>\<open>bufio.NewReader\<close> has a buffer of 4096 bytes. \<^verbatim>\<open>Read\<close> serves from the buffer, or makes one read
  of the underlying reader: straight into the caller's slice when that is at least as large as the
  buffer, into the buffer otherwise. An error that comes with bytes is kept for the next call.
\<close>

record 'u bufio =
  bf_buf :: "byte list"
  bf_err :: "io_err option"
  bf_rd :: 'u

definition bufioNew :: "'u \<Rightarrow> 'u bufio" where
  "bufioNew u = \<lparr>bf_buf = [], bf_err = None, bf_rd = u\<rparr>"

definition bufioRead :: "'u reader \<Rightarrow> 'u bufio reader" where
  "bufioRead rd n b =
     (if n = 0 then
        (if bf_buf b \<noteq> [] then (([], None), b) else (([], bf_err b), b\<lparr>bf_err := None\<rparr>))
      else if bf_buf b \<noteq> [] then ((take n (bf_buf b), None), b\<lparr>bf_buf := drop n (bf_buf b)\<rparr>)
      else if bf_err b \<noteq> None then (([], bf_err b), b\<lparr>bf_err := None\<rparr>)
      else if 4096 \<le> n then
        (case rd n (bf_rd b) of ((bs, e), u) \<Rightarrow> ((bs, e), b\<lparr>bf_rd := u\<rparr>))
      else
        (case rd 4096 (bf_rd b) of ((bs, e), u) \<Rightarrow>
           if bs = [] then (([], e), b\<lparr>bf_rd := u\<rparr>)
           else ((take n bs, None), b\<lparr>bf_buf := drop n bs, bf_err := e, bf_rd := u\<rparr>)))"

text \<open>A buffered reader over any reader is a reader again, with the buffered bytes first.\<close>

locale buffered = io_reader rd content ending weight rest ok
  for rd :: "'r reader" and content ending weight and rest :: "'r \<Rightarrow> 's" and ok
begin

definition bcontent :: "'r bufio \<Rightarrow> byte list" where
  "bcontent b = bf_buf b @ content (bf_rd b)"

definition bok :: "'r bufio \<Rightarrow> bool" where
  "bok b \<longleftrightarrow> ok (bf_rd b) \<and>
     (bf_err b \<noteq> None \<longrightarrow> bf_err b = Some (ending (bf_rd b)) \<and> content (bf_rd b) = [])"

definition bweight :: "'r bufio \<Rightarrow> nat" where
  "bweight b = 4096 * weight (bf_rd b) + length (bf_buf b)"

lemma bcontent_new [simp]: "bcontent (bufioNew u) = content u"
  by (simp add: bcontent_def bufioNew_def)

lemma bok_new [simp]: "bok (bufioNew u) = ok u"
  by (simp add: bok_def bufioNew_def)

lemma bf_rd_new [simp]: "bf_rd (bufioNew u) = u"
  by (simp add: bufioNew_def)

lemma bufio_fill:
  assumes "bok b" "bf_buf b = []" "bf_err b = None" "rd m (bf_rd b) = ((bs, e), u)"
  shows "ok u" "content (bf_rd b) = bs @ content u" "length bs \<le> m" "ending u = ending (bf_rd b)"
    "rest u = rest (bf_rd b)" "e \<noteq> None \<longrightarrow> e = Some (ending (bf_rd b)) \<and> content u = []"
    "0 < m \<Longrightarrow> e = None \<or> bs \<noteq> [] \<Longrightarrow> weight u < weight (bf_rd b)"
proof -
  from assms have ok: "ok (bf_rd b)" by (simp add: bok_def)
  note rd = assms(4)
  show "ok u" "content (bf_rd b) = bs @ content u" "length bs \<le> m" "ending u = ending (bf_rd b)"
    "rest u = rest (bf_rd b)"
    using read_ok [OF ok rd] read_content [OF ok rd] read_bound [OF ok rd]
      read_ending [OF ok rd] read_rest [OF ok rd] by simp_all
  show "e \<noteq> None \<longrightarrow> e = Some (ending (bf_rd b)) \<and> content u = []"
    using read_error ok rd by (cases e) auto
  show "0 < m \<Longrightarrow> e = None \<or> bs \<noteq> [] \<Longrightarrow> weight u < weight (bf_rd b)"
    using read_progress ok rd by auto
qed

text \<open>The three ways a call of \<open>bufioRead\<close> can go, besides handing out a kept error.\<close>

lemma bufioRead_cases:
  assumes "bufioRead rd n b = ((bs, e), b')"
  obtains
    (empty) "n = 0" "bf_buf b \<noteq> []" "bs = []" "e = None" "b' = b"
  | (kept) "bf_buf b = []" "n = 0 \<or> bf_err b \<noteq> None" "bs = []" "e = bf_err b" "b' = b\<lparr>bf_err := None\<rparr>"
  | (buf) "0 < n" "bf_buf b \<noteq> []" "bs = take n (bf_buf b)" "e = None" "b' = b\<lparr>bf_buf := drop n (bf_buf b)\<rparr>"
  | (direct) m u where "m = n \<and> 0 < n \<or> m = 4096 \<and> bs = []" "bf_buf b = []" "bf_err b = None"
      "rd m (bf_rd b) = ((bs, e), u)" "b' = b\<lparr>bf_rd := u\<rparr>"
  | (fill) bs' e' u where "0 < n" "bf_buf b = []" "bf_err b = None" "rd 4096 (bf_rd b) = ((bs', e'), u)"
      "bs' \<noteq> []" "bs = take n bs'" "e = None" "b' = b\<lparr>bf_buf := drop n bs', bf_err := e', bf_rd := u\<rparr>"
  using assms by (auto simp: bufioRead_def split: if_splits prod.splits)

lemma bufioRead_laws:
  assumes ok: "bok b" and rd: "bufioRead rd n b = ((bs, e), b')"
  shows "bok b' \<and> bcontent b = bs @ bcontent b' \<and> length bs \<le> n
    \<and> (e \<noteq> None \<longrightarrow> e = Some (ending (bf_rd b)) \<and> bcontent b' = [])
    \<and> ending (bf_rd b') = ending (bf_rd b) \<and> rest (bf_rd b') = rest (bf_rd b)"
  using rd
proof (cases rule: bufioRead_cases)
  case (direct m u)
  with bufio_fill [OF ok direct(2,3,4)] show ?thesis by (auto simp: bok_def bcontent_def)
next
  case (fill bs' e' u)
  with bufio_fill [OF ok fill(2,3,4)] show ?thesis by (auto simp: bok_def bcontent_def)
qed (use ok in \<open>auto simp: bok_def bcontent_def\<close>)

lemma bufioRead_progress:
  assumes ok: "bok b" and "0 < n" and rd: "bufioRead rd n b = ((bs, e), b')" and "e = None \<or> bs \<noteq> []"
  shows "bweight b' < bweight b"
  using rd
proof (cases rule: bufioRead_cases)
  case (direct m u)
  with bufio_fill(7) [OF ok direct(2,3,4)] assms show ?thesis by (auto simp: bweight_def)
next
  case (fill bs' e' u)
  with bufio_fill(3,7) [OF ok fill(2,3,4)] assms show ?thesis by (auto simp: bweight_def)
qed (use assms in \<open>auto simp: bweight_def\<close>)

end

sublocale buffered \<subseteq> buf: io_reader "bufioRead rd" bcontent "\<lambda>b. ending (bf_rd b)" bweight
    "\<lambda>b. rest (bf_rd b)" bok
  by unfold_locales (use bufioRead_laws in \<open>blast, blast, blast, fastforce, blast, blast\<close>, rule bufioRead_progress)

subsection \<open>Writers and connections\<close>

text \<open>
  \<^verbatim>\<open>io.Writer\<close>: a write reports how many bytes it took, which is never more than it was given, and
  those are the bytes that went out. \<open>out\<close> is everything sent so far.
\<close>

locale io_writer =
  fixes wr :: "'w writer"
    and out :: "'w \<Rightarrow> byte list"
  assumes write_count: "wr b w = ((k, e), w') \<Longrightarrow> 0 \<le> k \<and> k \<le> int (length b)"
    and write_out: "wr b w = ((k, e), w') \<Longrightarrow> out w' = out w @ take (nat k) b"

text \<open>
  \<^verbatim>\<open>net.Conn\<close> as a dictionary. \<open>nc_closeWrite\<close> is \<open>None\<close> for a connection without the optional
  \<^verbatim>\<open>CloseWrite\<close> method the code looks for with a type assertion. A deadline is given as the
  duration added to \<^verbatim>\<open>time.Now()\<close>, in nanoseconds; running into it is the reader's final error
  or a write error.
\<close>

record 'c net_conn =
  nc_read :: "'c reader"
  nc_write :: "'c writer"
  nc_close :: "'c \<Rightarrow> 'c"
  nc_closeWrite :: "('c \<Rightarrow> 'c) option"
  nc_setReadDeadline :: "nat \<Rightarrow> 'c \<Rightarrow> 'c"
  nc_setWriteDeadline :: "nat \<Rightarrow> 'c \<Rightarrow> 'c"

text \<open>Half-closing, on a connection that can; \<^verbatim>\<open>chaos.go\<close> names it.\<close>

definition halfClose :: "'c net_conn \<Rightarrow> 'c \<Rightarrow> 'c" where
  "halfClose nc c = (case nc_closeWrite nc of Some f \<Rightarrow> f c | None \<Rightarrow> c)"

text \<open>What a connection is besides its two byte streams.\<close>

record conn_ctl =
  ct_readDeadline :: "nat option"
  ct_writeDeadline :: "nat option"
  ct_halfClosed :: bool
  ct_closed :: bool

locale net_conn =
  fixes nc :: "'c net_conn"
    and content :: "'c \<Rightarrow> byte list"
    and ending :: "'c \<Rightarrow> io_err"
    and weight :: "'c \<Rightarrow> nat"
    and out :: "'c \<Rightarrow> byte list"
    and ctl :: "'c \<Rightarrow> conn_ctl"
    and reliable :: "'c \<Rightarrow> bool"
  assumes reader: "io_reader (nc_read nc) content ending weight (\<lambda>c. (out c, ctl c, reliable c)) (\<lambda>_. True)"
    and writer: "io_writer (nc_write nc) out"
    and write_frame: "nc_write nc b c = ((k, e), c') \<Longrightarrow>
      content c' = content c \<and> ending c' = ending c \<and> ctl c' = ctl c"
    and write_reliable: "reliable c \<Longrightarrow> nc_write nc b c = ((k, e), c') \<Longrightarrow>
      k = int (length b) \<and> e = None \<and> reliable c'"
    and setRead_law: "content (nc_setReadDeadline nc d c) = content c \<and> ending (nc_setReadDeadline nc d c) = ending c
      \<and> out (nc_setReadDeadline nc d c) = out c \<and> reliable (nc_setReadDeadline nc d c) = reliable c
      \<and> ctl (nc_setReadDeadline nc d c) = (ctl c)\<lparr>ct_readDeadline := Some d\<rparr>"
    and setWrite_law: "content (nc_setWriteDeadline nc d c) = content c \<and> ending (nc_setWriteDeadline nc d c) = ending c
      \<and> out (nc_setWriteDeadline nc d c) = out c \<and> reliable (nc_setWriteDeadline nc d c) = reliable c
      \<and> ctl (nc_setWriteDeadline nc d c) = (ctl c)\<lparr>ct_writeDeadline := Some d\<rparr>"
    and closeWrite_law: "nc_closeWrite nc = Some f \<Longrightarrow> content (f c) = content c \<and> ending (f c) = ending c
      \<and> out (f c) = out c \<and> ctl (f c) = (ctl c)\<lparr>ct_halfClosed := True\<rparr>"
    and close_law: "out (nc_close nc c) = out c \<and> ctl (nc_close nc c) = (ctl c)\<lparr>ct_closed := True\<rparr>"

sublocale net_conn \<subseteq> sock: buffered "nc_read nc" content ending weight
    "\<lambda>c. (out c, ctl c, reliable c)" "\<lambda>_. True"
  by (intro buffered.intro reader)

sublocale net_conn \<subseteq> wside: io_writer "nc_write nc" out
  by (rule writer)

subsection \<open>TCP connections\<close>

text \<open>
  \<open>tcp_in\<close> is what the peer will send, cut into the pieces the kernel delivers, and \<open>tcp_end\<close> the
  error after the last of them: end of file, a reset or a deadline that passed. \<open>tcp_budget\<close> is how
  many more bytes the connection takes before writing fails with \<open>tcp_werr\<close>; \<open>None\<close> is no limit.
\<close>

record tcp =
  tcp_in :: "byte list list"
  tcp_end :: io_err
  tcp_out :: "byte list"
  tcp_budget :: "nat option"
  tcp_werr :: io_err
  tcp_ctl :: conn_ctl

definition tcp_open :: "byte list list \<Rightarrow> io_err \<Rightarrow> nat option \<Rightarrow> tcp" where
  "tcp_open chunks e budget =
     \<lparr>tcp_in = chunks, tcp_end = e, tcp_out = [], tcp_budget = budget, tcp_werr = IOFail 0,
      tcp_ctl = \<lparr>ct_readDeadline = None, ct_writeDeadline = None, ct_halfClosed = False, ct_closed = False\<rparr>\<rparr>"

definition tcp_read :: "tcp reader" where
  "tcp_read n c =
     (if ct_closed (tcp_ctl c) then (([], Some NetClosed), c)
      else (case tcp_in c of
          [] \<Rightarrow> (([], Some (tcp_end c)), c)
        | x # xs \<Rightarrow>
            (if length x \<le> n then ((x, None), c\<lparr>tcp_in := xs\<rparr>)
             else ((take n x, None), c\<lparr>tcp_in := drop n x # xs\<rparr>))))"

definition tcp_write :: "tcp writer" where
  "tcp_write b c =
     (if ct_closed (tcp_ctl c) \<or> ct_halfClosed (tcp_ctl c) then ((0, Some NetClosed), c)
      else (case tcp_budget c of
          None \<Rightarrow> ((int (length b), None), c\<lparr>tcp_out := tcp_out c @ b\<rparr>)
        | Some k \<Rightarrow>
            (if length b \<le> k
             then ((int (length b), None), c\<lparr>tcp_out := tcp_out c @ b, tcp_budget := Some (k - length b)\<rparr>)
             else ((int k, Some (tcp_werr c)), c\<lparr>tcp_out := tcp_out c @ take k b, tcp_budget := Some 0\<rparr>))))"

definition tcp_net_conn :: "tcp net_conn" where
  "tcp_net_conn = \<lparr>nc_read = tcp_read, nc_write = tcp_write,
     nc_close = (\<lambda>c. c\<lparr>tcp_ctl := (tcp_ctl c)\<lparr>ct_closed := True\<rparr>\<rparr>),
     nc_closeWrite = Some (\<lambda>c. c\<lparr>tcp_ctl := (tcp_ctl c)\<lparr>ct_halfClosed := True\<rparr>\<rparr>),
     nc_setReadDeadline = (\<lambda>d c. c\<lparr>tcp_ctl := (tcp_ctl c)\<lparr>ct_readDeadline := Some d\<rparr>\<rparr>),
     nc_setWriteDeadline = (\<lambda>d c. c\<lparr>tcp_ctl := (tcp_ctl c)\<lparr>ct_writeDeadline := Some d\<rparr>\<rparr>)\<rparr>"

definition tcp_content :: "tcp \<Rightarrow> byte list" where
  "tcp_content c = (if ct_closed (tcp_ctl c) then [] else concat (tcp_in c))"

definition tcp_ending :: "tcp \<Rightarrow> io_err" where
  "tcp_ending c = (if ct_closed (tcp_ctl c) then NetClosed else tcp_end c)"

definition tcp_weight :: "tcp \<Rightarrow> nat" where
  "tcp_weight c = length (tcp_in c) + length (concat (tcp_in c))"

definition tcp_reliable :: "tcp \<Rightarrow> bool" where
  "tcp_reliable c \<longleftrightarrow> tcp_budget c = None \<and> \<not> ct_closed (tcp_ctl c) \<and> \<not> ct_halfClosed (tcp_ctl c)"

lemmas tcp_defs = tcp_read_def tcp_write_def tcp_net_conn_def tcp_content_def tcp_ending_def
  tcp_weight_def tcp_reliable_def

interpretation tcp: net_conn tcp_net_conn tcp_content tcp_ending tcp_weight tcp_out tcp_ctl tcp_reliable
proof (intro net_conn.intro io_reader.intro io_writer.intro)
qed (auto simp: tcp_defs split: if_splits list.splits option.splits)

text \<open>What a buffered connection has still to deliver: the buffered bytes, then the peer's.\<close>

definition tcp_pending :: "tcp bufio \<Rightarrow> byte list" where
  "tcp_pending b = bf_buf b @ tcp_content (bf_rd b)"

lemma tcp_bcontent: "tcp.sock.bcontent = tcp_pending"
  by (simp add: fun_eq_iff tcp.sock.bcontent_def tcp_pending_def)

lemma tcp_pending_new [simp]: "tcp_pending (bufioNew c) = tcp_content c"
  by (simp add: tcp_pending_def bufioNew_def)

lemma tcp_dict [simp]: "nc_read tcp_net_conn = tcp_read" "nc_write tcp_net_conn = tcp_write"
  by (simp_all add: tcp_net_conn_def)

lemma tcp_open_simps [simp]:
  "tcp_content (tcp_open chunks e budget) = concat chunks"
  "tcp_ending (tcp_open chunks e budget) = e"
  "tcp_out (tcp_open chunks e budget) = []"
  "tcp_reliable (tcp_open chunks e None)"
  by (simp_all add: tcp_open_def tcp_content_def tcp_ending_def tcp_reliable_def)

end
