(* ===== verification/Frame.thy ===== *)
theory Frame
  imports Go_IO
begin

text \<open>
  \<^verbatim>\<open>internal/frame\<close>: the 12-byte frame header, \<^verbatim>\<open>Encode\<close>, the reader \<^verbatim>\<open>Read\<close> that steps over
  frames of unknown types, and \<^verbatim>\<open>Write\<close> with its retry loop.

  \<open>readFrame\<close> is the code, over any \<^verbatim>\<open>io.Reader\<close>; \<open>parseFrame\<close> is the specification, a total
  function on the bytes still to come and the error after them. \<open>readFrame_refines\<close> relates the two
  for every reader that keeps the contract \<open>io_reader\<close>, so everything proved of \<open>parseFrame\<close> holds
  however the bytes are delivered.
\<close>

subsection \<open>\<open>frame.go\<close>\<close>

definition HeaderSize :: nat where "HeaderSize = 12"
definition MaxPayload :: nat where "MaxPayload = 16384"

definition TypeRequest :: byte where "TypeRequest = 0x01"
definition TypeResponse :: byte where "TypeResponse = 0x02"
definition TypeData :: byte where "TypeData = 0x03"
definition TypeError :: byte where "TypeError = 0x04"

lemmas type_defs = TypeRequest_def TypeResponse_def TypeData_def TypeError_def
lemmas size_defs [simp] = HeaderSize_def MaxPayload_def

definition known :: "byte \<Rightarrow> bool" where
  "known t \<longleftrightarrow> t \<ge> TypeRequest \<and> t \<le> TypeError"

definition needsStream :: "byte \<Rightarrow> bool" where
  "needsStream t \<longleftrightarrow> t \<ge> TypeRequest \<and> t \<le> TypeData"

definition FlagEndStream :: byte where "FlagEndStream = 0x01"

definition Has :: "byte \<Rightarrow> byte \<Rightarrow> bool" where
  "Has f m \<longleftrightarrow> f AND m = m"

record frame =
  fr_type :: byte
  fr_flags :: byte
  fr_stream :: u32
  fr_payload :: "byte list"

text \<open>
  The package's errors. \<open>FrameIO\<close> is an error of the underlying reader or writer passed on, and
  \<open>SlicePanic\<close> the run-time panic of \<^verbatim>\<open>b[n:]\<close> with \<^verbatim>\<open>n > len(b)\<close>.
\<close>

datatype frame_err =
    FrameIO io_err
  | ErrTruncated
  | ErrPayloadTooLarge
  | ErrStreamZero
  | OversizeError (ov_type: byte) (ov_length: u32)
  | SlicePanic

definition encodeFrame :: "frame \<Rightarrow> frame_err + byte list" where
  "encodeFrame f =
     (if length (fr_payload f) > MaxPayload then Inl ErrPayloadTooLarge
      else if needsStream (fr_type f) \<and> fr_stream f = 0 then Inl ErrStreamZero
      else Inr (putUint32 (word_of_nat (length (fr_payload f))) @ [fr_type f, fr_flags f, 0, 0]
             @ putUint32 (fr_stream f) @ fr_payload f))"

subsection \<open>\<open>reader.go\<close>\<close>

definition truncatedOr :: "io_err \<Rightarrow> frame_err" where
  "truncatedOr e = (if e = EOF \<or> e = UnexpectedEOF then ErrTruncated else FrameIO e)"

definition mkFrame :: "byte list \<Rightarrow> byte list \<Rightarrow> frame" where
  "mkFrame hdr payload =
     \<lparr>fr_type = hdr ! 4, fr_flags = hdr ! 5, fr_stream = beUint32 (drop 8 hdr), fr_payload = payload\<rparr>"

partial_function (option) readFrame :: "'r reader \<Rightarrow> 'r \<Rightarrow> ((frame_err + frame) \<times> 'r) option" where
  "readFrame rd r =
     (case readFull rd HeaderSize r of
        None \<Rightarrow> None
      | Some ((hdr, e1), r1) \<Rightarrow>
        (case e1 of
           Some x \<Rightarrow> Some (Inl (if x = UnexpectedEOF then ErrTruncated else FrameIO x), r1)
         | None \<Rightarrow>
           (if MaxPayload < unat (beUint32 hdr)
            then Some (Inl (OversizeError (hdr ! 4) (beUint32 hdr)), r1)
            else if \<not> known (hdr ! 4) then
              (case copyN rd (unat (beUint32 hdr)) r1 of
                 None \<Rightarrow> None
               | Some (e2, r2) \<Rightarrow>
                 (case e2 of
                    Some x \<Rightarrow> Some (Inl (truncatedOr x), r2)
                  | None \<Rightarrow> readFrame rd r2))
            else
              (case readFull rd (unat (beUint32 hdr)) r1 of
                 None \<Rightarrow> None
               | Some ((payload, e2), r2) \<Rightarrow>
                 (case e2 of
                    Some x \<Rightarrow> Some (Inl (truncatedOr x), r2)
                  | None \<Rightarrow>
                    (if needsStream (hdr ! 4) \<and> fr_stream (mkFrame hdr payload) = 0
                     then Some (Inl ErrStreamZero, r2)
                     else Some (Inr (mkFrame hdr payload), r2)))))))"

subsection \<open>\<open>writer.go\<close>\<close>

function writeAll :: "'w writer \<Rightarrow> byte list \<Rightarrow> 'w \<Rightarrow> frame_err option \<times> 'w" where
  "writeAll wr b w =
     (if b = [] then (None, w)
      else (case wr b w of ((n, e), w') \<Rightarrow>
        (case e of
           Some x \<Rightarrow> (Some (FrameIO x), w')
         | None \<Rightarrow>
           (if n \<le> 0 then (Some (FrameIO ShortWrite), w')
            else if n > int (length b) then (Some SlicePanic, w')
            else writeAll wr (drop (nat n) b) w'))))"
  by pat_completeness auto
termination
  by (relation "measure (\<lambda>(wr, b, w). length b)") auto

declare writeAll.simps [simp del]

definition writeFrame :: "'w writer \<Rightarrow> frame \<Rightarrow> 'w \<Rightarrow> frame_err option \<times> 'w" where
  "writeFrame wr f w =
     (case encodeFrame f of
        Inl e \<Rightarrow> (Some e, w)
      | Inr b \<Rightarrow> writeAll wr b w)"

subsection \<open>Specification on the byte stream\<close>

function parseFrame :: "io_err \<Rightarrow> byte list \<Rightarrow> (frame_err + frame) \<times> byte list" where
  "parseFrame e bs =
     (if length bs < HeaderSize
      then (Inl (if bs \<noteq> [] \<and> e = EOF \<or> e = UnexpectedEOF then ErrTruncated else FrameIO e), [])
      else let hdr = take HeaderSize bs; n = unat (beUint32 hdr); rest = drop HeaderSize bs in
        if MaxPayload < n then (Inl (OversizeError (hdr ! 4) (beUint32 hdr)), rest)
        else if length rest < n then (Inl (truncatedOr e), [])
        else if \<not> known (hdr ! 4) then parseFrame e (drop n rest)
        else if needsStream (hdr ! 4) \<and> beUint32 (drop 8 hdr) = 0 then (Inl ErrStreamZero, drop n rest)
        else (Inr (mkFrame hdr (take n rest)), drop n rest))"
  by pat_completeness auto
termination
  by (relation "measure (\<lambda>(e, bs). length bs)") auto

declare parseFrame.simps [simp del]

text \<open>A frame \<^verbatim>\<open>Encode\<close> accepts, and one \<^verbatim>\<open>Read\<close> hands out.\<close>

definition encodable :: "frame \<Rightarrow> bool" where
  "encodable f \<longleftrightarrow> length (fr_payload f) \<le> MaxPayload \<and> (needsStream (fr_type f) \<longrightarrow> fr_stream f \<noteq> 0)"

definition frameBytes :: "frame \<Rightarrow> byte list" where
  "frameBytes f = putUint32 (word_of_nat (length (fr_payload f))) @ [fr_type f, fr_flags f, 0, 0]
     @ putUint32 (fr_stream f) @ fr_payload f"

definition endsStream :: "frame \<Rightarrow> bool" where
  "endsStream g \<longleftrightarrow> Has (fr_flags g) FlagEndStream"

text \<open>
  A response on a stream as its receiver sees it: one RESPONSE, then DATA frames, END_STREAM on the
  last frame and on no other.
\<close>

definition responseShape :: "u32 \<Rightarrow> frame \<Rightarrow> frame list \<Rightarrow> bool" where
  "responseShape sid head datas \<longleftrightarrow> fr_type head = TypeResponse \<and> fr_stream head = sid
     \<and> list_all (\<lambda>g. fr_type g = TypeData \<and> fr_stream g = sid) datas
     \<and> list_all (\<lambda>g. \<not> endsStream g) (butlast (head # datas)) \<and> endsStream (last (head # datas))"

text \<open>The frames at the front of a byte stream, and the bytes after them.\<close>

fun parses :: "io_err \<Rightarrow> byte list \<Rightarrow> frame list \<Rightarrow> byte list \<Rightarrow> bool" where
  "parses e bs [] later \<longleftrightarrow> bs = later"
| "parses e bs (f # fs) later \<longleftrightarrow> (case parseFrame e bs of (Inr g, bs1) \<Rightarrow> g = f \<and> parses e bs1 fs later | _ \<Rightarrow> False)"

definition wireOf :: "frame list \<Rightarrow> byte list" where
  "wireOf fs = concat (map frameBytes fs)"

lemma wireOf_simps [simp]: "wireOf [] = []" "wireOf (f # fs) = frameBytes f @ wireOf fs" "wireOf (fs @ gs) = wireOf fs @ wireOf gs"
  by (simp_all add: wireOf_def)

lemma encodeFrame_encodable: "encodable f \<Longrightarrow> encodeFrame f = Inr (frameBytes f)"
  by (auto simp: encodeFrame_def encodable_def frameBytes_def)

lemma encodeFrame_Inr: "encodeFrame f = Inr b \<longleftrightarrow> encodable f \<and> b = frameBytes f"
  by (auto simp: encodeFrame_def encodable_def frameBytes_def)

lemma length_frameBytes [simp]: "length (frameBytes f) = 12 + length (fr_payload f)"
  by (simp add: frameBytes_def)

lemma frameBytes_not_Nil [simp]: "frameBytes f \<noteq> []"
  by (simp add: frameBytes_def)

subsection \<open>The reader implements the specification\<close>

context io_reader
begin

lemma readFrame_refines:
  assumes "ok r"
  shows "\<exists>r'. readFrame rd r = Some (fst (parseFrame (ending r) (content r)), r')
     \<and> ok r' \<and> content r' = snd (parseFrame (ending r) (content r))
     \<and> ending r' = ending r \<and> rest r' = rest r"
  using assms
proof (induction "length (content r)" arbitrary: r rule: less_induct)
  case less
  let ?c = "content r"
  let ?n = "unat (beUint32 (take 12 ?c))"
  show ?case
  proof (cases "length ?c < 12")
    case True
    from readFull_short [OF less.prems this] obtain r1 where
      "readFull rd 12 r = Some ((?c, Some (if ?c \<noteq> [] \<and> ending r = EOF then UnexpectedEOF else ending r)), r1)"
      "after 12 r r1" .
    with True show ?thesis
      by (auto simp: readFrame.simps [of rd r] parseFrame.simps [of _ ?c] after_def)
  next
    case False
    then obtain r1 where r1: "readFull rd 12 r = Some ((take 12 ?c, None), r1)" "after 12 r r1"
      using readFull_ok [OF less.prems, of 12] by force
    then have ok1: "ok r1" and c1: "content r1 = drop 12 ?c" and e1: "ending r1 = ending r" "rest r1 = rest r"
      by (auto simp: after_def)
    note unfold = readFrame.simps [of rd r] parseFrame.simps [of _ ?c] r1(1) Let_def
    consider (big) "MaxPayload < ?n" | (short) "?n \<le> MaxPayload" "length (content r1) < ?n"
      | (skip) "?n \<le> MaxPayload" "?n \<le> length (content r1)" "\<not> known (take 12 ?c ! 4)"
      | (read) "?n \<le> MaxPayload" "?n \<le> length (content r1)" "known (take 12 ?c ! 4)"
      by linarith
    then show ?thesis
    proof cases
      case big
      with False ok1 c1 e1 show ?thesis by (simp add: unfold)
    next
      case short
      from readFull_short [OF ok1 short(2)] copyN_short [OF ok1 short(2)] obtain r2 r3 where
        "readFull rd ?n r1 = Some ((content r1, Some (if content r1 \<noteq> [] \<and> ending r1 = EOF
            then UnexpectedEOF else ending r1)), r2)" "after ?n r1 r2"
        "copyN rd ?n r1 = Some (Some (ending r1), r3)" "after ?n r1 r3"
        by metis
      with False short c1 e1 show ?thesis
        by (auto simp: unfold after_def truncatedOr_def)
    next
      case skip
      from copyN_ok [OF ok1 skip(2)] obtain r2 where r2: "copyN rd ?n r1 = Some (None, r2)" "after ?n r1 r2" .
      then have "length (content r2) < length ?c" using False c1 by (auto simp: after_def)
      from less.hyps [OF this] r2 skip False c1 e1 show ?thesis
        by (auto simp: unfold after_def)
    next
      case read
      from readFull_ok [OF ok1 read(2)] obtain r2 where
        "readFull rd ?n r1 = Some ((take ?n (content r1), None), r2)" "after ?n r1 r2" .
      with read False c1 e1 show ?thesis
        by (auto simp: unfold after_def mkFrame_def)
    qed
  qed
qed

end

subsection \<open>Facts about the specification\<close>

text \<open>A frame of a type the package does not know, as it is on the wire: any header over any payload.\<close>

definition unknownFrame :: "byte list \<Rightarrow> byte list \<Rightarrow> bool" where
  "unknownFrame hdr payload \<longleftrightarrow> length hdr = HeaderSize \<and> \<not> known (hdr ! 4)
     \<and> unat (beUint32 hdr) = length payload \<and> length payload \<le> MaxPayload"

lemma parse_skip: "unknownFrame hdr payload \<Longrightarrow> parseFrame e (hdr @ payload @ rest) = parseFrame e rest"
  by (subst parseFrame.simps) (simp add: unknownFrame_def)

lemma parse_skip_all:
  "\<forall>(h, p) \<in> set noise. unknownFrame h p \<Longrightarrow>
   parseFrame e (concat (map (\<lambda>(h, p). h @ p) noise) @ rest) = parseFrame e rest"
  by (induction noise) (auto simp: parse_skip)

text \<open>A frame on the wire, of any type, and bytes that are not yet one.\<close>

definition rawFrame :: "byte list \<Rightarrow> bool" where
  "rawFrame b \<longleftrightarrow> HeaderSize \<le> length b \<and> unat (beUint32 b) \<le> MaxPayload \<and> length b = HeaderSize + unat (beUint32 b)"

definition partialFrame :: "byte list \<Rightarrow> bool" where
  "partialFrame b \<longleftrightarrow> length b < HeaderSize \<or> unat (beUint32 b) \<le> MaxPayload \<and> length b < HeaderSize + unat (beUint32 b)"

lemma be_prefix: "4 \<le> length b \<Longrightarrow> beUint32 (b @ c) = beUint32 b"
proof -
  assume "4 \<le> length b"
  then obtain w x y z r where "b = w # x # y # z # r"
    by (auto simp: numeral_eq_Suc Suc_le_length_iff)
  then show ?thesis by (simp add: be_simps)
qed

lemma frame_rawFrame: "encodable f \<Longrightarrow> rawFrame (frameBytes f)"
  by (auto simp: rawFrame_def encodable_def frameBytes_def be_simps)

lemma parse_oversize:
  assumes "length hdr = HeaderSize" "MaxPayload < unat (beUint32 hdr)"
  shows "parseFrame e (hdr @ rest) = (Inl (OversizeError (hdr ! 4) (beUint32 hdr)), rest)"
  using assms by (subst parseFrame.simps) simp

lemma frame_header_fields:
  "length (take 12 (frameBytes f @ rest)) = 12"
  "take 12 (frameBytes f @ rest) ! 4 = fr_type f"
  "take 12 (frameBytes f @ rest) ! 5 = fr_flags f"
  "beUint32 (take 12 (frameBytes f @ rest)) = word_of_nat (length (fr_payload f))"
  "beUint32 (drop 8 (take 12 (frameBytes f @ rest))) = fr_stream f"
  "drop 12 (frameBytes f @ rest) = fr_payload f @ rest"
  using beUint32_put [of "fr_stream f" "[]"]
  by (simp_all add: frameBytes_def nth_append)

lemma mkFrame_header: "mkFrame (take 12 (frameBytes f @ rest)) p = f\<lparr>fr_payload := p\<rparr>"
  unfolding mkFrame_def frame_header_fields by simp

lemma parse_frameBytes [codec_simps]:
  assumes "encodable f" "known (fr_type f)"
  shows "parseFrame e (frameBytes f @ rest) = (Inr f, rest)"
  unfolding parseFrame.simps [of e "frameBytes f @ rest"] Let_def HeaderSize_def frame_header_fields mkFrame_header
  using assms by (simp add: encodable_def)

lemma parse_cut:
  assumes "rawFrame b" "0 < k" "k < length b"
  shows "parseFrame EOF (take k b) = (Inl ErrTruncated, [])"
proof (cases "k < 12")
  case True
  with assms show ?thesis by (subst parseFrame.simps) auto
next
  case False
  have b: "length b = 12 + unat (beUint32 b)" "unat (beUint32 b) \<le> 16384" using assms(1) by (auto simp: rawFrame_def)
  have "beUint32 (take 12 (take k b)) = beUint32 b"
    using be_prefix [of "take 12 b" "drop 12 b"] False assms(3) by (simp add: min_def)
  moreover have "k - 12 < unat (beUint32 b)" using b(1) False assms(3) by linarith
  ultimately show ?thesis using b False assms(3) by (subst parseFrame.simps) (simp add: truncatedOr_def Let_def)
qed

lemma parse_truncated:
  assumes "encodable f" "known (fr_type f)" "0 < k" "k < length (frameBytes f)"
  shows "parseFrame EOF (take k (frameBytes f)) = (Inl ErrTruncated, [])"
  by (rule parse_cut [OF frame_rawFrame [OF assms(1)] assms(3,4)])

text \<open>Whatever is handed out is a well-formed frame, found behind a run of skipped ones.\<close>

lemma parse_Inr:
  assumes "parseFrame e bs = (Inr f, rest)"
  obtains noise hdr where "\<forall>(h, p) \<in> set noise. unknownFrame h p"
    "bs = concat (map (\<lambda>(h, p). h @ p) noise) @ hdr @ fr_payload f @ rest"
    "length hdr = HeaderSize" "f = mkFrame hdr (fr_payload f)" "known (fr_type f)" "encodable f"
    "unat (beUint32 hdr) = length (fr_payload f)"
  using assms
proof (induction e bs arbitrary: thesis rule: parseFrame.induct)
  case (1 e bs)
  let ?h = "take 12 bs" and ?n = "unat (beUint32 (take 12 bs))" and ?r = "drop 12 bs"
  note eq = "1.prems"(2) [unfolded parseFrame.simps [of e bs]]
  from eq have len: "12 \<le> length bs" "?n \<le> 16384" "?n \<le> length ?r"
    by (auto simp: Let_def split: if_splits)
  have split: "bs = ?h @ take ?n ?r @ drop ?n ?r" by (metis append_take_drop_id)
  show ?case
  proof (cases "known (?h ! 4)")
    case False
    with eq len have "parseFrame e (drop ?n ?r) = (Inr f, rest)" by (auto simp: Let_def split: if_splits)
    with False len obtain noise hdr where IH: "\<forall>(h, p) \<in> set noise. unknownFrame h p"
      "drop ?n ?r = concat (map (\<lambda>(h, p). h @ p) noise) @ hdr @ fr_payload f @ rest"
      "length hdr = HeaderSize" "f = mkFrame hdr (fr_payload f)" "known (fr_type f)" "encodable f"
      "unat (beUint32 hdr) = length (fr_payload f)"
      using "1.IH" [of ?h ?n ?r] by (auto simp: not_less)
    show ?thesis
    proof (rule "1.prems"(1))
      show "\<forall>(h, p) \<in> set ((?h, take ?n ?r) # noise). unknownFrame h p"
        using IH(1) False len by (simp add: unknownFrame_def)
      show "bs = concat (map (\<lambda>(h, p). h @ p) ((?h, take ?n ?r) # noise)) @ hdr @ fr_payload f @ rest"
        using IH(2) split by (simp del: append_take_drop_id)
    qed (use IH in auto)
  next
    case True
    with eq len have f: "f = mkFrame ?h (take ?n ?r)" and rest: "rest = drop ?n ?r"
      and nz: "needsStream (?h ! 4) \<longrightarrow> beUint32 (drop 8 ?h) \<noteq> 0"
      by (auto simp: Let_def split: if_splits)
    show ?thesis
    proof (rule "1.prems"(1) [of "[]" ?h])
      show "bs = concat (map (\<lambda>(h, p). h @ p) []) @ ?h @ fr_payload f @ rest"
        using split by (simp add: f rest mkFrame_def)
    qed (use True f len nz in \<open>auto simp: mkFrame_def encodable_def\<close>)
  qed
qed

lemma parse_Inr_wf: "parseFrame e bs = (Inr f, rest) \<Longrightarrow> encodable f \<and> known (fr_type f)"
  by (auto elim: parse_Inr)

lemma parse_Inr_shorter: "parseFrame e bs = (Inr f, rest) \<Longrightarrow> length rest < length bs"
  by (erule parse_Inr) auto

subsection \<open>The writer\<close>

context io_writer
begin

lemma writeAll_out:
  assumes "writeAll wr b w = (res, w')"
  shows "res \<noteq> Some SlicePanic \<and> (\<exists>k \<le> length b. out w' = out w @ take k b \<and> (res = None \<longrightarrow> k = length b))"
  using assms
proof (induction "length b" arbitrary: b w rule: less_induct)
  case less
  show ?case
  proof (cases "b = []")
    case True
    with less.prems show ?thesis by (simp add: writeAll.simps)
  next
    case False
    obtain n e w1 where wr: "wr b w = ((n, e), w1)" by (metis surj_pair)
    note laws = write_count [OF wr] write_out [OF wr]
    consider (stop) "e \<noteq> None \<or> n \<le> 0" "w1 = w'" "res \<noteq> None" "res \<noteq> Some SlicePanic"
      | (more) "0 < n" "writeAll wr (drop (nat n) b) w1 = (res, w')"
      using less.prems False wr laws by (auto simp: writeAll.simps [of wr b] split: option.splits if_splits)
    then show ?thesis
    proof cases
      case stop
      with laws show ?thesis by (auto intro!: exI [of _ "nat n"])
    next
      case more
      with False laws have "length (drop (nat n) b) < length b" by simp
      from less.hyps [OF this more(2)] obtain k where "res \<noteq> Some SlicePanic" "k \<le> length b - nat n"
        "out w' = out w1 @ take k (drop (nat n) b)" "res = None \<longrightarrow> k = length b - nat n" by auto
      moreover have "take (nat n) b @ take k (drop (nat n) b) = take (nat n + k) b" by (simp add: take_add)
      ultimately show ?thesis using laws by (intro conjI exI [of _ "nat n + k"]) auto
    qed
  qed
qed

end

context net_conn
begin

lemma writeAll_frame:
  assumes "writeAll (nc_write nc) b c = (res, c')"
  shows "content c' = content c \<and> ending c' = ending c \<and> ctl c' = ctl c"
  using assms
proof (induction "length b" arbitrary: b c rule: less_induct)
  case less
  obtain n e c1 where wr: "nc_write nc b c = ((n, e), c1)" by (metis surj_pair)
  have "c' = c \<or> c' = c1 \<or> 0 < n \<and> b \<noteq> [] \<and> writeAll (nc_write nc) (drop (nat n) b) c1 = (res, c')"
    using less.prems wr unfolding writeAll.simps [of _ b] by (auto split: if_splits option.splits)
  with less.hyps [of "drop (nat n) b" c1] write_frame [OF wr] show ?case by force
qed

lemma writeAll_reliable:
  assumes "reliable c"
  obtains c' where "writeAll (nc_write nc) b c = (None, c')" "reliable c'" "out c' = out c @ b"
    "content c' = content c" "ending c' = ending c" "ctl c' = ctl c"
proof (cases "b = []")
  case True
  with assms that show ?thesis by (simp add: writeAll.simps)
next
  case False
  obtain n e c' where wr: "nc_write nc b c = ((n, e), c')" by (metis surj_pair)
  note write_reliable [OF assms wr] wside.write_out [OF wr] write_frame [OF wr]
  moreover from this have "writeAll (nc_write nc) b c = (None, c')"
    using wr False by (simp add: writeAll.simps [of _ b] writeAll.simps [of _ "[]"])
  ultimately show ?thesis by (auto intro: that)
qed

end

subsection \<open>Properties\<close>

text \<open>The refinement lemma at a fresh buffered connection, as the server and the client make one.\<close>

lemma tcp_readFrame:
  "\<exists>b. readFrame (bufioRead tcp_read) (bufioNew c) =
        Some (fst (parseFrame (tcp_ending c) (tcp_content c)), b)
     \<and> tcp_pending b = snd (parseFrame (tcp_ending c) (tcp_content c)) \<and> tcp_ending (bf_rd b) = tcp_ending c"
  using tcp.sock.buf.readFrame_refines [of "bufioNew c"] by (auto simp: tcp_bcontent)

text \<open>
  C5. A frame survives the wire. When \<^verbatim>\<open>Write\<close> reports success for a frame of a known type, the
  bytes it added to the connection, delivered to the other side in any pieces whatever and
  followed by anything, are read back by \<^verbatim>\<open>Read\<close> as exactly that frame, and \<^verbatim>\<open>Read\<close> stops exactly
  at its end.
\<close>
theorem frame_wire_roundtrip:
  assumes "writeFrame tcp_write f c = (None, c')" and "known (fr_type f)"
    and "tcp_out c' = tcp_out c @ sent" and "concat chunks = sent @ later"
  shows "\<exists>b. readFrame (bufioRead tcp_read) (bufioNew (tcp_open chunks e budget)) = Some (Inr f, b)
    \<and> tcp_pending b = later"
proof -
  from assms(1) obtain bs where bs: "encodeFrame f = Inr bs" "writeAll tcp_write bs c = (None, c')"
    by (auto simp: writeFrame_def split: sum.splits)
  then have "tcp_out c' = tcp_out c @ bs"
    using tcp.wside.writeAll_out [of bs c None c'] by auto
  with assms(3) bs(1) have "sent = frameBytes f" "encodable f" by (simp_all add: encodeFrame_Inr)
  with assms(2,4) show ?thesis
    using tcp_readFrame [of "tcp_open chunks e budget"] by (auto simp: parse_frameBytes)
qed

theorem frame_wire_roundtrip_witness:
  "\<exists>b. readFrame (bufioRead tcp_read)
      (bufioNew (tcp_open [[0, 0, 0], [2, 3, 1, 0], [0, 0, 0, 0, 7, 170], [187, 9]] EOF None)) =
      Some (Inr \<lparr>fr_type = 3, fr_flags = 1, fr_stream = 7, fr_payload = [170, 187]\<rparr>, b)
    \<and> tcp_pending b = [9]"
proof (rule frame_wire_roundtrip [where c = "tcp_open [] EOF None" and sent = "[0, 0, 0, 2, 3, 1, 0, 0, 0, 0, 0, 7, 170, 187]"])
  show "writeFrame tcp_write \<lparr>fr_type = 3, fr_flags = 1, fr_stream = 7, fr_payload = [170, 187]\<rparr> (tcp_open [] EOF None)
     = (None, (tcp_open [] EOF None)\<lparr>tcp_out := [0, 0, 0, 2, 3, 1, 0, 0, 0, 0, 0, 7, 170, 187]\<rparr>)"
    by (simp add: writeFrame_def encodeFrame_def needsStream_def type_defs putUint32_def
        writeAll.simps tcp_write_def tcp_open_def)
qed (simp_all add: known_def type_defs)

text \<open>
  C6. TCP read boundaries have no meaning. \<^verbatim>\<open>Read\<close> returns on every connection, and what it returns,
  frame or error, and what it leaves unread depend only on the bytes and the final error of the
  stream: two connections that deliver the same bytes in different pieces, one read through a
  \<^verbatim>\<open>bufio.Reader\<close> and one directly, give the same answer.
\<close>
theorem read_delivery_independent:
  assumes "tcp_content c1 = tcp_content c2" and "tcp_ending c1 = tcp_ending c2"
  shows "\<exists>res b c. readFrame (bufioRead tcp_read) (bufioNew c1) = Some (res, b)
    \<and> readFrame tcp_read c2 = Some (res, c) \<and> tcp_pending b = tcp_content c"
  using tcp_readFrame [of c1] tcp.sock.readFrame_refines [of c2] assms by auto

theorem read_delivery_independent_witness:
  "\<exists>res b c. readFrame (bufioRead tcp_read) (bufioNew (tcp_open [[0, 0], [], [0, 1, 4], [0, 0, 0]] EOF None)) = Some (res, b)
    \<and> readFrame tcp_read (tcp_open [[0], [0, 0], [1, 4, 0, 0], [0]] EOF None) = Some (res, c)
    \<and> tcp_pending b = tcp_content c"
  by (rule read_delivery_independent) simp_all

text \<open>
  C26. Frames of unknown types never disturb a receiver. Any number of them in front of a stream,
  with whatever flags, reserved bytes, stream id and payload, change neither what \<^verbatim>\<open>Read\<close> returns
  next nor where it stops.
\<close>
theorem read_skips_unknown:
  assumes "\<forall>(h, p) \<in> set noise. unknownFrame h p"
    and "concat chunks = concat (map (\<lambda>(h, p). h @ p) noise) @ concat chunks'"
  shows "\<exists>res b b'. readFrame (bufioRead tcp_read) (bufioNew (tcp_open chunks e budget)) = Some (res, b)
    \<and> readFrame (bufioRead tcp_read) (bufioNew (tcp_open chunks' e budget)) = Some (res, b')
    \<and> tcp_pending b = tcp_pending b'"
  using tcp_readFrame [of "tcp_open chunks e budget"] tcp_readFrame [of "tcp_open chunks' e budget"]
    parse_skip_all [OF assms(1)] assms(2) by auto

theorem read_skips_unknown_witness:
  "\<exists>res b b'. readFrame (bufioRead tcp_read)
        (bufioNew (tcp_open [[0, 0, 0, 1, 126, 255, 9], [9, 0, 0, 0, 0, 42], [0, 0, 0, 0, 4, 0, 0, 0, 0, 0, 0, 0]] EOF None)) = Some (res, b)
    \<and> readFrame (bufioRead tcp_read) (bufioNew (tcp_open [[0, 0, 0, 0, 4, 0, 0, 0, 0, 0, 0, 0]] EOF None)) = Some (res, b')
    \<and> tcp_pending b = tcp_pending b'"
  by (rule read_skips_unknown [where noise = "[([0, 0, 0, 1, 126, 255, 9, 9, 0, 0, 0, 0], [42])]"])
    (simp_all add: unknownFrame_def known_def type_defs be_simps)

text \<open>
  C28. The length is checked before anything else of the frame. A header that declares more than 16384
  payload bytes, of a known or an unknown type, is refused with its type and length after exactly
  the twelve header bytes were consumed: no payload byte is waited for, read or skipped.
\<close>
theorem read_oversize:
  assumes "length hdr = HeaderSize" and "MaxPayload < unat (beUint32 hdr)"
    and "concat chunks = hdr @ later"
  shows "\<exists>b. readFrame (bufioRead tcp_read) (bufioNew (tcp_open chunks e budget)) =
      Some (Inl (OversizeError (hdr ! 4) (beUint32 hdr)), b) \<and> tcp_pending b = later"
  using tcp_readFrame [of "tcp_open chunks e budget"] parse_oversize [OF assms(1,2)] assms(3) by auto

theorem read_oversize_witness:
  "\<exists>b. readFrame (bufioRead tcp_read) (bufioNew (tcp_open [str ''GET /'', str '' HTTP/1.''] EOF None)) =
      Some (Inl (OversizeError 47 0x47455420), b) \<and> tcp_pending b = [46]"
  using read_oversize [of "str ''GET / HTTP/1''" "[str ''GET /'', str '' HTTP/1.'']" "[46]" EOF None]
  by (simp add: be_simps)

text \<open>
  C27. A stream that ends inside a frame is always reported as truncated, wherever the cut is: between
  the first and the last header byte, right after the header, or anywhere in the payload. It is
  never a shorter frame, never a clean end. The frame may be of any type, known or not, with any flags,
  reserved bytes and stream id, and any number of whole frames of unknown types may come before it.
\<close>
theorem read_truncated:
  assumes "length hdr = HeaderSize" and "unat (beUint32 hdr) = length payload" and "length payload \<le> MaxPayload"
    and "0 < k" and "k < length (hdr @ payload)" and "\<forall>(h, p) \<in> set noise. unknownFrame h p"
    and "concat chunks = concat (map (\<lambda>(h, p). h @ p) noise) @ take k (hdr @ payload)"
  shows "\<exists>b. readFrame (bufioRead tcp_read) (bufioNew (tcp_open chunks EOF budget)) = Some (Inl ErrTruncated, b)"
proof -
  have "rawFrame (hdr @ payload)" using assms(1-3) be_prefix [of hdr payload] by (simp add: rawFrame_def)
  from parse_cut [OF this assms(4,5)] parse_skip_all [OF assms(6)] assms(7)
  show ?thesis using tcp_readFrame [of "tcp_open chunks EOF budget"] by auto
qed

theorem read_truncated_witness:
  "\<exists>b. readFrame (bufioRead tcp_read) (bufioNew (tcp_open [[0, 0, 0, 2, 126, 1], [9, 9, 0, 0, 0, 7, 170]] EOF None))
     = Some (Inl ErrTruncated, b)"
  by (rule read_truncated [of "[0, 0, 0, 2, 126, 1, 9, 9, 0, 0, 0, 7]" "[170, 187]" 13 "[]"]) (simp_all add: be_simps)

text \<open>
  C29. Whatever \<^verbatim>\<open>Read\<close> hands out is a frame \<^verbatim>\<open>Encode\<close> would have built: of a known type, with at most
  16384 payload bytes and a non-zero stream id where the type needs one, so no later layer sees
  anything else, whatever bytes arrive.
\<close>
theorem read_wellformed:
  assumes "readFrame (bufioRead tcp_read) (bufioNew c) = Some (Inr f, b)"
  shows "known (fr_type f) \<and> length (fr_payload f) \<le> MaxPayload
    \<and> (needsStream (fr_type f) \<longrightarrow> fr_stream f \<noteq> 0) \<and> encodeFrame f = Inr (frameBytes f)"
proof -
  from tcp_readFrame [of c] assms obtain rest where "parseFrame (tcp_ending c) (tcp_content c) = (Inr f, rest)"
    by (metis option.inject prod.inject prod.collapse)
  then show ?thesis using parse_Inr_wf encodeFrame_encodable by (fastforce simp: encodable_def)
qed

theorem read_wellformed_witness:
  "\<exists>f b. readFrame (bufioRead tcp_read) (bufioNew (tcp_open [[0, 0, 0, 1, 3, 1, 0, 0, 0, 0, 0, 7], [65]] EOF None)) = Some (Inr f, b)
    \<and> known (fr_type f) \<and> length (fr_payload f) \<le> MaxPayload
    \<and> (needsStream (fr_type f) \<longrightarrow> fr_stream f \<noteq> 0) \<and> encodeFrame f = Inr (frameBytes f)"
proof -
  let ?f = "\<lparr>fr_type = 3, fr_flags = 1, fr_stream = 7, fr_payload = [65]\<rparr>"
  let ?c = "tcp_open [[0, 0, 0, 1, 3, 1, 0, 0, 0, 0, 0, 7], [65]] EOF None"
  have "tcp_content ?c = frameBytes ?f @ []" by (simp add: frameBytes_def putUint32_def)
  then obtain b where "readFrame (bufioRead tcp_read) (bufioNew ?c) = Some (Inr ?f, b)"
    using tcp_readFrame [of ?c] parse_frameBytes [of ?f EOF "[]"]
    by (auto simp: encodable_def known_def type_defs)
  with read_wellformed [OF this] show ?thesis by blast
qed

text \<open>
  C30. A short write is retried until every byte is out. For any writer that keeps the \<^verbatim>\<open>io.Writer\<close>
  contract, however little it takes at a time, success of \<^verbatim>\<open>writeAll\<close> means the whole buffer was
  sent, in order and once; on an error some prefix was sent, and the slice expression never panics.
\<close>
theorem writeAll_complete:
  assumes "io_writer wr out" and "writeAll wr b w = (res, w')"
  shows "res \<noteq> Some SlicePanic \<and> (\<exists>k \<le> length b. out w' = out w @ take k b \<and> (res = None \<longrightarrow> k = length b))"
  using io_writer.writeAll_out [OF assms] .

text \<open>A writer that takes one byte per call.\<close>

definition stingy_write :: "byte list writer" where
  "stingy_write b w = ((int (min 1 (length b)), None), w @ take 1 b)"

theorem writeAll_complete_witness:
  "writeAll stingy_write [1, 2, 3] [9] = (None, [9, 1, 2, 3])
   \<and> (\<exists>k \<le> 3. [9, 1, 2, 3] = [9] @ take k [1, 2, 3 :: byte] \<and> k = 3)"
proof -
  have "io_writer stingy_write (\<lambda>w. w)" by (auto simp: io_writer_def stingy_write_def min_def)
  moreover have run: "writeAll stingy_write [1, 2, 3] [9] = (None, [9, 1, 2, 3])"
    by (simp add: stingy_write_def writeAll.simps)
  ultimately show ?thesis using writeAll_complete [OF _ run, of "\<lambda>w. w"] by simp
qed

end
