(* ===== verification/Go_Strings.thy ===== *)
theory Go_Strings
  imports Prelude
begin

text \<open>
  The functions of \<^verbatim>\<open>unicode/utf8\<close>, \<^verbatim>\<open>strings\<close> and \<^verbatim>\<open>strconv\<close> the program calls, on byte lists.
\<close>

subsection \<open>\<open>utf8.Valid\<close>\<close>

definition utf8Cont :: "byte \<Rightarrow> bool" where
  "utf8Cont b \<longleftrightarrow> 0x80 \<le> b \<and> b \<le> 0xBF"

text \<open>
  The accepted lead bytes and the range of the byte after each are those of the \<^verbatim>\<open>first\<close> and
  \<^verbatim>\<open>acceptRanges\<close> tables of \<^verbatim>\<open>unicode/utf8\<close>: no overlong forms, no surrogates, nothing above U+10FFFF.
\<close>

fun utf8Valid :: "byte list \<Rightarrow> bool" where
  "utf8Valid [] = True"
| "utf8Valid (a # bs) =
     (if a < 0x80 then utf8Valid bs
      else if 0xC2 \<le> a \<and> a \<le> 0xDF then
        (case bs of b # r \<Rightarrow> utf8Cont b \<and> utf8Valid r | _ \<Rightarrow> False)
      else if 0xE0 \<le> a \<and> a \<le> 0xEF then
        (case bs of
           b # c # r \<Rightarrow> (if a = 0xE0 then 0xA0 else 0x80) \<le> b \<and> b \<le> (if a = 0xED then 0x9F else 0xBF)
             \<and> utf8Cont c \<and> utf8Valid r
         | _ \<Rightarrow> False)
      else if 0xF0 \<le> a \<and> a \<le> 0xF4 then
        (case bs of
           b # c # d # r \<Rightarrow> (if a = 0xF0 then 0x90 else 0x80) \<le> b \<and> b \<le> (if a = 0xF4 then 0x8F else 0xBF)
             \<and> utf8Cont c \<and> utf8Cont d \<and> utf8Valid r
         | _ \<Rightarrow> False)
      else False)"

subsection \<open>\<open>strings\<close>\<close>

abbreviation chr :: "char \<Rightarrow> byte" where
  "chr c \<equiv> of_char c"

definition hasPrefix :: "byte list \<Rightarrow> byte list \<Rightarrow> bool" where
  "hasPrefix s p \<longleftrightarrow> length p \<le> length s \<and> take (length p) s = p"

definition hasSuffix :: "byte list \<Rightarrow> byte list \<Rightarrow> bool" where
  "hasSuffix s p \<longleftrightarrow> length p \<le> length s \<and> drop (length s - length p) s = p"

fun containsStr :: "byte list \<Rightarrow> byte list \<Rightarrow> bool" where
  "containsStr [] p = (p = [])"
| "containsStr (x # xs) p = (hasPrefix (x # xs) p \<or> containsStr xs p)"

text \<open>\<^verbatim>\<open>strings.IndexByte\<close>; \<open>None\<close> is the result -1.\<close>

fun indexByte :: "byte list \<Rightarrow> byte \<Rightarrow> nat option" where
  "indexByte [] c = None"
| "indexByte (x # xs) c = (if x = c then Some 0 else map_option Suc (indexByte xs c))"

text \<open>\<^verbatim>\<open>strings.Split\<close> with a separator of one byte: at least one piece, none with the separator.\<close>

fun splitByte :: "byte \<Rightarrow> byte list \<Rightarrow> byte list list" where
  "splitByte c [] = [[]]"
| "splitByte c (x # xs) =
     (if x = c then [] # splitByte c xs
      else (case splitByte c xs of [] \<Rightarrow> [[x]] | w # ws \<Rightarrow> (x # w) # ws))"

fun joinByte :: "byte \<Rightarrow> byte list list \<Rightarrow> byte list" where
  "joinByte c [] = []"
| "joinByte c [w] = w"
| "joinByte c (w # ws) = w @ c # joinByte c ws"

text \<open>\<^verbatim>\<open>strings.Trim\<close> with a cutset of one byte.\<close>

definition trimByte :: "byte \<Rightarrow> byte list \<Rightarrow> byte list" where
  "trimByte c s = rev (dropWhile (\<lambda>x. x = c) (rev (dropWhile (\<lambda>x. x = c) s)))"

text \<open>
  \<^verbatim>\<open>strings.ToUpper\<close> and \<^verbatim>\<open>strings.ToLower\<close> map every code point. The callers compare the result with
  ASCII strings only, so what matters is exactly which code points become ASCII letters: the ASCII
  letters themselves, U+0131 and U+017F (upper case I and S), and U+0130 and U+212A (lower case i
  and k). Every other code point outside ASCII maps to one outside ASCII and is left as it is.
\<close>

definition upByte :: "byte \<Rightarrow> byte" where
  "upByte b = (if chr CHR ''a'' \<le> b \<and> b \<le> chr CHR ''z'' then b - 32 else b)"

definition lowByte :: "byte \<Rightarrow> byte" where
  "lowByte b = (if chr CHR ''A'' \<le> b \<and> b \<le> chr CHR ''Z'' then b + 32 else b)"

fun toUpper :: "byte list \<Rightarrow> byte list" where
  "toUpper [] = []"
| "toUpper [a] = [upByte a]"
| "toUpper (a # b # r) =
     (if a = 0xC4 \<and> b = 0xB1 then chr CHR ''I'' # toUpper r
      else if a = 0xC5 \<and> b = 0xBF then chr CHR ''S'' # toUpper r
      else upByte a # toUpper (b # r))"

fun toLower :: "byte list \<Rightarrow> byte list" where
  "toLower [] = []"
| "toLower [a] = [lowByte a]"
| "toLower (a # b # r) =
     (if a = 0xC4 \<and> b = 0xB0 then chr CHR ''i'' # toLower r
      else if a = 0xE2 \<and> b = 0x84 \<and> r \<noteq> [] \<and> hd r = 0xAA then chr CHR ''k'' # toLower (tl r)
      else lowByte a # toLower (b # r))"

subsection \<open>\<open>strconv\<close>\<close>

definition isDigit :: "byte \<Rightarrow> bool" where
  "isDigit b \<longleftrightarrow> chr CHR ''0'' \<le> b \<and> b \<le> chr CHR ''9''"

fun decDigits :: "nat \<Rightarrow> byte list" where
  "decDigits n = (if n < 10 then [48 + word_of_nat n] else decDigits (n div 10) @ [48 + word_of_nat (n mod 10)])"

declare decDigits.simps [simp del]

text \<open>\<^verbatim>\<open>strconv.FormatInt(n, 10)\<close>.\<close>

definition formatInt :: "int \<Rightarrow> byte list" where
  "formatInt n = (if n < 0 then chr CHR ''-'' # decDigits (nat (- n)) else decDigits (nat n))"

definition digitsValue :: "byte list \<Rightarrow> nat" where
  "digitsValue ds = foldl (\<lambda>n d. 10 * n + unat (d - 48)) 0 ds"

text \<open>
  \<^verbatim>\<open>strconv.ParseInt(s, 10, 64)\<close>: an optional sign, at least one digit, nothing else, and a value
  that fits an \<^verbatim>\<open>int64\<close>.
\<close>

definition parseInt :: "byte list \<Rightarrow> int option" where
  "parseInt s =
     (let neg = (s \<noteq> [] \<and> hd s = chr CHR ''-'');
          ds = (if s \<noteq> [] \<and> (hd s = chr CHR ''-'' \<or> hd s = chr CHR ''+'') then tl s else s);
          v = int (digitsValue ds)
      in if ds = [] \<or> \<not> list_all isDigit ds then None
         else if neg then (if v > 2 ^ 63 then None else Some (- v))
         else (if v > 2 ^ 63 - 1 then None else Some v))"

subsection \<open>Facts about prefixes, splitting and joining\<close>

lemma hasPrefix_iff: "hasPrefix s p \<longleftrightarrow> (\<exists>r. s = p @ r)"
proof
  assume "hasPrefix s p"
  then have "s = p @ drop (length p) s" unfolding hasPrefix_def by (metis append_take_drop_id)
  then show "\<exists>r. s = p @ r" ..
qed (auto simp: hasPrefix_def)

lemma hasSuffix_iff: "hasSuffix s p \<longleftrightarrow> (\<exists>r. s = r @ p)"
proof
  assume "hasSuffix s p"
  then have "s = take (length s - length p) s @ p" unfolding hasSuffix_def by (metis append_take_drop_id)
  then show "\<exists>r. s = r @ p" ..
qed (auto simp: hasSuffix_def)

lemma containsStr_iff: "containsStr s p \<longleftrightarrow> (\<exists>a b. s = a @ p @ b)"
proof (induction s)
  case (Cons x xs)
  have "(\<exists>a b. x # xs = a @ p @ b) \<longleftrightarrow> (\<exists>b. x # xs = p @ b) \<or> (\<exists>a b. xs = a @ p @ b)"
    by (metis append_Cons append_Nil list.sel(3) neq_Nil_conv tl_append2)
  with Cons show ?case by (simp add: hasPrefix_iff)
qed auto

lemma splitByte_not_Nil [simp]: "splitByte c s \<noteq> []"
  by (cases s) (auto split: list.splits)

lemma joinByte_Cons: "ws \<noteq> [] \<Longrightarrow> joinByte c (w # ws) = w @ c # joinByte c ws"
  by (cases ws) auto

lemma joinByte_split [simp]: "joinByte c (splitByte c s) = s"
proof (induction s)
  case (Cons x xs)
  then show ?case by (cases "splitByte c xs"; cases "tl (splitByte c xs)") (auto simp: joinByte_Cons)
qed simp

lemma splitByte_no_sep: "w \<in> set (splitByte c s) \<Longrightarrow> c \<notin> set w"
proof (induction s arbitrary: w)
  case (Cons x xs)
  then show ?case by (cases "splitByte c xs") (auto split: if_splits)
qed simp

lemma splitByte_nosep [simp]: "c \<notin> set w \<Longrightarrow> splitByte c w = [w]"
  by (induction w) auto

lemma splitByte_append: "c \<notin> set w \<Longrightarrow> splitByte c (w @ c # s) = w # splitByte c s"
  by (induction w) auto

lemma splitByte_join:
  "ws \<noteq> [] \<Longrightarrow> \<forall>w \<in> set ws. c \<notin> set w \<Longrightarrow> splitByte c (joinByte c ws) = ws"
  by (induction c ws rule: joinByte.induct) (auto simp: splitByte_append)

lemma set_joinByte: "x \<in> set (joinByte c ws) \<Longrightarrow> x = c \<or> (\<exists>w \<in> set ws. x \<in> set w)"
  by (induction c ws rule: joinByte.induct) auto

subsection \<open>Decimal numbers\<close>

lemma digit_byte: "n < 10 \<Longrightarrow> isDigit (48 + word_of_nat n) \<and> unat (48 + word_of_nat n - 48 :: byte) = n"
  by (simp add: isDigit_def word_le_nat_alt unat_word_ariths)

lemma decDigits_not_Nil [simp]: "decDigits n \<noteq> []"
  by (subst decDigits.simps) simp

lemma decDigits_digits: "list_all isDigit (decDigits n)"
proof (induction n rule: decDigits.induct)
  case (1 n)
  then show ?case by (subst decDigits.simps) (auto simp: digit_byte)
qed

lemma digitsValue_snoc: "digitsValue (ds @ [d]) = 10 * digitsValue ds + unat (d - 48)"
  by (simp add: digitsValue_def)

lemma digitsValue_decDigits [simp]: "digitsValue (decDigits n) = n"
proof (induction n rule: decDigits.induct)
  case (1 n)
  show ?case
  proof (cases "n < 10")
    case True
    then show ?thesis by (subst decDigits.simps) (simp add: digitsValue_def digit_byte)
  next
    case False
    with 1 show ?thesis
      by (subst decDigits.simps) (simp add: digitsValue_snoc digit_byte)
  qed
qed

lemma decDigits_length: "n < 10 ^ k \<Longrightarrow> 0 < k \<Longrightarrow> length (decDigits n) \<le> k"
proof (induction k arbitrary: n)
  case (Suc k)
  show ?case
  proof (cases "n < 10")
    case True
    then show ?thesis by (subst decDigits.simps) simp
  next
    case False
    with Suc.prems have "n div 10 < 10 ^ k" "0 < k" by (auto simp: less_mult_imp_div_less intro: gr0I)
    with Suc.IH [of "n div 10"] False show ?thesis by (subst decDigits.simps) simp
  qed
qed simp

end
