(* ===== verification/Protocol.thy ===== *)
theory Protocol
  imports Go_Strings
begin

text \<open>
  \<^verbatim>\<open>internal/protocol\<close>, first half: \<^verbatim>\<open>protocol.go\<close> (the bounds-checked cursor) and \<^verbatim>\<open>headers.go\<close>
  (the static header table, encoding and decoding of header blocks).

  The specification side is the type \<open>wire_header\<close>, one header as it is on the wire. The two
  lemmas \<open>readHeaders_wire\<close> and \<open>readHeaders_complete\<close> say that the decoder accepts exactly the
  encodings of acceptable header lists, and what it returns for each.
\<close>

subsection \<open>\<open>protocol.go\<close>\<close>

definition MaxPathLen :: nat where "MaxPathLen = 4096"
definition MaxHeaders :: nat where "MaxHeaders = 255"
definition MaxCustomNameLen :: nat where "MaxCustomNameLen = 255"
definition maxHeaderValueLen :: nat where "maxHeaderValueLen = 0xFFFF"
definition maxFramePayload :: nat where "maxFramePayload = 16384"

lemmas limit_defs [simp] = MaxPathLen_def MaxHeaders_def MaxCustomNameLen_def maxHeaderValueLen_def
  maxFramePayload_def

definition MethodGet :: byte where "MethodGet = 0x01"

text \<open>
  The errors. \<open>ErrMalformed\<close> is the sentinel that every decoding error wraps, with the reason its
  message gives; the others are the errors of the encoders.
\<close>

datatype malformed_reason =
    NeedMoreBytes int nat
  | UnexpectedBytes nat
  | HeadersDoNotFit byte nat
  | NameLengthOutside u16
  | NameNotAllowed u16
  | MustUseTableId "byte list"
  | MethodNotSupported byte
  | PathLengthOutside u16
  | PathNotUTF8
  | StatusOutside u16

datatype proto_err =
    ErrMalformed malformed_reason
  | ErrTooLarge
  | TooManyHeaders nat
  | ValueTooLong "byte list" nat
  | InvalidHeaderName "byte list"
  | UnsupportedMethod byte
  | PathLengthInvalid nat
  | PathInvalidUTF8
  | StatusInvalid int

type_synonym cursor = "byte list"

definition remaining :: "cursor \<Rightarrow> nat" where
  "remaining c = length c"

definition takeBytes :: "int \<Rightarrow> cursor \<Rightarrow> proto_err + (byte list \<times> cursor)" where
  "takeBytes n c =
     (if n < 0 \<or> n > int (length c) then Inl (ErrMalformed (NeedMoreBytes n (length c)))
      else Inr (take (nat n) c, drop (nat n) c))"

definition u8 :: "cursor \<Rightarrow> proto_err + (byte \<times> cursor)" where
  "u8 c = sbind (takeBytes 1 c) (\<lambda>(b, c'). Inr (b ! 0, c'))"

definition u16 :: "cursor \<Rightarrow> proto_err + (u16 \<times> cursor)" where
  "u16 c = sbind (takeBytes 2 c) (\<lambda>(b, c'). Inr (beUint16 b, c'))"

definition finish :: "cursor \<Rightarrow> proto_err + unit" where
  "finish c = (if length c \<noteq> 0 then Inl (ErrMalformed (UnexpectedBytes (length c))) else Inr ())"

definition appendU16 :: "byte list \<Rightarrow> u16 \<Rightarrow> byte list" where
  "appendU16 dst v = dst @ putUint16 v"

definition validUTF8 :: "byte list \<Rightarrow> bool" where
  "validUTF8 b = utf8Valid b"

subsection \<open>\<open>headers.go\<close>\<close>

definition HeaderContentType :: "byte list" where "HeaderContentType = str ''content-type''"
definition HeaderContentLength :: "byte list" where "HeaderContentLength = str ''content-length''"
definition HeaderServer :: "byte list" where "HeaderServer = str ''server''"
definition HeaderDate :: "byte list" where "HeaderDate = str ''date''"
definition HeaderConnection :: "byte list" where "HeaderConnection = str ''connection''"
definition HeaderContentEncoding :: "byte list" where "HeaderContentEncoding = str ''content-encoding''"
definition HeaderCacheControl :: "byte list" where "HeaderCacheControl = str ''cache-control''"
definition HeaderLastModified :: "byte list" where "HeaderLastModified = str ''last-modified''"

lemmas header_name_defs = HeaderContentType_def HeaderContentLength_def HeaderServer_def HeaderDate_def
  HeaderConnection_def HeaderContentEncoding_def HeaderCacheControl_def HeaderLastModified_def

definition tableNames :: "byte list list" where
  "tableNames = [[], HeaderContentType, HeaderContentLength, HeaderServer, HeaderDate, HeaderConnection,
     HeaderContentEncoding, HeaderCacheControl, HeaderLastModified]"

definition tableIDs :: "byte list \<rightharpoonup> byte" where
  "tableIDs = foldl (\<lambda>m (i, name). if name \<noteq> [] then m(name \<mapsto> word_of_nat i) else m)
     Map.empty (enumerate 0 tableNames)"

record header =
  hd_name :: "byte list"
  hd_value :: "byte list"

definition NewHeader :: "byte list \<Rightarrow> byte list \<Rightarrow> header" where
  "NewHeader name value = \<lparr>hd_name = name, hd_value = value\<rparr>"

text \<open>\<^verbatim>\<open>Get\<close>: the first value for a name, with whether there was one.\<close>

fun GetHeader :: "header list \<Rightarrow> byte list \<Rightarrow> byte list option" where
  "GetHeader [] name = None"
| "GetHeader (h # hs) name = (if hd_name h = name then Some (hd_value h) else GetHeader hs name)"

definition validNameByte :: "byte \<Rightarrow> bool" where
  "validNameByte c \<longleftrightarrow> of_char CHR ''a'' \<le> c \<and> c \<le> of_char CHR ''z''
     \<or> of_char CHR ''0'' \<le> c \<and> c \<le> of_char CHR ''9''
     \<or> c = of_char CHR ''-'' \<or> c = of_char CHR ''_'' \<or> c = of_char CHR ''.''"

definition validCustomName :: "byte list \<Rightarrow> bool" where
  "validCustomName name \<longleftrightarrow>
     \<not> (length name = 0 \<or> length name > MaxCustomNameLen) \<and> list_all validNameByte name"

fun appendHeaderList :: "byte list \<Rightarrow> header list \<Rightarrow> proto_err + byte list" where
  "appendHeaderList dst [] = Inr dst"
| "appendHeaderList dst (h # hs) =
     (if length (hd_value h) > maxHeaderValueLen
      then Inl (ValueTooLong (hd_name h) (length (hd_value h)))
      else sbind
        (case tableIDs (hd_name h) of
           Some hid \<Rightarrow> Inr (dst @ [hid])
         | None \<Rightarrow>
             if \<not> validCustomName (hd_name h) then Inl (InvalidHeaderName (hd_name h))
             else Inr (appendU16 (dst @ [0]) (word_of_nat (length (hd_name h))) @ hd_name h))
        (\<lambda>dst'. appendHeaderList
           (appendU16 dst' (word_of_nat (length (hd_value h))) @ hd_value h) hs))"

definition appendHeaders :: "byte list \<Rightarrow> header list \<Rightarrow> proto_err + byte list" where
  "appendHeaders dst headers =
     (if length headers > MaxHeaders then Inl (TooManyHeaders (length headers))
      else appendHeaderList (dst @ [word_of_nat (length headers)]) headers)"

datatype nameRules = strictNames | structuralNames

text \<open>
  The name of one header and whether it is returned to the caller: the \<^verbatim>\<open>switch\<close> on the
  identifier in the body of the loop of \<^verbatim>\<open>readHeaders\<close>.
\<close>

definition readHeaderName :: "nameRules \<Rightarrow> byte \<Rightarrow> cursor \<Rightarrow> proto_err + ((byte list \<times> bool) \<times> cursor)" where
  "readHeaderName rules hid c =
     (if hid = 0 then
        sbind (u16 c) (\<lambda>(nameLen, c1).
        sbind (takeBytes (uint nameLen) c1) (\<lambda>(name, c2).
          if nameLen = 0 \<or> unat nameLen > MaxCustomNameLen
          then Inl (ErrMalformed (NameLengthOutside nameLen))
          else if rules = strictNames \<and> \<not> validCustomName name
          then Inl (ErrMalformed (NameNotAllowed nameLen))
          else if rules = strictNames \<and> tableIDs name \<noteq> None
          then Inl (ErrMalformed (MustUseTableId name))
          else if tableIDs name \<noteq> None then Inr ((name, False), c2)
          else Inr ((name, True), c2)))
      else if unat hid < length tableNames then Inr ((tableNames ! unat hid, True), c)
      else Inr (([], False), c))"

fun readHeaderLoop :: "nameRules \<Rightarrow> nat \<Rightarrow> header list \<Rightarrow> cursor \<Rightarrow> proto_err + (header list \<times> cursor)" where
  "readHeaderLoop rules 0 headers c = Inr (headers, c)"
| "readHeaderLoop rules (Suc n) headers c =
     sbind (u8 c) (\<lambda>(hid, c1).
     sbind (readHeaderName rules hid c1) (\<lambda>((name, known), c2).
     sbind (u16 c2) (\<lambda>(valueLen, c3).
     sbind (takeBytes (uint valueLen) c3) (\<lambda>(value, c4).
       readHeaderLoop rules n
         (if known then headers @ [\<lparr>hd_name = name, hd_value = value\<rparr>] else headers) c4))))"

definition readHeaders :: "cursor \<Rightarrow> nameRules \<Rightarrow> proto_err + (header list \<times> cursor)" where
  "readHeaders c rules =
     sbind (u8 c) (\<lambda>(count, c1).
       if unat count * 3 > remaining c1 then Inl (ErrMalformed (HeadersDoNotFit count (remaining c1)))
       else readHeaderLoop rules (unat count) [] c1)"

subsection \<open>The cursor\<close>

lemma u8_Inr [codec_simps]: "u8 c = Inr (b, c') \<longleftrightarrow> c = b # c'"
  by (cases c) (auto simp: u8_def takeBytes_def split: if_splits)

lemma takeBytes_Inr [codec_simps]:
  "takeBytes (uint (v :: 'a::len word)) c = Inr (bs, c') \<longleftrightarrow> c = bs @ c' \<and> length bs = unat v"
proof -
  have "takeBytes (int n) c = Inr (bs, c') \<longleftrightarrow> c = bs @ c' \<and> length bs = n" for n
    by (auto simp: takeBytes_def)
  from this [of "unat v"] show ?thesis by simp
qed

lemma u16_Inr [codec_simps]: "u16 c = Inr (v, c') \<longleftrightarrow> c = putUint16 v @ c'"
proof
  assume "u16 c = Inr (v, c')"
  then obtain a b where "c = a # b # c'" "v = beUint16 [a, b]"
    by (cases c rule: beUint16.cases) (auto simp: u16_def takeBytes_def split: if_splits)
  then show "c = putUint16 v @ c'" by simp
next
  assume "c = putUint16 v @ c'"
  then show "u16 c = Inr (v, c')"
    using beUint16_put [of v "[]"] by (simp add: u16_def takeBytes_def)
qed

lemma finish_Inr [simp]: "finish c = Inr () \<longleftrightarrow> c = []"
  by (simp add: finish_def)

subsection \<open>The header table\<close>

lemma tableIDs_unfold:
  "tableIDs = [HeaderContentType \<mapsto> 1, HeaderContentLength \<mapsto> 2, HeaderServer \<mapsto> 3, HeaderDate \<mapsto> 4,
     HeaderConnection \<mapsto> 5, HeaderContentEncoding \<mapsto> 6, HeaderCacheControl \<mapsto> 7, HeaderLastModified \<mapsto> 8]"
  by (simp add: tableIDs_def tableNames_def header_name_defs)

lemma tableIDs_Some: "tableIDs n = Some i \<Longrightarrow> i \<noteq> 0 \<and> unat i < length tableNames \<and> tableNames ! unat i = n"
  by (auto simp: tableIDs_unfold tableNames_def split: if_splits)

lemma tableNames_id:
  assumes "i \<noteq> 0" "unat i < length tableNames"
  shows "tableIDs (tableNames ! unat i) = Some i"
proof -
  obtain k where k: "i = word_of_nat k" "unat i = k" by (metis word_of_nat_unat)
  with assms have "k < 9" "k \<noteq> 0" by (auto simp: tableNames_def intro: gr0I)
  then have "k = 1 \<or> k = 2 \<or> k = 3 \<or> k = 4 \<or> k = 5 \<or> k = 6 \<or> k = 7 \<or> k = 8" by arith
  with k show ?thesis by (auto simp: tableIDs_unfold tableNames_def header_name_defs)
qed

subsection \<open>Headers on the wire\<close>

text \<open>\<^verbatim>\<open>uint16(len(b))\<close>, the length field in front of a name or a value.\<close>

definition len16 :: "byte list \<Rightarrow> u16" where
  "len16 b = word_of_nat (length b)"

lemma unat_len16 [simp]: "length b \<le> 65535 \<Longrightarrow> unat (len16 b) = length b"
  by (simp add: len16_def)

lemma len16_zero: "length b \<le> 65535 \<Longrightarrow> len16 b = 0 \<longleftrightarrow> b = []"
  by (simp only: unat_eq_zero [symmetric] unat_len16 length_0_conv)

lemma len16_unat: "length b = unat v \<Longrightarrow> len16 b = v"
  by (simp add: len16_def)

datatype wire_header = KnownHeader byte "byte list" | CustomHeader "byte list" "byte list"

fun wireBytes :: "wire_header \<Rightarrow> byte list" where
  "wireBytes (KnownHeader i v) = i # putUint16 (len16 v) @ v"
| "wireBytes (CustomHeader n v) = 0 # putUint16 (len16 n) @ n @ putUint16 (len16 v) @ v"

text \<open>Which headers a receiver with the given rules accepts, and which of them it returns.\<close>

fun wireOk :: "nameRules \<Rightarrow> wire_header \<Rightarrow> bool" where
  "wireOk rules (KnownHeader i v) \<longleftrightarrow> i \<noteq> 0 \<and> length v \<le> maxHeaderValueLen"
| "wireOk rules (CustomHeader n v) \<longleftrightarrow> n \<noteq> [] \<and> length n \<le> MaxCustomNameLen \<and> length v \<le> maxHeaderValueLen
     \<and> (rules = strictNames \<longrightarrow> validCustomName n \<and> tableIDs n = None)"

fun wireVisible :: "wire_header \<Rightarrow> header list" where
  "wireVisible (KnownHeader i v) =
     (if unat i < length tableNames then [\<lparr>hd_name = tableNames ! unat i, hd_value = v\<rparr>] else [])"
| "wireVisible (CustomHeader n v) = (if tableIDs n = None then [\<lparr>hd_name = n, hd_value = v\<rparr>] else [])"

lemma length_wireBytes: "3 \<le> length (wireBytes w)"
  by (cases w) auto

lemma length_concat_wireBytes: "length ws * 3 \<le> length (concat (map wireBytes ws))"
proof (induction ws)
  case (Cons w ws)
  with length_wireBytes [of w] show ?case by simp
qed simp

lemma cursor_eval [simp]:
  "u8 (b # c) = Inr (b, c)" "u16 (putUint16 v @ c) = Inr (v, c)"
  "length bs \<le> 65535 \<Longrightarrow> takeBytes (uint (len16 bs)) (bs @ c) = Inr (bs, c)"
  "length bs \<le> 65535 \<Longrightarrow> takeBytes (uint (len16 bs)) bs = Inr (bs, [])"
  by (simp_all add: codec_simps)

lemma readHeader_wire:
  assumes "wireOk rules w"
  shows "readHeaderLoop rules (Suc n) acc (wireBytes w @ rest) =
    readHeaderLoop rules n (acc @ wireVisible w) rest"
proof (cases w)
  case (KnownHeader i v)
  with assms show ?thesis by (simp add: readHeaderName_def)
next
  case (CustomHeader nm v)
  with assms have "length nm \<le> 65535" by simp
  with assms CustomHeader show ?thesis by (auto simp: readHeaderName_def len16_zero)
qed

lemma readHeaderLoop_wire:
  "list_all (wireOk rules) ws \<Longrightarrow>
   readHeaderLoop rules (length ws) acc (concat (map wireBytes ws) @ rest) =
     Inr (acc @ concat (map wireVisible ws), rest)"
  by (induction ws arbitrary: acc) (simp_all add: readHeader_wire del: readHeaderLoop.simps(2))

lemma readHeaderName_Inr:
  assumes "readHeaderName rules hid c = Inr ((name, vis), c2)" and "c2 = putUint16 (len16 v) @ v @ c4"
    and "length v \<le> 65535"
  obtains w where "wireOk rules w" "hid # c = wireBytes w @ c4"
    "wireVisible w = (if vis then [\<lparr>hd_name = name, hd_value = v\<rparr>] else [])"
proof (cases "hid = 0")
  case True
  with assms(1) obtain nl where c: "c = putUint16 nl @ name @ c2" "length name = unat nl" "nl \<noteq> 0" "unat nl \<le> 255"
    and ok: "rules = strictNames \<longrightarrow> validCustomName name \<and> tableIDs name = None" "vis = (tableIDs name = None)"
    by (auto simp: readHeaderName_def codec_simps split: if_splits)
  then have "len16 name = nl" "name \<noteq> []" by (auto simp: len16_unat unat_eq_zero)
  with c ok True assms show ?thesis by (intro that [of "CustomHeader name v"]) auto
next
  case False
  with assms show ?thesis
    by (intro that [of "KnownHeader hid v"]) (auto simp: readHeaderName_def split: if_splits)
qed

lemma readHeaderLoop_complete:
  "readHeaderLoop rules n acc c = Inr (hs, rest) \<Longrightarrow>
   \<exists>ws. length ws = n \<and> list_all (wireOk rules) ws \<and> c = concat (map wireBytes ws) @ rest
      \<and> hs = acc @ concat (map wireVisible ws)"
proof (induction n arbitrary: acc c)
  case 0
  then show ?case by simp
next
  case (Suc n)
  then obtain hid c1 name vis c2 vl c3 v c4 where step: "c = hid # c1"
    "readHeaderName rules hid c1 = Inr ((name, vis), c2)" "c2 = putUint16 vl @ v @ c4" "length v = unat vl"
    "readHeaderLoop rules n (if vis then acc @ [\<lparr>hd_name = name, hd_value = v\<rparr>] else acc) c4 = Inr (hs, rest)"
    by (auto simp: codec_simps)
  have "length v \<le> 65535" "len16 v = vl" using step(4) unat_u16_bound [of vl] by (auto simp: len16_unat)
  with step obtain w where w: "wireOk rules w" "c = wireBytes w @ c4"
    "wireVisible w = (if vis then [\<lparr>hd_name = name, hd_value = v\<rparr>] else [])"
    using readHeaderName_Inr [of rules hid c1 name vis c2 v c4] by metis
  from Suc.IH [OF step(5)] obtain ws where "length ws = n" "list_all (wireOk rules) ws"
    "c4 = concat (map wireBytes ws) @ rest"
    "hs = (if vis then acc @ [\<lparr>hd_name = name, hd_value = v\<rparr>] else acc) @ concat (map wireVisible ws)" by blast
  with w show ?case by (intro exI [of _ "w # ws"]) auto
qed

lemma readHeaders_wire:
  assumes "length ws \<le> 255" "list_all (wireOk rules) ws"
  shows "readHeaders (word_of_nat (length ws) # concat (map wireBytes ws) @ rest) rules =
    Inr (concat (map wireVisible ws), rest)"
  using assms length_concat_wireBytes [of ws] readHeaderLoop_wire [OF assms(2), of "[]" rest]
  by (simp add: readHeaders_def remaining_def)

lemma readHeaders_complete:
  assumes "readHeaders c rules = Inr (hs, rest)"
  obtains ws where "length ws \<le> 255" "list_all (wireOk rules) ws"
    "c = word_of_nat (length ws) # concat (map wireBytes ws) @ rest" "hs = concat (map wireVisible ws)"
proof -
  from assms obtain n c1 where c: "c = n # c1" and loop: "readHeaderLoop rules (unat n) [] c1 = Inr (hs, rest)"
    by (auto simp: readHeaders_def codec_simps split: if_splits)
  from readHeaderLoop_complete [OF loop] obtain ws where ws: "length ws = unat n" "list_all (wireOk rules) ws"
    "c1 = concat (map wireBytes ws) @ rest" "hs = concat (map wireVisible ws)" by auto
  with unat_byte_bound [of n] c show ?thesis by (intro that [of ws]) auto
qed

subsection \<open>The encoder\<close>

definition toWire :: "header \<Rightarrow> wire_header" where
  "toWire h = (case tableIDs (hd_name h) of
      Some i \<Rightarrow> KnownHeader i (hd_value h) | None \<Rightarrow> CustomHeader (hd_name h) (hd_value h))"

text \<open>The headers \<^verbatim>\<open>appendHeaders\<close> accepts.\<close>

definition headerOk :: "header \<Rightarrow> bool" where
  "headerOk h \<longleftrightarrow> length (hd_value h) \<le> maxHeaderValueLen \<and> (tableIDs (hd_name h) = None \<longrightarrow> validCustomName (hd_name h))"

lemma toWire_ok: "headerOk h \<Longrightarrow> wireOk rules (toWire h)"
  by (auto simp: headerOk_def toWire_def validCustomName_def dest: tableIDs_Some split: option.splits)

lemma toWire_visible [simp]: "wireVisible (toWire h) = [h]"
  by (auto simp: toWire_def dest: tableIDs_Some split: option.splits)

lemma appendHeaderList_Inr:
  "appendHeaderList dst hs = Inr b \<longleftrightarrow>
     list_all headerOk hs \<and> b = dst @ concat (map (wireBytes \<circ> toWire) hs)"
  by (induction hs arbitrary: dst)
    (auto simp: headerOk_def toWire_def appendU16_def len16_def split: option.splits)

lemma appendHeaders_Inr:
  "appendHeaders dst hs = Inr b \<longleftrightarrow> length hs \<le> MaxHeaders \<and> list_all headerOk hs
     \<and> b = dst @ word_of_nat (length hs) # concat (map wireBytes (map toWire hs))"
  by (auto simp: appendHeaders_def appendHeaderList_Inr)

text \<open>Decoding what was encoded gives the same headers, under either set of rules.\<close>

lemma readHeaders_appendHeaders:
  assumes "length hs \<le> MaxHeaders" "list_all headerOk hs"
  shows "readHeaders (word_of_nat (length hs) # concat (map wireBytes (map toWire hs)) @ rest) rules = Inr (hs, rest)"
proof -
  have "list_all (wireOk rules) (map toWire hs)" using assms(2) by (auto simp: list_all_iff toWire_ok)
  moreover have "concat (map wireVisible (map toWire hs)) = hs" by (induction hs) simp_all
  ultimately show ?thesis using readHeaders_wire [of "map toWire hs" rules rest] assms(1) by simp
qed

text \<open>What a strict decoder returned can be encoded again, in no more bytes than it came in.\<close>

lemma wireVisible_ok: "wireOk strictNames w \<Longrightarrow> h \<in> set (wireVisible w) \<Longrightarrow> headerOk h \<and> toWire h = w"
  by (cases w) (auto simp: headerOk_def toWire_def tableNames_id split: if_splits option.splits)

lemma strict_reencode:
  assumes "list_all (wireOk strictNames) ws"
  shows "list_all headerOk (concat (map wireVisible ws))"
    and "length (concat (map wireVisible ws)) \<le> length ws"
    and "length (concat (map wireBytes (map toWire (concat (map wireVisible ws))))) \<le> length (concat (map wireBytes ws))"
proof -
  have one: "wireVisible w = [] \<or> (\<exists>h. wireVisible w = [h])" for w by (cases w) auto
  show "list_all headerOk (concat (map wireVisible ws))"
    using assms by (auto simp: list_all_iff dest: wireVisible_ok)
  show "length (concat (map wireVisible ws)) \<le> length ws"
  proof (induction ws)
    case (Cons w ws)
    with one [of w] show ?case by auto
  qed simp
  show "length (concat (map wireBytes (map toWire (concat (map wireVisible ws))))) \<le> length (concat (map wireBytes ws))"
    using assms
  proof (induction ws)
    case (Cons w ws)
    with one [of w] wireVisible_ok [of w] show ?case by auto
  qed simp
qed

end
