(* ===== verification/Messages.thy ===== *)
theory Messages
  imports Protocol
begin

text \<open>
  \<^verbatim>\<open>internal/protocol/messages.go\<close>: the payloads of REQUEST, RESPONSE and ERROR frames, their
  encoders and their decoders.
\<close>

record request =
  rq_method :: byte
  rq_path :: "byte list"
  rq_headers :: "header list"

definition encodeRequest :: "request \<Rightarrow> proto_err + byte list" where
  "encodeRequest r =
     (if rq_method r \<noteq> MethodGet then Inl (UnsupportedMethod (rq_method r))
      else if length (rq_path r) = 0 \<or> length (rq_path r) > MaxPathLen
      then Inl (PathLengthInvalid (length (rq_path r)))
      else if \<not> validUTF8 (rq_path r) then Inl PathInvalidUTF8
      else sbind
        (appendHeaders (appendU16 [rq_method r] (word_of_nat (length (rq_path r))) @ rq_path r) (rq_headers r))
        (\<lambda>b. if length b > maxFramePayload then Inl ErrTooLarge else Inr b))"

definition decodeRequest :: "byte list \<Rightarrow> proto_err + request" where
  "decodeRequest payload =
     sbind (u8 payload) (\<lambda>(method, c1).
       if method \<noteq> MethodGet then Inl (ErrMalformed (MethodNotSupported method))
       else sbind (u16 c1) (\<lambda>(pathLen, c2).
         if pathLen = 0 \<or> unat pathLen > MaxPathLen then Inl (ErrMalformed (PathLengthOutside pathLen))
         else sbind (takeBytes (uint pathLen) c2) (\<lambda>(path, c3).
           if \<not> validUTF8 path then Inl (ErrMalformed PathNotUTF8)
           else sbind (readHeaders c3 strictNames) (\<lambda>(headers, c4).
             sbind (finish c4) (\<lambda>_.
               Inr \<lparr>rq_method = MethodGet, rq_path = path, rq_headers = headers\<rparr>)))))"

record response =
  rs_status :: int
  rs_headers :: "header list"

definition validStatus :: "int \<Rightarrow> bool" where
  "validStatus s \<longleftrightarrow> s \<ge> 100 \<and> s \<le> 599"

definition encodeResponse :: "response \<Rightarrow> proto_err + byte list" where
  "encodeResponse r =
     (if \<not> validStatus (rs_status r) then Inl (StatusInvalid (rs_status r))
      else sbind (appendHeaders (appendU16 [] (word_of_int (rs_status r))) (rs_headers r))
        (\<lambda>b. if length b > maxFramePayload then Inl ErrTooLarge else Inr b))"

definition decodeResponse :: "byte list \<Rightarrow> proto_err + response" where
  "decodeResponse payload =
     sbind (u16 payload) (\<lambda>(status, c1).
       if \<not> validStatus (uint status) then Inl (ErrMalformed (StatusOutside status))
       else sbind (readHeaders c1 structuralNames) (\<lambda>(headers, c2).
         sbind (finish c2) (\<lambda>_. Inr \<lparr>rs_status = uint status, rs_headers = headers\<rparr>)))"

definition CodeFrameTooLarge :: u16 where "CodeFrameTooLarge = 1"
definition CodeInvalidStreamID :: u16 where "CodeInvalidStreamID = 2"
definition CodeProtocolError :: u16 where "CodeProtocolError = 3"

record conn_error =
  ce_code :: u16
  ce_message :: "byte list"

definition encodeConnError :: "conn_error \<Rightarrow> proto_err + byte list" where
  "encodeConnError e =
     (if 4 + length (ce_message e) > maxFramePayload then Inl ErrTooLarge
      else Inr (appendU16 (appendU16 [] (ce_code e)) (word_of_nat (length (ce_message e))) @ ce_message e))"

definition decodeConnError :: "byte list \<Rightarrow> proto_err + conn_error" where
  "decodeConnError payload =
     sbind (u16 payload) (\<lambda>(code, c1).
     sbind (u16 c1) (\<lambda>(msgLen, c2).
     sbind (takeBytes (uint msgLen) c2) (\<lambda>(msg, c3).
     sbind (finish c3) (\<lambda>_. Inr \<lparr>ce_code = code, ce_message = msg\<rparr>))))"

subsection \<open>Well-formed messages and their layout\<close>

definition requestOk :: "request \<Rightarrow> bool" where
  "requestOk r \<longleftrightarrow> rq_method r = MethodGet \<and> rq_path r \<noteq> [] \<and> length (rq_path r) \<le> MaxPathLen
     \<and> validUTF8 (rq_path r) \<and> length (rq_headers r) \<le> MaxHeaders \<and> list_all headerOk (rq_headers r)"

definition headerBlock :: "header list \<Rightarrow> byte list" where
  "headerBlock hs = word_of_nat (length hs) # concat (map wireBytes (map toWire hs))"

definition requestBytes :: "request \<Rightarrow> byte list" where
  "requestBytes r = rq_method r # putUint16 (len16 (rq_path r)) @ rq_path r @ headerBlock (rq_headers r)"

lemma encodeRequest_Inr:
  "encodeRequest r = Inr b \<longleftrightarrow> requestOk r \<and> b = requestBytes r \<and> length b \<le> maxFramePayload"
  by (auto simp: encodeRequest_def requestOk_def requestBytes_def headerBlock_def appendHeaders_Inr
      appendU16_def len16_def)

lemma decodeRequest_bytes:
  assumes "requestOk r"
  shows "decodeRequest (requestBytes r) = Inr r"
proof -
  have "length (rq_path r) \<le> 65535" using assms by (simp add: requestOk_def)
  then show ?thesis
    using assms readHeaders_appendHeaders [of "rq_headers r" "[]" strictNames]
    by (simp add: requestOk_def requestBytes_def headerBlock_def decodeRequest_def len16_zero finish_def)
qed

lemma decodeRequest_Inr:
  assumes "decodeRequest p = Inr r"
  obtains ws where "length ws \<le> 255" "list_all (wireOk strictNames) ws" "rq_headers r = concat (map wireVisible ws)"
    "p = MethodGet # putUint16 (len16 (rq_path r)) @ rq_path r @ word_of_nat (length ws) # concat (map wireBytes ws)"
    "rq_method r = MethodGet" "rq_path r \<noteq> []" "length (rq_path r) \<le> MaxPathLen" "validUTF8 (rq_path r)"
proof -
  from assms obtain pl path c hs where p: "p = MethodGet # putUint16 pl @ path @ c" "length path = unat pl"
    "pl \<noteq> 0" "unat pl \<le> 4096" "validUTF8 path" "readHeaders c strictNames = Inr (hs, [])"
    "r = \<lparr>rq_method = MethodGet, rq_path = path, rq_headers = hs\<rparr>"
    by (auto simp: decodeRequest_def codec_simps split: if_splits)
  from readHeaders_complete [OF p(6)] obtain ws where "length ws \<le> 255" "list_all (wireOk strictNames) ws"
    "c = word_of_nat (length ws) # concat (map wireBytes ws)" "hs = concat (map wireVisible ws)" by auto
  with p show ?thesis by (intro that [of ws]) (auto simp: len16_unat unat_eq_zero)
qed

definition responseOk :: "response \<Rightarrow> bool" where
  "responseOk r \<longleftrightarrow> validStatus (rs_status r) \<and> length (rs_headers r) \<le> MaxHeaders \<and> list_all headerOk (rs_headers r)"

definition responseBytes :: "response \<Rightarrow> byte list" where
  "responseBytes r = putUint16 (word_of_int (rs_status r)) @ headerBlock (rs_headers r)"

lemma encodeResponse_Inr:
  "encodeResponse r = Inr b \<longleftrightarrow> responseOk r \<and> b = responseBytes r \<and> length b \<le> maxFramePayload"
  by (auto simp: encodeResponse_def responseOk_def responseBytes_def headerBlock_def appendHeaders_Inr appendU16_def)

lemma status16 [simp]: "validStatus s \<Longrightarrow> uint (word_of_int s :: u16) = s"
  by (simp add: validStatus_def uint_word_of_int)

lemma decodeResponse_bytes:
  "responseOk r \<Longrightarrow> decodeResponse (responseBytes r) = Inr r"
  using readHeaders_appendHeaders [of "rs_headers r" "[]" structuralNames]
  by (simp add: responseOk_def responseBytes_def headerBlock_def decodeResponse_def finish_def)

lemma decodeResponse_Inr:
  "decodeResponse p = Inr r \<longleftrightarrow>
     (\<exists>ws. length ws \<le> 255 \<and> list_all (wireOk structuralNames) ws \<and> validStatus (rs_status r)
        \<and> p = putUint16 (word_of_int (rs_status r)) @ word_of_nat (length ws) # concat (map wireBytes ws)
        \<and> rs_headers r = concat (map wireVisible ws))" (is "?lhs \<longleftrightarrow> ?rhs")
proof
  assume ?lhs
  then obtain st c hs where p: "p = putUint16 st @ c" "validStatus (uint st)"
    "readHeaders c structuralNames = Inr (hs, [])" "r = \<lparr>rs_status = uint st, rs_headers = hs\<rparr>"
    by (auto simp: decodeResponse_def codec_simps split: if_splits)
  from readHeaders_complete [OF p(3)] obtain ws where "length ws \<le> 255" "list_all (wireOk structuralNames) ws"
    "c = word_of_nat (length ws) # concat (map wireBytes ws)" "hs = concat (map wireVisible ws)" by auto
  with p show ?rhs by (intro exI [of _ ws]) simp
next
  assume ?rhs
  then obtain ws where ws: "length ws \<le> 255" "list_all (wireOk structuralNames) ws" "validStatus (rs_status r)"
    "p = putUint16 (word_of_int (rs_status r)) @ word_of_nat (length ws) # concat (map wireBytes ws)"
    "rs_headers r = concat (map wireVisible ws)" by blast
  with readHeaders_wire [OF ws(1,2), of "[]"] show ?lhs
    by (cases r) (simp add: decodeResponse_def finish_def)
qed

subsection \<open>Properties\<close>

text \<open>
  C8. Request round trip: whatever request \<^verbatim>\<open>Request.Encode\<close> accepts, \<^verbatim>\<open>DecodeRequest\<close> gives back
  unchanged, path, header names, header values and their order included, although table names
  travel as one-byte identifiers and custom names as text.
\<close>
theorem request_roundtrip:
  assumes "encodeRequest r = Inr b"
  shows "decodeRequest b = Inr r"
  using assms decodeRequest_bytes by (simp add: encodeRequest_Inr)

theorem request_roundtrip_witness:
  "decodeRequest (0x01 # putUint16 2 @ str ''/a'' @ [2, 2] @ putUint16 1 @ str ''5'' @ [0] @ putUint16 3 @ str ''x-y''
      @ putUint16 0) =
   Inr \<lparr>rq_method = 1, rq_path = str ''/a'',
     rq_headers = [NewHeader HeaderContentLength (str ''5''), NewHeader (str ''x-y'') []]\<rparr>"
  by (rule request_roundtrip)
    (simp add: encodeRequest_def MethodGet_def validUTF8_def appendHeaders_def NewHeader_def tableIDs_unfold
      header_name_defs validCustomName_def validNameByte_def appendU16_def)

text \<open>
  C9. Response round trip: \<^verbatim>\<open>DecodeResponse\<close> inverts \<^verbatim>\<open>Response.Encode\<close> on everything it accepts.
\<close>
theorem response_roundtrip:
  assumes "encodeResponse r = Inr b"
  shows "decodeResponse b = Inr r"
  using assms decodeResponse_bytes by (simp add: encodeResponse_Inr)

theorem response_roundtrip_witness:
  "decodeResponse ([1, 148, 1, 2] @ putUint16 1 @ str ''0'') =
   Inr \<lparr>rs_status = 404, rs_headers = [NewHeader HeaderContentLength (str ''0'')]\<rparr>"
  by (rule response_roundtrip)
    (simp add: encodeResponse_def validStatus_def appendHeaders_def NewHeader_def tableIDs_unfold header_name_defs
      appendU16_def putUint16_def)

text \<open>
  Error payload round trip: \<^verbatim>\<open>DecodeConnError\<close> inverts \<^verbatim>\<open>ConnError.Encode\<close>, for every code, known or
  not, and every message that fits.
\<close>
lemma connError_roundtrip:
  assumes "encodeConnError e = Inr b"
  shows "decodeConnError b = Inr e"
  using assms
  by (cases e) (auto simp: encodeConnError_def decodeConnError_def appendU16_def finish_def not_less
      simp flip: len16_def split: if_splits)

text \<open>
  The headers of a request as the specification has them, written without the tables and tests of
  the code: the names of \<^verbatim>\<open>HEADER_TABLE.md\<close> under their identifiers, and the bytes of a custom name.
\<close>

definition specTable :: "byte list list" where
  "specTable = map str [''content-type'', ''content-length'', ''server'', ''date'', ''connection'',
     ''content-encoding'', ''cache-control'', ''last-modified'']"

fun specHeader :: "wire_header \<Rightarrow> bool" where
  "specHeader (KnownHeader i v) \<longleftrightarrow> i \<noteq> 0 \<and> length v \<le> 65535"
| "specHeader (CustomHeader n v) \<longleftrightarrow> 1 \<le> length n \<and> length n \<le> 255
     \<and> set n \<subseteq> set (str ''abcdefghijklmnopqrstuvwxyz0123456789-_.'') \<and> n \<notin> set specTable \<and> length v \<le> 65535"

fun specVisible :: "wire_header \<Rightarrow> header list" where
  "specVisible (KnownHeader i v) = (if unat i \<le> 8 then [\<lparr>hd_name = specTable ! (unat i - 1), hd_value = v\<rparr>] else [])"
| "specVisible (CustomHeader n v) = [\<lparr>hd_name = n, hd_value = v\<rparr>]"

lemma validNameByte_chars: "validNameByte c \<longleftrightarrow> c \<in> set (str ''abcdefghijklmnopqrstuvwxyz0123456789-_.'')"
  using byte_range [of 97 122 c] byte_range [of 48 57 c] by (simp add: validNameByte_def upt_rec)

lemma specTable_names: "tableNames = [] # specTable" "tableIDs n = None \<longleftrightarrow> n \<notin> set specTable"
  by (auto simp: specTable_def tableNames_def tableIDs_unfold header_name_defs)

lemma specHeader_wireOk: "specHeader w \<longleftrightarrow> wireOk strictNames w"
  by (cases w) (auto simp: specTable_names validCustomName_def list_all_iff validNameByte_chars Suc_le_eq simp del: str_Cons)

lemma specVisible_wire: "specHeader w \<Longrightarrow> specVisible w = wireVisible w"
  by (cases w) (auto simp: specTable_names nth_Cons' specTable_def unat_eq_zero simp del: str_Cons)

text \<open>
  C11. \<^verbatim>\<open>DecodeRequest\<close> accepts exactly the payloads of the specification, sections 6.1 to 8: the GET
  method, a path of 1 to 4096 bytes of valid UTF-8, at most 255 headers each laid out as a known
  or a custom header, custom names of 1 to 255 bytes, lower-case letters, digits, \<open>-\<close>, \<open>_\<close> and \<open>.\<close> only,
  that are no name of the table, and not a
  byte more. What it returns are the headers with identifiers of the table and the custom ones, in
  order; headers with other identifiers are consumed and dropped.
\<close>
theorem decodeRequest_accepts_exactly:
  "decodeRequest p = Inr r \<longleftrightarrow>
     (\<exists>ws. length ws \<le> 255 \<and> list_all specHeader ws
        \<and> p = 1 # putUint16 (word_of_nat (length (rq_path r))) @ rq_path r @ word_of_nat (length ws) # concat (map wireBytes ws)
        \<and> rq_method r = 1 \<and> rq_path r \<noteq> [] \<and> length (rq_path r) \<le> 4096 \<and> utf8Valid (rq_path r)
        \<and> rq_headers r = concat (map specVisible ws))" (is "?lhs \<longleftrightarrow> ?rhs")
proof -
  have spec: "specHeader = wireOk strictNames" by (simp add: fun_eq_iff specHeader_wireOk)
  have visible: "concat (map specVisible ws) = concat (map wireVisible ws)" if "list_all specHeader ws" for ws
    using that specVisible_wire by (induction ws) auto
  show ?thesis
  proof
    assume ?lhs
    then obtain ws where "length ws \<le> 255" "list_all (wireOk strictNames) ws"
      "p = MethodGet # putUint16 (len16 (rq_path r)) @ rq_path r @ word_of_nat (length ws) # concat (map wireBytes ws)"
      "rq_method r = MethodGet" "rq_path r \<noteq> []" "length (rq_path r) \<le> MaxPathLen" "validUTF8 (rq_path r)"
      "rq_headers r = concat (map wireVisible ws)" by (elim decodeRequest_Inr) blast
    then show ?rhs using visible unfolding spec by (intro exI [of _ ws]) (simp add: MethodGet_def len16_def validUTF8_def)
  next
    assume ?rhs
    then obtain ws where ws: "length ws \<le> 255" "list_all specHeader ws" "length (rq_path r) \<le> 4096"
      "p = MethodGet # putUint16 (len16 (rq_path r)) @ rq_path r @ word_of_nat (length ws) # concat (map wireBytes ws)"
      "rq_method r = MethodGet" "rq_path r \<noteq> []" "validUTF8 (rq_path r)"
      "rq_headers r = concat (map specVisible ws)" by (auto simp: MethodGet_def len16_def validUTF8_def)
    from ws(2) have "list_all (wireOk strictNames) ws" unfolding spec .
    from ws visible [OF ws(2)] readHeaders_wire [OF ws(1) this, of "[]"] show ?lhs
      by (cases r) (simp add: decodeRequest_def finish_def len16_zero)
  qed
qed

text \<open>
  What the server accepts can be encoded again: a request decoded from a payload that fits a frame
  is accepted by \<^verbatim>\<open>Request.Encode\<close>, its encoding is no longer than the payload it came from, and
  decodes to the same request.
\<close>
lemma request_reencode:
  assumes "decodeRequest p = Inr r" and "length p \<le> maxFramePayload"
  shows "\<exists>b. encodeRequest r = Inr b \<and> length b \<le> length p \<and> decodeRequest b = Inr r"
proof -
  from assms(1) obtain ws where ws: "length ws \<le> 255" "list_all (wireOk strictNames) ws"
    "rq_headers r = concat (map wireVisible ws)"
    "p = MethodGet # putUint16 (len16 (rq_path r)) @ rq_path r @ word_of_nat (length ws) # concat (map wireBytes ws)"
    "rq_method r = MethodGet" "rq_path r \<noteq> []" "length (rq_path r) \<le> MaxPathLen" "validUTF8 (rq_path r)"
    by (rule decodeRequest_Inr)
  note re = strict_reencode [OF ws(2), folded ws(3)]
  have ok: "requestOk r" using ws re(1,2) by (auto simp: requestOk_def)
  have "length (requestBytes r) \<le> length p" using re(3) ws(4) by (simp add: requestBytes_def headerBlock_def)
  with ok assms(2) show ?thesis by (auto simp: encodeRequest_Inr decodeRequest_bytes)
qed

text \<open>
  A custom header can never pass for a table header. In a response, where names are not judged, the
  returned headers named \<open>content-length\<close> are exactly those sent under the identifier 2; a custom
  header spelled \<open>content-length\<close> is consumed and ignored, and so is any other custom header with
  the name of a table entry.
\<close>
lemma response_table_names_only_by_id:
  assumes "decodeResponse p = Inr r" and "1 \<le> k" and "k < length tableNames"
  shows "\<exists>ws. p = putUint16 (word_of_int (rs_status r)) @ word_of_nat (length ws) # concat (map wireBytes ws)
    \<and> filter (\<lambda>h. hd_name h = tableNames ! k) (rs_headers r)
        = concat (map (\<lambda>w. case w of
             KnownHeader i v \<Rightarrow> if unat i = k then [\<lparr>hd_name = tableNames ! k, hd_value = v\<rparr>] else []
           | CustomHeader n v \<Rightarrow> []) ws)"
proof -
  from assms(1) obtain ws where ws: "length ws \<le> 255" "list_all (wireOk structuralNames) ws"
    "p = putUint16 (word_of_int (rs_status r)) @ word_of_nat (length ws) # concat (map wireBytes ws)"
    "rs_headers r = concat (map wireVisible ws)" by (auto simp: decodeResponse_Inr)
  have k: "unat (word_of_nat k :: byte) = k" "word_of_nat k \<noteq> (0 :: byte)"
    using assms(2,3) by (auto simp: tableNames_def unat_eq_zero [symmetric] simp del: unat_eq_zero)
  from assms(3) have idk: "tableIDs (tableNames ! k) = Some (word_of_nat k)" using tableNames_id [OF k(2)] k(1) by simp
  have "filter (\<lambda>h. hd_name h = tableNames ! k) (wireVisible w) = (case w of
       KnownHeader i v \<Rightarrow> if unat i = k then [\<lparr>hd_name = tableNames ! k, hd_value = v\<rparr>] else []
     | CustomHeader n v \<Rightarrow> [])" if "wireOk structuralNames w" for w
  proof (cases w)
    case (KnownHeader i v)
    with that idk k assms(3) tableNames_id [of i] show ?thesis by auto
  qed (use idk in auto)
  with ws show ?thesis by (intro exI [of _ ws]) (auto simp: filter_concat list_all_iff cong: map_cong)
qed

end
