(* ===== verification/Go_Filepath.thy ===== *)
theory Go_Filepath
  imports Go_Strings
begin

text \<open>
  The lexical functions of \<^verbatim>\<open>path/filepath\<close> on a Unix system: \<^verbatim>\<open>Clean\<close>, \<^verbatim>\<open>Join\<close>, \<^verbatim>\<open>Rel\<close>, \<^verbatim>\<open>Ext\<close> and
  \<^verbatim>\<open>Base\<close>, by path elements, and the absolute clean paths \<open>absPath\<close> on which they are injective.
\<close>

text \<open>The separator byte and the two special elements.\<close>

abbreviation slash :: byte where
  "slash \<equiv> 47"

abbreviation dot :: "byte list" where
  "dot \<equiv> [46]"

abbreviation dotdot :: "byte list" where
  "dotdot \<equiv> [46, 46]"

lemma slash_dot_chars: "slash = chr CHR ''/''" "dot = str ''.''" "dotdot = str ''..''"
  by simp_all

definition rooted :: "byte list \<Rightarrow> bool" where
  "rooted p \<longleftrightarrow> p \<noteq> [] \<and> hd p = slash"

text \<open>
  \<^verbatim>\<open>Clean\<close>, element by element: empty and \<open>.\<close> elements disappear, \<open>..\<close> removes the element before it
  if that is not itself a \<open>..\<close>, and disappears at the root.
\<close>

definition cleanStep :: "bool \<Rightarrow> byte list list \<Rightarrow> byte list \<Rightarrow> byte list list" where
  "cleanStep root st w =
     (if w = [] \<or> w = dot then st
      else if w = dotdot then
        (if st \<noteq> [] \<and> last st \<noteq> dotdot then butlast st else if root then st else st @ [w])
      else st @ [w])"

definition cleanElems :: "byte list \<Rightarrow> byte list list" where
  "cleanElems p = foldl (cleanStep (rooted p)) [] (splitByte slash p)"

definition fpClean :: "byte list \<Rightarrow> byte list" where
  "fpClean p =
     (if rooted p then slash # joinByte slash (cleanElems p)
      else if cleanElems p = [] then dot else joinByte slash (cleanElems p))"

text \<open>\<^verbatim>\<open>Join\<close> of two elements: leading empty elements are ignored, the rest is joined and cleaned.\<close>

definition fpJoin :: "byte list \<Rightarrow> byte list \<Rightarrow> byte list" where
  "fpJoin a b =
     (if a \<noteq> [] then fpClean (a @ slash # b) else if b \<noteq> [] then fpClean b else [])"

fun stripCommon :: "byte list list \<Rightarrow> byte list list \<Rightarrow> byte list list \<times> byte list list" where
  "stripCommon (b # bs) (t # ts) = (if b = t then stripCommon bs ts else (b # bs, t # ts))"
| "stripCommon bs ts = (bs, ts)"

text \<open>
  \<^verbatim>\<open>Rel(base, targ)\<close>: after the common leading elements, one \<open>..\<close> for each element left in the base,
  then what is left of the target; \<open>None\<close> is the error result.
\<close>

definition fpRel :: "byte list \<Rightarrow> byte list \<Rightarrow> byte list option" where
  "fpRel basepath targpath =
     (let base = fpClean basepath; targ = fpClean targpath in
      if targ = base then Some dot
      else if rooted base \<noteq> rooted targ then None
      else (case stripCommon (if base = dot then [] else cleanElems base) (cleanElems targ) of (bs, ts) \<Rightarrow>
        if bs \<noteq> [] \<and> ts \<noteq> [] \<and> hd bs = dotdot then None
        else Some (joinByte slash (replicate (length bs) dotdot @ ts))))"

text \<open>\<^verbatim>\<open>Ext\<close>: from the last dot of the last element on, empty if it has none.\<close>

definition fpExt :: "byte list \<Rightarrow> byte list" where
  "fpExt p =
     (let r = takeWhile (\<lambda>c. c \<noteq> slash \<and> c \<noteq> chr CHR ''.'') (rev p)
      in if length r < length p \<and> rev p ! length r = chr CHR ''.''
         then drop (length p - Suc (length r)) p else [])"

subsection \<open>Absolute clean paths\<close>

definition elemOk :: "byte list \<Rightarrow> bool" where
  "elemOk w \<longleftrightarrow> w \<noteq> [] \<and> w \<noteq> dot \<and> w \<noteq> dotdot \<and> slash \<notin> set w"

definition absPath :: "byte list list \<Rightarrow> byte list" where
  "absPath ws = slash # joinByte slash ws"

definition cleanAbs :: "byte list \<Rightarrow> bool" where
  "cleanAbs p \<longleftrightarrow> (\<exists>ws. list_all elemOk ws \<and> p = absPath ws)"

lemma cleanAbs_absPath: "list_all elemOk ws \<Longrightarrow> cleanAbs (absPath ws)"
  by (auto simp: cleanAbs_def)

lemma rooted_absPath [simp]: "rooted (absPath ws)" "rooted (slash # s)"
  by (simp_all add: rooted_def absPath_def)

lemma cleanStep_ok: "elemOk w \<Longrightarrow> cleanStep root st w = st @ [w]"
  by (simp add: cleanStep_def elemOk_def)

lemma cleanStep_Nil [simp]: "cleanStep root st [] = st"
  by (simp add: cleanStep_def)

lemma fold_cleanStep_ok: "list_all elemOk ws \<Longrightarrow> foldl (cleanStep root) st ws = st @ ws"
  by (induction ws arbitrary: st) (auto simp: cleanStep_ok)

lemma split_joined: "list_all elemOk ws \<Longrightarrow> splitByte slash (joinByte slash ws) = (if ws = [] then [[]] else ws)"
  by (auto simp: splitByte_join list_all_iff elemOk_def)

lemma cleanElems_absPath [simp]: "list_all elemOk ws \<Longrightarrow> cleanElems (absPath ws) = ws"
  by (simp add: cleanElems_def absPath_def split_joined fold_cleanStep_ok)

lemma fpClean_absPath [simp]: "list_all elemOk ws \<Longrightarrow> fpClean (absPath ws) = absPath ws"
  by (simp add: fpClean_def absPath_def [symmetric])

lemma absPath_inj: "list_all elemOk ws \<Longrightarrow> list_all elemOk vs \<Longrightarrow> absPath ws = absPath vs \<longleftrightarrow> ws = vs"
  by (metis cleanElems_absPath)

lemma splitByte_joined_append:
  "list_all elemOk ws \<Longrightarrow> splitByte slash (joinByte slash ws @ slash # s) = (if ws = [] then [[]] else ws) @ splitByte slash s"
  by (induction slash ws rule: joinByte.induct) (auto simp: splitByte_append elemOk_def)

text \<open>Joining clean elements below an absolute clean path just appends them.\<close>

lemma fpJoin_absPath:
  assumes "list_all elemOk ws" "list_all elemOk vs"
  shows "fpJoin (absPath ws) (joinByte slash vs) = absPath (ws @ vs)"
proof -
  have "cleanElems (absPath ws @ slash # joinByte slash vs) = ws @ vs"
    using assms
    by (simp add: cleanElems_def absPath_def splitByte_joined_append split_joined fold_cleanStep_ok)
  then show ?thesis by (simp add: fpJoin_def fpClean_def absPath_def)
qed

lemma stripCommon_spec:
  "stripCommon bs ts = (bs', ts') \<Longrightarrow>
   \<exists>cs. bs = cs @ bs' \<and> ts = cs @ ts' \<and> (bs' = [] \<or> ts' = [] \<or> hd bs' \<noteq> hd ts')"
proof (induction bs ts arbitrary: bs' ts' rule: stripCommon.induct)
  case (1 b bs t ts)
  show ?case
  proof (cases "b = t")
    case True
    with 1 obtain cs where "bs = cs @ bs'" "ts = cs @ ts'" "bs' = [] \<or> ts' = [] \<or> hd bs' \<noteq> hd ts'" by auto
    with True show ?thesis by (intro exI [of _ "b # cs"]) auto
  next
    case False
    with "1.prems" show ?thesis by auto
  qed
qed auto

lemma dotdot_join_prefix:
  assumes "n \<noteq> 0"
  shows "joinByte slash (replicate n dotdot @ ts) = dotdot
    \<or> hasPrefix (joinByte slash (replicate n dotdot @ ts)) (dotdot @ [slash])"
  using assms by (cases n; cases "replicate (n - 1) dotdot @ ts") (auto simp: hasPrefix_def)

lemma no_dotdot_join_prefix:
  assumes "list_all elemOk ts"
  shows "joinByte slash ts \<noteq> dotdot \<and> \<not> hasPrefix (joinByte slash ts) (dotdot @ [slash])"
proof -
  have "hd (splitByte slash (joinByte slash ts)) \<noteq> dotdot"
    using assms by (cases ts) (auto simp: split_joined elemOk_def)
  moreover have "splitByte slash dotdot = [dotdot]" by simp
  moreover have "hd (splitByte slash s) = dotdot" if "hasPrefix s (dotdot @ [slash])" for s
    using that splitByte_append [of slash dotdot] by (auto simp: hasPrefix_iff)
  ultimately show ?thesis by (metis list.sel(1))
qed

text \<open>
  The test of the resolver: a relative path that neither is \<open>..\<close> nor starts with \<open>../\<close>. On absolute
  clean paths it holds exactly when the target lies below the base.
\<close>

definition relInside :: "byte list option \<Rightarrow> bool" where
  "relInside rel \<longleftrightarrow>
     (case rel of None \<Rightarrow> False | Some r \<Rightarrow> r \<noteq> dotdot \<and> \<not> hasPrefix r (dotdot @ [slash]))"

lemma fpRel_inside:
  assumes "list_all elemOk ws" "list_all elemOk vs"
  shows "relInside (fpRel (absPath ws) (absPath vs)) \<longleftrightarrow> (\<exists>us. vs = ws @ us)"
proof (cases "vs = ws")
  case True
  with assms show ?thesis by (simp add: fpRel_def relInside_def hasPrefix_def)
next
  case False
  obtain bs ts where st: "stripCommon ws vs = (bs, ts)" by (metis surj_pair)
  from stripCommon_spec [OF st] obtain cs where cs: "ws = cs @ bs" "vs = cs @ ts"
    "bs = [] \<or> ts = [] \<or> hd bs \<noteq> hd ts" by blast
  have hd: "bs \<noteq> [] \<longrightarrow> hd bs \<noteq> dotdot" and ts: "list_all elemOk ts"
    using assms cs by (cases bs; auto simp: elemOk_def)+
  have rel: "fpRel (absPath ws) (absPath vs) = Some (joinByte slash (replicate (length bs) dotdot @ ts))"
    using False assms st hd by (simp add: fpRel_def absPath_inj Let_def) (auto simp: absPath_def)
  have "relInside (fpRel (absPath ws) (absPath vs)) \<longleftrightarrow> bs = []"
    unfolding rel relInside_def using dotdot_join_prefix [of "length bs" ts] no_dotdot_join_prefix [OF ts]
    by (cases "bs = []") auto
  also have "\<dots> \<longleftrightarrow> (\<exists>us. vs = ws @ us)" using cs by (cases bs; cases ts) auto
  finally show ?thesis .
qed

end
