(* ===== verification/Resolver.thy ===== *)
theory Resolver
  imports Go_Filepath Go_IO
begin

text \<open>
  \<^verbatim>\<open>internal/server\<close>: \<^verbatim>\<open>resolver.go\<close>, \<^verbatim>\<open>badname_other.go\<close>, \<^verbatim>\<open>badname_windows.go\<close> and \<^verbatim>\<open>mime.go\<close>.

  The file system is a parameter \<open>os_env\<close>: for each call, what the operating system answers at that
  moment. Answers are indexed by a tick that every call advances, so nothing is assumed to stay
  the same between two calls. \<open>os_state\<close> also counts the open file handles. The lexical functions
  are those of a Unix system.
\<close>

subsection \<open>The operating system\<close>

datatype os_err = ErrNotExist | ENOTDIR | ENAMETOOLONG | ErrPermission | Errno nat | OSOther nat

record file_info =
  fi_name :: "byte list"
  fi_size :: int
  fi_regular :: bool

text \<open>
  An open file: the path it was opened under and what reading it will deliver, in which pieces and
  with which final error. It need not agree with the size \<^verbatim>\<open>Stat\<close> reports.
\<close>

record os_file =
  fl_path :: "byte list"
  fl_chunks :: "byte list list"
  fl_end :: io_err

record os_env =
  env_getwd :: "nat \<Rightarrow> os_err + byte list"
  env_evalSymlinks :: "nat \<Rightarrow> byte list \<Rightarrow> os_err + byte list"
  env_isDir :: "nat \<Rightarrow> byte list \<Rightarrow> os_err + bool"
  env_open :: "nat \<Rightarrow> byte list \<Rightarrow> os_err + (byte list list \<times> io_err)"
  env_fstat :: "nat \<Rightarrow> os_file \<Rightarrow> os_err + file_info"

record os_state =
  os_tick :: nat
  os_handles :: nat

definition osCall :: "(nat \<Rightarrow> 'a) \<Rightarrow> os_state \<Rightarrow> 'a \<times> os_state" where
  "osCall f s = (f (os_tick s), s\<lparr>os_tick := Suc (os_tick s)\<rparr>)"

definition osOpen :: "os_env \<Rightarrow> byte list \<Rightarrow> os_state \<Rightarrow> (os_err + os_file) \<times> os_state" where
  "osOpen env path s =
     (case osCall (\<lambda>t. env_open env t path) s of
        (Inl e, s1) \<Rightarrow> (Inl e, s1)
      | (Inr (chunks, e), s1) \<Rightarrow>
          (Inr \<lparr>fl_path = path, fl_chunks = chunks, fl_end = e\<rparr>, s1\<lparr>os_handles := Suc (os_handles s1)\<rparr>))"

definition osClose :: "os_state \<Rightarrow> os_state" where
  "osClose s = s\<lparr>os_handles := os_handles s - 1\<rparr>"

definition fileRead :: "os_file reader" where
  "fileRead n f =
     (case fl_chunks f of
        [] \<Rightarrow> (([], Some (fl_end f)), f)
      | x # xs \<Rightarrow>
          (if length x \<le> n then ((x, None), f\<lparr>fl_chunks := xs\<rparr>)
           else ((take n x, None), f\<lparr>fl_chunks := drop n x # xs\<rparr>)))"

definition fileContent :: "os_file \<Rightarrow> byte list" where
  "fileContent f = concat (fl_chunks f)"

interpretation osfile: io_reader fileRead fileContent fl_end "\<lambda>f. length (fl_chunks f) + length (fileContent f)"
    fl_path "\<lambda>_. True"
  by unfold_locales (auto simp: fileRead_def fileContent_def split: list.splits if_splits)

subsection \<open>\<open>resolver.go\<close>\<close>

datatype res_err = errBadPath | errNotFound | ResOS os_err | NotADirectory "byte list"

record resolver =
  res_root :: "byte list"

text \<open>\<^verbatim>\<open>filepath.Abs\<close> on Unix: clean an absolute path, join a relative one to the working directory.\<close>

definition fpAbs :: "os_env \<Rightarrow> byte list \<Rightarrow> os_state \<Rightarrow> (os_err + byte list) \<times> os_state" where
  "fpAbs env path s =
     (if rooted path then (Inr (fpClean path), s)
      else (case osCall (env_getwd env) s of
          (Inl e, s1) \<Rightarrow> (Inl e, s1)
        | (Inr wd, s1) \<Rightarrow> (Inr (fpJoin wd path), s1)))"

definition newResolver :: "os_env \<Rightarrow> byte list \<Rightarrow> os_state \<Rightarrow> (res_err + resolver) \<times> os_state" where
  "newResolver env root s =
     (case fpAbs env root s of
        (Inl e, s1) \<Rightarrow> (Inl (ResOS e), s1)
      | (Inr apath, s1) \<Rightarrow>
        (case osCall (\<lambda>t. env_evalSymlinks env t apath) s1 of
           (Inl e, s2) \<Rightarrow> (Inl (ResOS e), s2)
         | (Inr real, s2) \<Rightarrow>
           (case osCall (\<lambda>t. env_isDir env t real) s2 of
              (Inl e, s3) \<Rightarrow> (Inl (ResOS e), s3)
            | (Inr isDir, s3) \<Rightarrow>
                (if \<not> isDir then (Inl (NotADirectory root), s3) else (Inr \<lparr>res_root = real\<rparr>, s3)))))"

definition reservedDeviceName :: "byte list \<Rightarrow> bool" where
  "reservedDeviceName seg =
     (let stem = toUpper (case indexByte seg (chr CHR ''.'') of Some i \<Rightarrow> take i seg | None \<Rightarrow> seg) in
      if stem \<in> {str ''CON'', str ''PRN'', str ''AUX'', str ''NUL''} then True
      else if length stem = 4 \<and> (hasPrefix stem (str ''COM'') \<or> hasPrefix stem (str ''LPT''))
      then stem ! 3 \<ge> chr CHR ''1'' \<and> stem ! 3 \<le> chr CHR ''9''
      else False)"

definition forbiddenByte :: "byte \<Rightarrow> bool" where
  "forbiddenByte c \<longleftrightarrow> c < 0x20 \<or> c = 0x7F \<or> indexByte (str [CHR 0x5C, CHR '':'', CHR ''*'', CHR ''?'', CHR 0x22, CHR ''<'', CHR ''>'', CHR ''|'']) c \<noteq> None"

definition badSegment :: "byte list \<Rightarrow> bool" where
  "badSegment seg \<longleftrightarrow> seg \<noteq> [] \<and>
     (seg = dot \<or> seg = dotdot \<or> last seg = chr CHR ''.'' \<or> last seg = chr CHR '' '' \<or> reservedDeviceName seg)"

definition checkPath :: "byte list \<Rightarrow> res_err + unit" where
  "checkPath p =
     (if \<not> hasPrefix p (str ''/'') \<or> \<not> utf8Valid p \<or> containsStr p (str ''//'') then Inl errBadPath
      else if list_ex forbiddenByte p then Inl errBadPath
      else if list_ex badSegment (splitByte slash (drop 1 p)) then Inl errBadPath
      else Inr ())"

subsection \<open>\<open>badname_other.go\<close>, \<open>badname_windows.go\<close>\<close>

definition isUnrepresentableName :: "os_err \<Rightarrow> bool" where
  "isUnrepresentableName err \<longleftrightarrow> err = ENAMETOOLONG"

text \<open>The Windows build links this one instead; the three numbers are its Win32 codes.\<close>

definition isUnrepresentableName_windows :: "os_err \<Rightarrow> bool" where
  "isUnrepresentableName_windows err \<longleftrightarrow>
     (case err of Errno n \<Rightarrow> n = 123 \<or> n = 161 \<or> n = 206 | _ \<Rightarrow> False)"

definition missingOr :: "os_err \<Rightarrow> res_err" where
  "missingOr err =
     (if err = ErrNotExist \<or> err = ENOTDIR \<or> isUnrepresentableName err then errNotFound else ResOS err)"

definition within :: "os_env \<Rightarrow> resolver \<Rightarrow> byte list \<Rightarrow> os_state \<Rightarrow> (res_err + byte list) \<times> os_state" where
  "within env r path s =
     (case osCall (\<lambda>t. env_evalSymlinks env t path) s of
        (Inl e, s1) \<Rightarrow> (Inl (missingOr e), s1)
      | (Inr resolved, s1) \<Rightarrow>
          (case fpRel (res_root r) resolved of
             None \<Rightarrow> (Inl errNotFound, s1)
           | Some rel \<Rightarrow>
               (if rel = dotdot \<or> hasPrefix rel (dotdot @ [slash]) then (Inl errNotFound, s1)
                else (Inr resolved, s1))))"

text \<open>The tail of \<^verbatim>\<open>open\<close>: open the target, look at the open handle, close it again if it will not do.\<close>

definition openTarget :: "os_env \<Rightarrow> byte list \<Rightarrow> os_state \<Rightarrow> (res_err + os_file \<times> file_info) \<times> os_state" where
  "openTarget env target s =
     (case osOpen env target s of
        (Inl e, s1) \<Rightarrow> (Inl (missingOr e), s1)
      | (Inr f, s1) \<Rightarrow>
        (case osCall (\<lambda>t. env_fstat env t f) s1 of
           (Inl e, s2) \<Rightarrow> (Inl (ResOS e), osClose s2)
         | (Inr fi, s2) \<Rightarrow>
             (if \<not> fi_regular fi then (Inl errNotFound, osClose s2) else (Inr (f, fi), s2))))"

definition resolverOpen :: "os_env \<Rightarrow> resolver \<Rightarrow> byte list \<Rightarrow> os_state \<Rightarrow> (res_err + os_file \<times> file_info) \<times> os_state" where
  "resolverOpen env r urlPath s =
     (case checkPath urlPath of
        Inl e \<Rightarrow> (Inl e, s)
      | Inr _ \<Rightarrow>
        (case within env r (fpJoin (res_root r) (trimByte slash urlPath)) s of
           (Inl e, s1) \<Rightarrow> (Inl e, s1)
         | (Inr target, s1) \<Rightarrow>
           (case osCall (\<lambda>t. env_isDir env t target) s1 of
              (Inl e, s2) \<Rightarrow> (Inl (missingOr e), s2)
            | (Inr isDir, s2) \<Rightarrow>
                (if isDir then
                   (case within env r (fpJoin target (str ''index.html'')) s2 of
                      (Inl e, s3) \<Rightarrow> (Inl e, s3)
                    | (Inr index, s3) \<Rightarrow> openTarget env index s3)
                 else if hasSuffix urlPath (str ''/'') then (Inl errNotFound, s2)
                 else openTarget env target s2))))"

subsection \<open>\<open>mime.go\<close>\<close>

definition contentTypes :: "(byte list \<times> byte list) list" where
  "contentTypes =
     [(str ''.html'', str ''text/html''), (str ''.htm'', str ''text/html''), (str ''.css'', str ''text/css''),
      (str ''.js'', str ''text/javascript''), (str ''.json'', str ''application/json''), (str ''.txt'', str ''text/plain''),
      (str ''.xml'', str ''application/xml''), (str ''.svg'', str ''image/svg+xml''), (str ''.png'', str ''image/png''),
      (str ''.jpg'', str ''image/jpeg''), (str ''.jpeg'', str ''image/jpeg''), (str ''.gif'', str ''image/gif''),
      (str ''.webp'', str ''image/webp''), (str ''.ico'', str ''image/x-icon''), (str ''.pdf'', str ''application/pdf''),
      (str ''.zip'', str ''application/zip''), (str ''.wasm'', str ''application/wasm'')]"

definition contentType :: "byte list \<Rightarrow> byte list" where
  "contentType name =
     (case map_of contentTypes (toLower (fpExt name)) of
        Some t \<Rightarrow> t
      | None \<Rightarrow> str ''application/octet-stream'')"

subsection \<open>Paths the string rules let through\<close>

lemma checkPath_Inr:
  "checkPath p = Inr () \<longleftrightarrow> hasPrefix p [slash] \<and> utf8Valid p \<and> \<not> containsStr p [slash, slash]
     \<and> \<not> list_ex forbiddenByte p \<and> \<not> list_ex badSegment (splitByte slash (drop 1 p))"
  by (simp add: checkPath_def)

lemma checkPath_Inl: "checkPath p = Inl e \<Longrightarrow> e = errBadPath"
  by (auto simp: checkPath_def split: if_splits)

text \<open>One segment as section 11.1 of the specification allows it.\<close>

definition segmentOk :: "byte list \<Rightarrow> bool" where
  "segmentOk seg \<longleftrightarrow> seg \<noteq> [] \<and> slash \<notin> set seg \<and> \<not> badSegment seg"

lemma segmentOk_elemOk: "segmentOk seg \<Longrightarrow> elemOk seg"
  by (auto simp: segmentOk_def elemOk_def badSegment_def)

lemma joinByte_append:
  "xs \<noteq> [] \<Longrightarrow> ys \<noteq> [] \<Longrightarrow> joinByte c (xs @ ys) = joinByte c xs @ c # joinByte c ys"
  by (induction c xs rule: joinByte.induct) (auto simp: joinByte_Cons)

text \<open>Two slashes in a row are exactly an empty piece that is neither the first nor the last.\<close>

lemma splitByte_starts: "splitByte c s = w # ws \<Longrightarrow> (s \<noteq> [] \<and> hd s = c) = (w = [] \<and> ws \<noteq> [])"
  by (cases s) (auto split: if_splits list.splits)

lemma containsStr_split: "containsStr s [c, c] \<longleftrightarrow> [] \<in> set (butlast (tl (splitByte c s)))"
proof (induction s)
  case (Cons x xs)
  obtain w ws where ws: "splitByte c xs = w # ws" by (metis neq_Nil_conv splitByte_not_Nil)
  have "hasPrefix (x # xs) [c, c] \<longleftrightarrow> x = c \<and> w = [] \<and> ws \<noteq> []"
    using splitByte_starts [OF ws] by (cases xs) (auto simp: hasPrefix_iff)
  with Cons ws show ?case by auto
qed simp

lemma no_double_slash:
  "\<not> containsStr (slash # q) [slash, slash] \<longleftrightarrow> [] \<notin> set (butlast (splitByte slash q))"
  by (simp add: containsStr_split)

text \<open>A path splits into its segments and perhaps a trailing slash.\<close>

lemma split_path:
  assumes "[] \<notin> set (butlast (splitByte slash q))"
  obtains segs trail where "list_all (\<lambda>w. w \<noteq> [] \<and> slash \<notin> set w) segs" "trail = [] \<or> trail = [slash] \<and> segs \<noteq> []"
    "slash # q = absPath segs @ trail" "filter (\<lambda>w. w \<noteq> []) (splitByte slash q) = segs"
proof -
  let ?ws = "splitByte slash q"
  have ws: "?ws = butlast ?ws @ [last ?ws]" by simp
  have ne: "list_all (\<lambda>w. w \<noteq> [] \<and> slash \<notin> set w) (butlast ?ws)"
    using assms by (auto simp: list_all_iff dest: in_set_butlastD splitByte_no_sep)
  then have flt: "filter (\<lambda>w. w \<noteq> []) (butlast ?ws) = butlast ?ws" by (auto simp: list_all_iff filter_id_conv)
  have q: "q = joinByte slash (butlast ?ws @ [last ?ws])" using ws by (metis joinByte_split)
  show ?thesis
  proof (cases "last ?ws = []")
    case False
    moreover have "slash \<notin> set (last ?ws)" by (rule splitByte_no_sep [of _ _ q]) simp
    ultimately have "list_all (\<lambda>w. w \<noteq> [] \<and> slash \<notin> set w) (butlast ?ws @ [last ?ws])"
      using ne by (simp del: append_butlast_last_id)
    then have "list_all (\<lambda>w. w \<noteq> [] \<and> slash \<notin> set w) ?ws" by simp
    moreover from this have "filter (\<lambda>w. w \<noteq> []) ?ws = ?ws" by (auto simp: list_all_iff filter_id_conv)
    ultimately show ?thesis by (intro that [of ?ws "[]"]) (auto simp: absPath_def)
  next
    case True
    have "slash # q = absPath (butlast ?ws) @ (if butlast ?ws = [] then [] else [slash])"
    proof (cases "butlast ?ws = []")
      case False
      then show ?thesis using q True by (simp add: joinByte_append absPath_def)
    qed (use q True in \<open>simp add: absPath_def\<close>)
    moreover have "filter (\<lambda>w. w \<noteq> []) ?ws = butlast ?ws" by (subst ws) (simp add: flt True)
    ultimately show ?thesis using ne by (intro that) auto
  qed
qed

lemma joined_ends:
  assumes "list_all (\<lambda>w. w \<noteq> [] \<and> slash \<notin> set w) segs" "segs \<noteq> []"
  shows "joinByte slash segs \<noteq> [] \<and> hd (joinByte slash segs) \<noteq> slash \<and> last (joinByte slash segs) \<noteq> slash"
  using assms
proof (induction slash segs rule: joinByte.induct)
  case (3 w v vs)
  then show ?case by (auto simp: hd_append last_append) (metis hd_in_set)
qed (auto dest: hd_in_set last_in_set)

lemma trim_path:
  assumes "list_all (\<lambda>w. w \<noteq> [] \<and> slash \<notin> set w) segs" "trail = [] \<or> trail = [slash]"
  shows "trimByte slash (absPath segs @ trail) = joinByte slash segs"
proof (cases "segs = []")
  case True
  with assms(2) show ?thesis by (auto simp: trimByte_def absPath_def)
next
  case False
  note ends = joined_ends [OF assms(1) False]
  have id: "dropWhile (\<lambda>x. x = slash) s = s" if "s \<noteq> []" "hd s \<noteq> slash" for s :: "byte list"
    using that by (cases s) auto
  have "dropWhile (\<lambda>x. x = slash) (absPath segs @ trail) = joinByte slash segs @ trail"
    using ends id [of "joinByte slash segs @ trail"] by (simp add: absPath_def)
  moreover have "dropWhile (\<lambda>x. x = slash) (rev (joinByte slash segs @ trail)) = rev (joinByte slash segs)"
    using assms(2) ends id [of "rev (joinByte slash segs)"] by (auto simp: hd_rev)
  ultimately show ?thesis by (simp add: trimByte_def)
qed

lemma checkPath_segments:
  assumes "checkPath p = Inr ()"
  obtains segs trail where "list_all segmentOk segs" "trail = [] \<or> trail = [slash] \<and> segs \<noteq> []" "p = absPath segs @ trail"
    "trimByte slash p = joinByte slash segs" "filter (\<lambda>w. w \<noteq> []) (splitByte slash (drop 1 p)) = segs"
proof -
  from assms obtain q where p: "p = slash # q" and bad: "\<not> list_ex badSegment (splitByte slash q)"
    and "\<not> containsStr p [slash, slash]" by (auto simp: checkPath_Inr hasPrefix_iff)
  then have "[] \<notin> set (butlast (splitByte slash q))" by (metis no_double_slash)
  then obtain segs trail where segs: "list_all (\<lambda>w. w \<noteq> [] \<and> slash \<notin> set w) segs" "trail = [] \<or> trail = [slash] \<and> segs \<noteq> []"
    "slash # q = absPath segs @ trail" "filter (\<lambda>w. w \<noteq> []) (splitByte slash q) = segs"
    by (rule split_path)
  have "list_all segmentOk segs"
    using segs(1) bad segs(4) [symmetric] by (auto simp: list_all_iff list_ex_iff segmentOk_def)
  moreover have "trimByte slash p = joinByte slash segs" using segs(1-3) p trim_path [of segs trail] by auto
  moreover have "drop 1 p = q" using p by simp
  ultimately show ?thesis using segs p by (intro that [of segs trail]) auto
qed

lemma segments_checkPath:
  assumes "list_all segmentOk segs" "trail = [] \<or> trail = [slash] \<and> segs \<noteq> []" "p = absPath segs @ trail"
    "utf8Valid p" "\<not> list_ex forbiddenByte p"
  shows "checkPath p = Inr ()"
proof -
  let ?ws = "if trail = [] then (if segs = [] then [[]] else segs) else segs @ [[]]"
  have ok: "\<forall>w \<in> set segs. slash \<notin> set w" using assms(1) by (auto simp: list_all_iff segmentOk_def)
  obtain q where q: "p = slash # q" using assms(3) by (simp add: absPath_def)
  have "q = joinByte slash ?ws" using q assms(2,3) by (auto simp: absPath_def joinByte_append)
  then have split: "splitByte slash q = ?ws" using ok by (auto simp: splitByte_join)
  have "[] \<notin> set (butlast ?ws)" using assms(1) by (auto simp: list_all_iff segmentOk_def dest: in_set_butlastD)
  moreover have "\<not> list_ex badSegment ?ws"
    using assms(1) by (auto simp: list_all_iff list_ex_iff segmentOk_def badSegment_def)
  ultimately have "\<not> containsStr p [slash, slash]" "\<not> list_ex badSegment (splitByte slash (drop 1 p))"
    using no_double_slash [of q] by (simp_all only: q split drop_Suc_Cons One_nat_def drop_0 simp_thms)
  then show ?thesis using assms(4,5) q by (simp add: checkPath_def hasPrefix_iff)
qed

subsection \<open>Operating-system answers and containment\<close>

text \<open>
  What the code relies on of the system: the working directory is absolute, and \<^verbatim>\<open>EvalSymlinks\<close> of an
  absolute path, when it succeeds, is an absolute path in clean form (its documentation: the result
  is cleaned, and relative only if the argument was). Nothing is assumed about where links lead.
\<close>

definition osLaw :: "os_env \<Rightarrow> bool" where
  "osLaw env \<longleftrightarrow> (\<forall>t wd. env_getwd env t = Inr wd \<longrightarrow> rooted wd)
     \<and> (\<forall>t p q. rooted p \<longrightarrow> env_evalSymlinks env t p = Inr q \<longrightarrow> cleanAbs q)"

lemma rooted_clean: "rooted p \<Longrightarrow> rooted (fpClean p)"
  by (simp add: fpClean_def rooted_def)

lemma rooted_join: "rooted a \<Longrightarrow> rooted (fpJoin a b)"
  by (auto simp: fpJoin_def rooted_def intro!: rooted_clean [unfolded rooted_def])

lemma fpAbs_rooted: "osLaw env \<Longrightarrow> fpAbs env p s = (Inr q, s') \<Longrightarrow> rooted q"
  by (auto simp: fpAbs_def osCall_def osLaw_def rooted_clean rooted_join split: if_splits sum.splits)

lemma newResolver_root:
  assumes "osLaw env" "newResolver env root s = (Inr r, s')"
  shows "cleanAbs (res_root r)"
proof -
  from assms(2) obtain a s1 t where a: "fpAbs env root s = (Inr a, s1)" "env_evalSymlinks env t a = Inr (res_root r)"
    by (auto simp: newResolver_def osCall_def split: if_splits sum.splits prod.splits)
  from fpAbs_rooted [OF assms(1) a(1)] a(2) assms(1) show ?thesis unfolding osLaw_def by blast
qed

lemma within_Inr:
  "within env r path s = (Inr q, s') \<longleftrightarrow>
     env_evalSymlinks env (os_tick s) path = Inr q \<and> relInside (fpRel (res_root r) q)
     \<and> s' = s\<lparr>os_tick := Suc (os_tick s)\<rparr>"
  by (auto simp: within_def osCall_def relInside_def split: sum.splits option.splits if_splits)

lemma within_below:
  assumes "osLaw env" "cleanAbs (res_root r)" "rooted path" "within env r path s = (Inr q, s')"
  obtains ws us where "list_all elemOk ws" "list_all elemOk us" "res_root r = absPath ws" "q = absPath (ws @ us)"
proof -
  from assms(1,3,4) have "cleanAbs q" by (auto simp: within_Inr osLaw_def)
  then obtain vs where vs: "list_all elemOk vs" "q = absPath vs" by (auto simp: cleanAbs_def)
  from assms(2) obtain ws where ws: "list_all elemOk ws" "res_root r = absPath ws" by (auto simp: cleanAbs_def)
  from assms(4) ws vs obtain us where "vs = ws @ us" by (auto simp: within_Inr fpRel_inside)
  with ws vs show ?thesis by (intro that [of ws us]) auto
qed

lemma openTarget_path: "openTarget env target s = (Inr (f, fi), s') \<Longrightarrow> fl_path f = target \<and> fi_regular fi"
  by (auto simp: openTarget_def osOpen_def osCall_def split: sum.splits prod.splits if_splits)

lemma openTarget_handles:
  "openTarget env target s = (res, s') \<Longrightarrow> os_handles s' = os_handles s + (case res of Inl _ \<Rightarrow> 0 | Inr _ \<Rightarrow> 1)"
  by (auto simp: openTarget_def osOpen_def osCall_def osClose_def split: sum.splits prod.splits if_splits)

lemma within_handles: "within env r path s = (res, s') \<Longrightarrow> os_handles s' = os_handles s"
  by (auto simp: within_def osCall_def split: sum.splits option.splits if_splits)

lemma resolverOpen_handles:
  "resolverOpen env r p s = (res, s') \<Longrightarrow> os_handles s' = os_handles s + (case res of Inl _ \<Rightarrow> 0 | Inr _ \<Rightarrow> 1)"
  by (auto simp: resolverOpen_def osCall_def dest!: within_handles openTarget_handles
      split: sum.splits prod.splits if_splits)

lemma missingOr_not_bad [simp]: "missingOr e \<noteq> errBadPath"
  by (simp add: missingOr_def)

lemma within_not_bad: "within env r path s \<noteq> (Inl errBadPath, s')"
  by (auto simp: within_def osCall_def split: sum.splits option.splits if_splits)

lemma openTarget_not_bad: "openTarget env target s \<noteq> (Inl errBadPath, s')"
  by (auto simp: openTarget_def osOpen_def osCall_def split: sum.splits prod.splits if_splits)

text \<open>The two ways \<^verbatim>\<open>open\<close> can succeed: the target itself, or the index file of a directory.\<close>

lemma resolverOpen_Inr:
  assumes "resolverOpen env r p s = (Inr (f, fi), s')"
  obtains (target) s1 where "checkPath p = Inr ()" "within env r (fpJoin (res_root r) (trimByte slash p)) s = (Inr (fl_path f), s1)" "fi_regular fi"
  | (index) dir s1 s2 where "checkPath p = Inr ()" "within env r (fpJoin (res_root r) (trimByte slash p)) s = (Inr dir, s1)"
      "env_isDir env (os_tick s1) dir = Inr True" "within env r (fpJoin dir (str ''index.html'')) (s1\<lparr>os_tick := Suc (os_tick s1)\<rparr>) = (Inr (fl_path f), s2)"
      "fi_regular fi"
  using assms unfolding resolverOpen_def osCall_def
  by (auto split: sum.splits prod.splits if_splits dest!: openTarget_path simp del: str_Cons)

subsection \<open>Properties\<close>

text \<open>The bytes and names section 11.1 of the specification forbids, written out.\<close>

definition forbiddenChars :: "byte list" where
  "forbiddenChars = map word_of_nat [0..<32] @ [127] @ str [CHR 0x5C, CHR '':'', CHR ''*'', CHR ''?'', CHR 0x22, CHR ''<'', CHR ''>'', CHR ''|'']"

definition deviceNames :: "byte list list" where
  "deviceNames = map str [''CON'', ''PRN'', ''AUX'', ''NUL'']
     @ map (\<lambda>d. str ''COM'' @ [d]) (str ''123456789'') @ map (\<lambda>d. str ''LPT'' @ [d]) (str ''123456789'')"

lemma forbiddenByte_chars: "forbiddenByte c \<longleftrightarrow> c \<in> set forbiddenChars"
proof -
  have "c < 32 \<longleftrightarrow> c \<in> set (map word_of_nat [0..<32])"
    using byte_range [of 0 31 c] less_Suc_eq_le [of "unat c" 31] by (simp add: word_le_nat_alt word_less_nat_alt del: upt_Suc)
  then show ?thesis unfolding forbiddenByte_def forbiddenChars_def by (simp del: set_map set_upt) blast
qed

lemma before_dot: "(case indexByte seg c of Some i \<Rightarrow> take i seg | None \<Rightarrow> seg) = takeWhile (\<lambda>b. b \<noteq> c) seg"
  by (induction seg) (auto split: option.splits)

text \<open>
  No device name has an I or an S, the letters some code points outside ASCII have as upper case;
  so only ASCII letters matter.
\<close>

lemma toUpper_ascii:
  assumes "\<forall>x \<in> set n. x < 0x80 \<and> x \<noteq> chr CHR ''I'' \<and> x \<noteq> chr CHR ''S''"
  shows "toUpper w = n \<longleftrightarrow> map upByte w = n"
  using assms
proof (induction w arbitrary: n rule: toUpper.induct)
  case (3 a b r)
  show ?case
  proof (cases "a = 0xC4 \<and> b = 0xB1 \<or> a = 0xC5 \<and> b = 0xBF")
    case True
    then have "\<exists>xs. toUpper (a # b # r) = chr CHR ''I'' # xs \<or> toUpper (a # b # r) = chr CHR ''S'' # xs" "upByte a = a" "\<not> a < 0x80"
      by (auto simp: upByte_def)
    then show ?thesis using 3(4) by (cases n) auto
  next
    case False
    with 3(3) [of "tl n"] 3(4) show ?thesis by (cases n) auto
  qed
qed auto

lemma deviceNames_ascii: "list_all (list_all (\<lambda>x. x < 0x80 \<and> x \<noteq> chr CHR ''I'' \<and> x \<noteq> chr CHR ''S'')) deviceNames"
  by (simp add: deviceNames_def)

lemma deviceNames_iff:
  "w \<in> set deviceNames \<longleftrightarrow> w \<in> {str ''CON'', str ''PRN'', str ''AUX'', str ''NUL''}
     \<or> (\<exists>d \<in> set (str ''123456789''). w = str ''COM'' @ [d]) \<or> (\<exists>d \<in> set (str ''123456789''). w = str ''LPT'' @ [d])"
  unfolding deviceNames_def by (auto simp del: str_Cons)

lemma digit_chars: "chr CHR ''1'' \<le> x \<and> x \<le> chr CHR ''9'' \<longleftrightarrow> x \<in> set (str ''123456789'')"
  using byte_range [of 49 57 x] by (simp add: upt_rec)

lemma last_of_four: "length w = 4 \<Longrightarrow> hasPrefix w p \<Longrightarrow> length p = 3 \<Longrightarrow> w = p @ [w ! 3]"
  by (auto simp: hasPrefix_iff length_Suc_conv numeral_eq_Suc)

lemma reservedDeviceName_names: "reservedDeviceName seg \<longleftrightarrow> map upByte (takeWhile (\<lambda>b. b \<noteq> chr CHR ''.'') seg) \<in> set deviceNames"
proof -
  let ?w = "toUpper (takeWhile (\<lambda>b. b \<noteq> chr CHR ''.'') seg)"
  have "length ?w = 4 \<and> hasPrefix ?w p \<and> chr CHR ''1'' \<le> ?w ! 3 \<and> ?w ! 3 \<le> chr CHR ''9'' \<longleftrightarrow> (\<exists>d \<in> set (str ''123456789''). ?w = p @ [d])"
    if "length p = 3" for p
    using last_of_four [of ?w p] that unfolding digit_chars by (auto simp: hasPrefix_def nth_append simp del: str_Cons)
  note four = this
  have three: "length (str ''COM'') = 3" "length (str ''LPT'') = 3" by simp_all
  let ?short = "{str ''CON'', str ''PRN'', str ''AUX'', str ''NUL''}"
  have "reservedDeviceName seg \<longleftrightarrow> ?w \<in> ?short
      \<or> length ?w = 4 \<and> hasPrefix ?w (str ''COM'') \<and> chr CHR ''1'' \<le> ?w ! 3 \<and> ?w ! 3 \<le> chr CHR ''9''
      \<or> length ?w = 4 \<and> hasPrefix ?w (str ''LPT'') \<and> chr CHR ''1'' \<le> ?w ! 3 \<and> ?w ! 3 \<le> chr CHR ''9''"
    unfolding reservedDeviceName_def before_dot Let_def
    by (cases "?w \<in> ?short"; cases "length ?w = 4"; cases "hasPrefix ?w (str ''COM'')"; cases "hasPrefix ?w (str ''LPT'')")
      (simp_all only: if_True if_False simp_thms)
  also have "\<dots> \<longleftrightarrow> ?w \<in> set deviceNames" unfolding deviceNames_iff four [OF three(1)] four [OF three(2)] ..
  finally have "reservedDeviceName seg \<longleftrightarrow> ?w \<in> set deviceNames" .
  moreover have same: "?w = n \<longleftrightarrow> map upByte (takeWhile (\<lambda>b. b \<noteq> chr CHR ''.'') seg) = n" if "n \<in> set deviceNames" for n
    by (rule toUpper_ascii) (use that deviceNames_ascii in \<open>auto simp: list_all_iff\<close>)
  have "?w \<in> set deviceNames \<longleftrightarrow> map upByte (takeWhile (\<lambda>b. b \<noteq> chr CHR ''.'') seg) \<in> set deviceNames"
    using same [of ?w] same [of "map upByte (takeWhile (\<lambda>b. b \<noteq> chr CHR ''.'') seg)"] by metis
  ultimately show ?thesis by simp
qed

text \<open>
  C31. \<^verbatim>\<open>checkPath\<close> accepts exactly the paths of section 11.1 of the specification: a slash, segments
  separated by single slashes and perhaps a trailing one, valid UTF-8, no control byte, no byte of
  \<open>\ : * ? " < > |\<close>, and no segment that is \<open>.\<close> or \<open>..\<close>, ends in a dot or a space, or is up to its first dot
  one of the device names \<open>CON\<close>, \<open>PRN\<close>, \<open>AUX\<close>, \<open>NUL\<close>, \<open>COM1\<close> to \<open>COM9\<close>, \<open>LPT1\<close> to \<open>LPT9\<close> in any mix of upper and lower case.
\<close>
theorem checkPath_accepts_exactly:
  "checkPath p = Inr () \<longleftrightarrow>
     utf8Valid p \<and> set p \<inter> set forbiddenChars = {}
     \<and> (\<exists>segs trail. p = absPath segs @ trail \<and> (trail = [] \<or> trail = [slash] \<and> segs \<noteq> [])
          \<and> list_all (\<lambda>seg. seg \<noteq> [] \<and> slash \<notin> set seg \<and> seg \<noteq> str ''.'' \<and> seg \<noteq> str ''..''
              \<and> last seg \<noteq> chr CHR ''.'' \<and> last seg \<noteq> chr CHR '' ''
              \<and> map (\<lambda>b. if 97 \<le> b \<and> b \<le> 122 then b - 32 else b) (takeWhile (\<lambda>b. b \<noteq> chr CHR ''.'') seg) \<notin> set deviceNames) segs)"
  (is "?lhs \<longleftrightarrow> ?rhs")
proof -
  have up: "(\<lambda>b. if 97 \<le> b \<and> b \<le> 122 then b - 32 else b) = upByte" by (simp add: fun_eq_iff upByte_def)
  have seg: "(\<lambda>seg. seg \<noteq> [] \<and> slash \<notin> set seg \<and> seg \<noteq> str ''.'' \<and> seg \<noteq> str ''..''
              \<and> last seg \<noteq> chr CHR ''.'' \<and> last seg \<noteq> chr CHR '' '' \<and> map upByte (takeWhile (\<lambda>b. b \<noteq> chr CHR ''.'') seg) \<notin> set deviceNames) = segmentOk"
    unfolding fun_eq_iff segmentOk_def badSegment_def reservedDeviceName_names by auto
  have bytes: "set p \<inter> set forbiddenChars = {} \<longleftrightarrow> \<not> list_ex forbiddenByte p"
    by (auto simp: list_ex_iff forbiddenByte_chars)
  show ?thesis unfolding up seg bytes
  proof
    assume ok: "checkPath p = Inr ()"
    then obtain segs trail where "list_all segmentOk segs" "trail = [] \<or> trail = [slash] \<and> segs \<noteq> []"
      "p = absPath segs @ trail" by (rule checkPath_segments)
    with ok show "utf8Valid p \<and> \<not> list_ex forbiddenByte p
      \<and> (\<exists>segs trail. p = absPath segs @ trail \<and> (trail = [] \<or> trail = [slash] \<and> segs \<noteq> []) \<and> list_all segmentOk segs)"
      unfolding checkPath_Inr by blast
  qed (use segments_checkPath in blast)
qed

text \<open>
  C4. Containment, whatever symbolic links the tree holds and however it changes between the calls:
  the file \<^verbatim>\<open>open\<close> returns was opened under a path that \<^verbatim>\<open>EvalSymlinks\<close> returned, either for the requested
  path joined to the root or for the file \<^verbatim>\<open>index.html\<close> of the directory it returned for that path; this
  resolved path, and that of the directory, lies at or below the resolved
  document root, and the file is a regular file according to the open handle.
\<close>
theorem open_contained:
  assumes "osLaw env" and "newResolver env root s0 = (Inr r, s1)"
    and "resolverOpen env r p s = (Inr (f, fi), s')"
  shows "\<exists>ws us. list_all elemOk (ws @ us) \<and> res_root r = absPath ws \<and> fl_path f = absPath (ws @ us) \<and> fi_regular fi
    \<and> (env_evalSymlinks env (os_tick s) (fpJoin (res_root r) (trimByte slash p)) = Inr (fl_path f)
       \<or> (\<exists>vs. env_evalSymlinks env (os_tick s) (fpJoin (res_root r) (trimByte slash p)) = Inr (absPath (ws @ vs))
           \<and> list_all elemOk vs \<and> env_isDir env (os_tick s + 1) (absPath (ws @ vs)) = Inr True
           \<and> env_evalSymlinks env (os_tick s + 2) (fpJoin (absPath (ws @ vs)) (str ''index.html'')) = Inr (fl_path f)))"
proof -
  note root = newResolver_root [OF assms(1,2)]
  from root have rooted: "rooted (res_root r)" by (auto simp: cleanAbs_def)
  note below = within_below [OF assms(1) root]
  from assms(3) show ?thesis
  proof (cases rule: resolverOpen_Inr)
    case (target s1)
    from below [OF rooted_join [OF rooted] target(2)] obtain ws us where "list_all elemOk ws" "list_all elemOk us" "res_root r = absPath ws" "fl_path f = absPath (ws @ us)" .
    with target show ?thesis by (intro exI [of _ ws] exI [of _ us]) (auto simp: within_Inr)
  next
    case (index dir s1 s2)
    from below [OF rooted_join [OF rooted] index(2)] obtain ws vs where d: "list_all elemOk ws" "list_all elemOk vs" "res_root r = absPath ws" "dir = absPath (ws @ vs)" .
    from below [OF rooted_join index(4)] d(4) obtain ws' us where u: "list_all elemOk ws'" "list_all elemOk us" "res_root r = absPath ws'" "fl_path f = absPath (ws' @ us)"
      by (metis rooted_absPath(1))
    have "ws' = ws" using absPath_inj d(1,3) u(1,3) by metis
    with d u index show ?thesis by (intro exI [of _ ws] exI [of _ us]) (auto simp: within_Inr simp del: str_Cons)
  qed
qed

text \<open>
  A small file tree for the examples: \<open>/srv\<close> with a file \<open>data/a\<close>, a link \<open>a\<close> to it and a link
  \<open>out\<close> that leads to \<open>/etc/x\<close>.
\<close>

definition demoEnv :: os_env where
  "demoEnv = \<lparr>env_getwd = (\<lambda>t. Inr (str ''/'')),
     env_evalSymlinks = (\<lambda>t p. if p = str ''/srv'' then Inr (absPath [str ''srv''])
       else if p = str ''/srv/a'' then Inr (absPath [str ''srv'', str ''data'', str ''a''])
       else if p = str ''/srv/out'' then Inr (absPath [str ''etc'', str ''x'']) else Inl ErrNotExist),
     env_isDir = (\<lambda>t p. Inr (p = str ''/srv'')),
     env_open = (\<lambda>t p. Inr ([[65, 66]], EOF)),
     env_fstat = (\<lambda>t f. Inr \<lparr>fi_name = str ''a'', fi_size = 2, fi_regular = True\<rparr>)\<rparr>"

definition demoState :: os_state where
  "demoState = \<lparr>os_tick = 0, os_handles = 0\<rparr>"

lemma demoEnv_law: "osLaw demoEnv"
  by (auto simp: osLaw_def demoEnv_def rooted_def elemOk_def split: if_splits intro!: cleanAbs_absPath)

lemmas filepath_eval = fpAbs_def fpClean_def fpJoin_def fpRel_def cleanElems_def cleanStep_def rooted_def absPath_def
  hasPrefix_def trimByte_def hasSuffix_def

lemmas resolver_eval = newResolver_def resolverOpen_def within_def openTarget_def osOpen_def osCall_def osClose_def
  missingOr_def isUnrepresentableName_def checkPath_def forbiddenByte_def badSegment_def reservedDeviceName_def

theorem open_contained_witness:
  "\<exists>ws us. list_all elemOk (ws @ us) \<and> str ''/srv'' = absPath ws \<and> str ''/srv/data/a'' = absPath (ws @ us)
    \<and> env_evalSymlinks demoEnv 0 (str ''/srv/a'') = Inr (str ''/srv/data/a'')"
proof -
  let ?r = "\<lparr>res_root = str ''/srv''\<rparr>"
  have new: "newResolver demoEnv (str ''/srv/'') demoState = (Inr ?r, demoState\<lparr>os_tick := 2\<rparr>)"
    by (simp add: resolver_eval filepath_eval demoEnv_def demoState_def)
  have opn: "resolverOpen demoEnv ?r (str ''/a'') demoState =
     (Inr (\<lparr>fl_path = str ''/srv/data/a'', fl_chunks = [[65, 66]], fl_end = EOF\<rparr>,
           \<lparr>fi_name = str ''a'', fi_size = 2, fi_regular = True\<rparr>), demoState\<lparr>os_tick := 4, os_handles := 1\<rparr>)"
    by (simp add: resolver_eval filepath_eval demoEnv_def demoState_def)
  have "env_evalSymlinks demoEnv 0 (str ''/srv/a'') = Inr (str ''/srv/data/a'')" by (simp add: demoEnv_def absPath_def)
  with open_contained [OF demoEnv_law new opn] show ?thesis by (auto simp del: str_Cons)
qed

text \<open>
  The string rules come first and decide alone. \<^verbatim>\<open>open\<close> reports a bad path exactly when \<^verbatim>\<open>checkPath\<close>
  rejects it, whatever the file system would have said, and then without a single system call.
\<close>
lemma open_bad_path_iff:
  "(fst (resolverOpen env r p s) = Inl errBadPath \<longleftrightarrow> checkPath p \<noteq> Inr ())
   \<and> (checkPath p \<noteq> Inr () \<longrightarrow> resolverOpen env r p s = (Inl errBadPath, s))"
proof (cases "checkPath p")
  case (Inl e)
  then show ?thesis by (auto simp: resolverOpen_def dest: checkPath_Inl)
next
  case (Inr u)
  moreover have "fst (resolverOpen env r p s) \<noteq> Inl errBadPath"
    using Inr within_not_bad [of env r] openTarget_not_bad [of env]
    by (auto simp: resolverOpen_def osCall_def split: sum.splits prod.splits if_splits) (metis surj_pair prod.sel)+
  ultimately show ?thesis by (cases u) auto
qed

text \<open>
  C32. No file handle leaks: after \<^verbatim>\<open>open\<close> there is exactly one more open handle if it returned a file, and
  none more if it returned an error, on every path through it.
\<close>
theorem open_handles:
  assumes "resolverOpen env r p s = (res, s')"
  shows "os_handles s' = os_handles s + (case res of Inl _ \<Rightarrow> 0 | Inr _ \<Rightarrow> 1)"
  using assms by (rule resolverOpen_handles)

theorem open_handles_witness:
  "os_handles (snd (resolverOpen demoEnv \<lparr>res_root = str ''/srv''\<rparr> (str ''/out'') demoState)) = 0"
proof -
  have "resolverOpen demoEnv \<lparr>res_root = str ''/srv''\<rparr> (str ''/out'') demoState = (Inl errNotFound, demoState\<lparr>os_tick := 1\<rparr>)"
    by (simp add: resolver_eval filepath_eval demoEnv_def demoState_def upByte_def)
  from open_handles [OF this] this show ?thesis by (simp add: demoState_def del: str_Cons)
qed



text \<open>
  What the string rules let through cannot leave the root lexically either: the path handed to the
  operating system is the root followed by exactly the non-empty segments of the request, in order;
  cleaning removes and collapses nothing.
\<close>
lemma request_path_below_root:
  assumes "checkPath p = Inr ()" and "list_all elemOk ws"
  shows "fpJoin (absPath ws) (trimByte slash p) = absPath (ws @ filter (\<lambda>w. w \<noteq> []) (splitByte slash (drop 1 p)))"
proof -
  from assms(1) obtain segs trail where segs: "list_all segmentOk segs" "trimByte slash p = joinByte slash segs"
    "filter (\<lambda>w. w \<noteq> []) (splitByte slash (drop 1 p)) = segs" by (rule checkPath_segments)
  then have "list_all elemOk segs" by (auto simp: list_all_iff segmentOk_elemOk)
  then show ?thesis using fpJoin_absPath [OF assms(2)] segs by simp
qed

end
