(* ===== verification/Server_Conn.thy ===== *)
theory Server_Conn
  imports Frame Messages Resolver
begin

text \<open>
  \<^verbatim>\<open>internal/server\<close>: what happens on one connection. \<^verbatim>\<open>request.go\<close> (answering one REQUEST frame,
  streaming a file) and the connection half of \<^verbatim>\<open>server.go\<close> (the frame loop, the reaction to read and
  write failures, the bounded drain).

  The code is polymorphic in the connection, as Go's is in \<^verbatim>\<open>net.Conn\<close>. A handler's state is the
  buffered connection, the operating-system state and the log. Anything that reads may fail to
  return, so these functions are partial. Their specification and the proof that they always
  return and implement it are in \<open>Server_Spec\<close>.
\<close>

subsection \<open>\<open>server.go\<close>: configuration, log and connection\<close>

definition defaultIdleTimeout :: nat where "defaultIdleTimeout = 30 * 1000000000"
definition defaultWriteTimeout :: nat where "defaultWriteTimeout = 30 * 1000000000"
definition drainTime :: nat where "drainTime = 1000000000"
definition drainBytes :: nat where "drainBytes = 65536"

text \<open>
  The immutable part of a server that a connection uses. \<open>sv_env\<close> stands for the operating system
  and \<open>sv_logging\<close> says whether there is a logger.
\<close>

record server_cfg =
  sv_env :: os_env
  sv_res :: resolver
  sv_idleTimeout :: nat
  sv_writeTimeout :: nat
  sv_logging :: bool

datatype serve_err = SendProto proto_err | SendFrame frame_err | BodyError io_err

text \<open>The log lines, with the values they print; the peer's address, in most of them, is left out.\<close>

datatype log_line =
    LogConnected | LogDisconnected
  | LogMidFrame | LogOversizedError | LogIdle | LogReadFailed frame_err
  | LogErrorFrame
  | LogSendFailed serve_err | LogBodyFailed serve_err | LogWriteFailed serve_err
  | LogFail "byte list"
  | LogBadFlags | LogBadPayload proto_err | LogBadPath
  | LogGet "byte list" int | LogGetFailed "byte list" res_err | LogGetOk "byte list" int

record 'c handler =
  h_br :: "'c bufio"
  h_os :: os_state
  h_log :: "log_line list"

definition h_conn :: "'c handler \<Rightarrow> 'c" where
  "h_conn h = bf_rd (h_br h)"

definition onConn :: "('c \<Rightarrow> 'c) \<Rightarrow> 'c handler \<Rightarrow> 'c handler" where
  "onConn f h = h\<lparr>h_br := (h_br h)\<lparr>bf_rd := f (bf_rd (h_br h))\<rparr>\<rparr>"

definition logf :: "server_cfg \<Rightarrow> log_line \<Rightarrow> 'c handler \<Rightarrow> 'c handler" where
  "logf s l h = (if sv_logging s then h\<lparr>h_log := h_log h @ [l]\<rparr> else h)"

definition svWrite :: "'c net_conn \<Rightarrow> server_cfg \<Rightarrow> frame \<Rightarrow> 'c handler \<Rightarrow> frame_err option \<times> 'c handler" where
  "svWrite nc s f h =
     (case writeFrame (nc_write nc) f (nc_setWriteDeadline nc (sv_writeTimeout s) (h_conn h)) of
        (e, c) \<Rightarrow> (e, onConn (\<lambda>_. c) h))"

definition drain :: "'c net_conn \<Rightarrow> 'c handler \<Rightarrow> 'c handler option" where
  "drain nc h =
     (let c1 = (case nc_closeWrite nc of Some f \<Rightarrow> f (h_conn h) | None \<Rightarrow> h_conn h);
          c2 = nc_setReadDeadline nc drainTime c1
      in case copyDiscard (nc_read nc) drainBytes c2 of
           None \<Rightarrow> None
         | Some (_, c3) \<Rightarrow> Some (onConn (\<lambda>_. c3) h))"

definition fail :: "'c net_conn \<Rightarrow> server_cfg \<Rightarrow> u16 \<Rightarrow> byte list \<Rightarrow> 'c handler \<Rightarrow> 'c handler option" where
  "fail nc s code msg h =
     (let h1 = logf s (LogFail msg) h in
      case encodeConnError \<lparr>ce_code = code, ce_message = msg\<rparr> of
        Inl _ \<Rightarrow> Some h1
      | Inr payload \<Rightarrow>
          (case svWrite nc s \<lparr>fr_type = TypeError, fr_flags = 0, fr_stream = 0, fr_payload = payload\<rparr> h1 of
             (Some _, h2) \<Rightarrow> Some h2
           | (None, h2) \<Rightarrow> drain nc h2))"

definition onReadError :: "'c net_conn \<Rightarrow> server_cfg \<Rightarrow> frame_err \<Rightarrow> 'c handler \<Rightarrow> 'c handler option" where
  "onReadError nc s err h =
     (case err of
        FrameIO EOF \<Rightarrow> Some h
      | ErrTruncated \<Rightarrow> Some (logf s LogMidFrame h)
      | ErrStreamZero \<Rightarrow> fail nc s CodeInvalidStreamID (str ''stream id 0 is not valid here'') h
      | OversizeError t _ \<Rightarrow>
          (if t = TypeError then Some (logf s LogOversizedError h)
           else fail nc s CodeFrameTooLarge (str ''frame payload is too large'') h)
      | FrameIO NetTimeout \<Rightarrow> Some (logf s LogIdle h)
      | _ \<Rightarrow> Some (logf s (LogReadFailed err) h))"

definition onServeError :: "'c net_conn \<Rightarrow> server_cfg \<Rightarrow> serve_err \<Rightarrow> 'c handler \<Rightarrow> 'c handler option" where
  "onServeError nc s err h =
     (case err of
        BodyError _ \<Rightarrow> fail nc s CodeProtocolError (str ''could not finish sending the response'') (logf s (LogBodyFailed err) h)
      | _ \<Rightarrow> Some (logf s (LogWriteFailed err) h))"

subsection \<open>\<open>request.go\<close>\<close>

definition serverName :: "byte list" where "serverName = str ''bserve/1''"

definition sendResponse ::
  "'c net_conn \<Rightarrow> server_cfg \<Rightarrow> u32 \<Rightarrow> int \<Rightarrow> header list \<Rightarrow> bool \<Rightarrow> 'c handler \<Rightarrow> serve_err option \<times> 'c handler" where
  "sendResponse nc s stream status headers endStream h =
     (case encodeResponse \<lparr>rs_status = status, rs_headers = headers\<rparr> of
        Inl e \<Rightarrow> (Some (SendProto e), h)
      | Inr payload \<Rightarrow>
          (case svWrite nc s \<lparr>fr_type = TypeResponse, fr_flags = (if endStream then FlagEndStream else 0),
               fr_stream = stream, fr_payload = payload\<rparr> h of
             (e, h') \<Rightarrow> (map_option SendFrame e, h')))"

definition sendStatus :: "'c net_conn \<Rightarrow> server_cfg \<Rightarrow> u32 \<Rightarrow> int \<Rightarrow> 'c handler \<Rightarrow> serve_err option \<times> 'c handler" where
  "sendStatus nc s stream status h =
     sendResponse nc s stream status
       [NewHeader HeaderContentLength (str ''0''), NewHeader HeaderServer serverName] True h"

definition reject :: "'c net_conn \<Rightarrow> server_cfg \<Rightarrow> u32 \<Rightarrow> log_line \<Rightarrow> 'c handler \<Rightarrow> serve_err option \<times> 'c handler" where
  "reject nc s stream why h = sendStatus nc s stream 400 (logf s why h)"

text \<open>The loop of \<^verbatim>\<open>sendFile\<close>; \<open>left\<close> (\<^verbatim>\<open>remaining\<close>) bytes of \<open>sz\<close> are still to be sent.\<close>

partial_function (option) sendBody ::
  "'c net_conn \<Rightarrow> server_cfg \<Rightarrow> u32 \<Rightarrow> int \<Rightarrow> int \<Rightarrow> os_file \<Rightarrow> 'c handler
     \<Rightarrow> ((int \<times> serve_err option) \<times> 'c handler) option" where
  "sendBody nc s stream sz left fl h =
     (if left \<le> 0 then Some ((sz, None), h)
      else (case readFull fileRead (nat (min (int MaxPayload) left)) fl of
          None \<Rightarrow> None
        | Some ((chunk, e), fl') \<Rightarrow>
          (case e of
             Some x \<Rightarrow> Some ((sz - left, Some (BodyError x)), h)
           | None \<Rightarrow>
             (case svWrite nc s
                  \<lparr>fr_type = TypeData,
                   fr_flags = (if left - int (length chunk) = 0 then FlagEndStream else 0),
                   fr_stream = stream, fr_payload = chunk\<rparr> h of
                (Some x, h') \<Rightarrow> Some ((sz - (left - int (length chunk)), Some (SendFrame x)), h')
              | (None, h') \<Rightarrow> sendBody nc s stream sz (left - int (length chunk)) fl' h'))))"

definition sendFile ::
  "'c net_conn \<Rightarrow> server_cfg \<Rightarrow> u32 \<Rightarrow> os_file \<Rightarrow> int \<Rightarrow> byte list \<Rightarrow> 'c handler
     \<Rightarrow> ((int \<times> serve_err option) \<times> 'c handler) option" where
  "sendFile nc s stream fl sz ctype h =
     (case sendResponse nc s stream 200
         [NewHeader HeaderContentType ctype, NewHeader HeaderContentLength (formatInt sz),
          NewHeader HeaderServer serverName] (sz = 0) h of
        (Some e, h1) \<Rightarrow> Some ((0, Some e), h1)
      | (None, h1) \<Rightarrow> sendBody nc s stream sz sz fl h1)"

definition serveRequest :: "'c net_conn \<Rightarrow> server_cfg \<Rightarrow> frame \<Rightarrow> 'c handler \<Rightarrow> (serve_err option \<times> 'c handler) option" where
  "serveRequest nc s f h =
     (if fr_flags f AND NOT FlagEndStream \<noteq> 0 \<or> \<not> Has (fr_flags f) FlagEndStream
      then Some (reject nc s (fr_stream f) LogBadFlags h)
      else (case decodeRequest (fr_payload f) of
          Inl e \<Rightarrow> Some (reject nc s (fr_stream f) (LogBadPayload e) h)
        | Inr req \<Rightarrow>
          (case resolverOpen (sv_env s) (sv_res s) (rq_path req) (h_os h) of
             (Inl errBadPath, os) \<Rightarrow> Some (reject nc s (fr_stream f) LogBadPath (h\<lparr>h_os := os\<rparr>))
           | (Inl errNotFound, os) \<Rightarrow>
               Some (sendStatus nc s (fr_stream f) 404 (logf s (LogGet (rq_path req) 404) (h\<lparr>h_os := os\<rparr>)))
           | (Inl e, os) \<Rightarrow>
               Some (sendStatus nc s (fr_stream f) 500 (logf s (LogGetFailed (rq_path req) e) (h\<lparr>h_os := os\<rparr>)))
           | (Inr (fl, fi), os) \<Rightarrow>
             (case sendFile nc s (fr_stream f) fl (fi_size fi) (contentType (fi_name fi)) (h\<lparr>h_os := os\<rparr>) of
                None \<Rightarrow> None
              | Some ((n, e), h1) \<Rightarrow>
                  Some (e, let h2 = (if e = None then logf s (LogGetOk (rq_path req) n) h1 else h1)
                           in h2\<lparr>h_os := osClose (h_os h2)\<rparr>)))))"

subsection \<open>The connection loop\<close>

text \<open>The \<^verbatim>\<open>switch\<close> of the loop: whether the loop goes on, and the state. A type it does not name does nothing.\<close>

definition onFrame :: "'c net_conn \<Rightarrow> server_cfg \<Rightarrow> frame \<Rightarrow> 'c handler \<Rightarrow> (bool \<times> 'c handler) option" where
  "onFrame nc s f h =
     (if fr_type f = TypeRequest then
        (case serveRequest nc s f h of
           None \<Rightarrow> None
         | Some (None, h1) \<Rightarrow> Some (True, h1)
         | Some (Some e, h1) \<Rightarrow> map_option (\<lambda>h2. (False, h2)) (onServeError nc s e h1))
      else if fr_type f = TypeResponse \<or> fr_type f = TypeData then
        (case sendStatus nc s (fr_stream f) 400 h of
           (None, h1) \<Rightarrow> Some (True, h1)
         | (Some e, h1) \<Rightarrow> Some (False, logf s (LogSendFailed e) h1))
      else if fr_type f = TypeError then Some (False, logf s LogErrorFrame h)
      else Some (True, h))"

partial_function (option) handleLoop :: "'c net_conn \<Rightarrow> server_cfg \<Rightarrow> 'c handler \<Rightarrow> 'c handler option" where
  "handleLoop nc s h =
     (let h1 = onConn (nc_setReadDeadline nc (sv_idleTimeout s)) h in
      case readFrame (bufioRead (nc_read nc)) (h_br h1) of
        None \<Rightarrow> None
      | Some (res, br) \<Rightarrow>
        (let h2 = h1\<lparr>h_br := br\<rparr> in
         case res of
           Inl err \<Rightarrow> onReadError nc s err h2
         | Inr f \<Rightarrow>
           (case onFrame nc s f h2 of
              None \<Rightarrow> None
            | Some (goesOn, h3) \<Rightarrow> if goesOn then handleLoop nc s h3 else Some h3)))"

text \<open>\<^verbatim>\<open>handle\<close> with its deferred calls, which run last to first; the bookkeeping of \<^verbatim>\<open>untrack\<close> is in \<open>Server_Life\<close>.\<close>

definition handle :: "'c net_conn \<Rightarrow> server_cfg \<Rightarrow> os_state \<Rightarrow> 'c \<Rightarrow> 'c handler option" where
  "handle nc s os c =
     (case handleLoop nc s (logf s LogConnected \<lparr>h_br = bufioNew c, h_os = os, h_log = []\<rparr>) of
        None \<Rightarrow> None
      | Some h \<Rightarrow> Some (onConn (nc_close nc) (logf s LogDisconnected h)))"

end
