(* ===== verification/Server_Spec.thy ===== *)
theory Server_Spec
  imports Server_Conn
begin

text \<open>
  What a connection promises, and the proof that \<open>Server_Conn\<close> keeps the promise.

  The specification speaks about frames only: \<open>answer\<close> is what one incoming frame is answered with
  and whether the conversation goes on, and \<open>serverSpec\<close> is what a whole incoming byte stream is
  answered with. It knows nothing of buffers, partial reads, partial writes or deadlines.

  \<open>handleLoop_refines\<close>, proved against the contract \<open>net_conn\<close>, says that the handler always
  returns, that it sends exactly the specified frames on a connection whose writes succeed, and a
  prefix of them on any other.
\<close>

subsection \<open>The frames a server sends\<close>

definition responseFrame :: "u32 \<Rightarrow> int \<Rightarrow> header list \<Rightarrow> bool \<Rightarrow> frame" where
  "responseFrame st status hs fin =
     \<lparr>fr_type = TypeResponse, fr_flags = (if fin then FlagEndStream else 0), fr_stream = st,
      fr_payload = responseBytes \<lparr>rs_status = status, rs_headers = hs\<rparr>\<rparr>"

definition statusFrame :: "u32 \<Rightarrow> int \<Rightarrow> frame" where
  "statusFrame st status =
     responseFrame st status [NewHeader HeaderContentLength (str ''0''), NewHeader HeaderServer serverName] True"

definition fileHead :: "u32 \<Rightarrow> byte list \<Rightarrow> int \<Rightarrow> frame" where
  "fileHead st ctype sz =
     responseFrame st 200 [NewHeader HeaderContentType ctype, NewHeader HeaderContentLength (formatInt sz),
       NewHeader HeaderServer serverName] (sz = 0)"

definition dataFrame :: "u32 \<Rightarrow> bool \<Rightarrow> byte list \<Rightarrow> frame" where
  "dataFrame st fin bs =
     \<lparr>fr_type = TypeData, fr_flags = (if fin then FlagEndStream else 0), fr_stream = st, fr_payload = bs\<rparr>"

definition errorFrame :: "u16 \<Rightarrow> byte list \<Rightarrow> frame" where
  "errorFrame code msg =
     \<lparr>fr_type = TypeError, fr_flags = 0, fr_stream = 0, fr_payload = putUint16 code @ putUint16 (len16 msg) @ msg\<rparr>"

subsection \<open>The answer to one frame, and to a stream\<close>

text \<open>
  The DATA frames for the next \<open>n\<close> bytes of a file with the given content, and whether the file had
  that many.
\<close>

function bodyFrames :: "u32 \<Rightarrow> nat \<Rightarrow> byte list \<Rightarrow> frame list \<times> bool" where
  "bodyFrames st n bs =
     (if n = 0 then ([], True)
      else if length bs < min MaxPayload n then ([], False)
      else (case bodyFrames st (n - min MaxPayload n) (drop (min MaxPayload n) bs) of
          (fs, full) \<Rightarrow> (dataFrame st (n \<le> MaxPayload) (take (min MaxPayload n) bs) # fs, full)))"
  by pat_completeness auto
termination
  by (relation "measure (\<lambda>(st, n, bs). n)") auto

declare bodyFrames.simps [simp del]

lemma bodyFrames_0 [simp]: "bodyFrames st 0 bs = ([], True)"
  by (simp add: bodyFrames.simps)

definition fileAnswer :: "u32 \<Rightarrow> os_file \<Rightarrow> file_info \<Rightarrow> frame list \<times> bool" where
  "fileAnswer st fl fi =
     (case bodyFrames st (nat (fi_size fi)) (fileContent fl) of
        (fs, full) \<Rightarrow> (fileHead st (contentType (fi_name fi)) (fi_size fi) # fs, full))"

definition bodyFailed :: frame where
  "bodyFailed = errorFrame CodeProtocolError (str ''could not finish sending the response'')"

definition requestAnswer :: "os_env \<Rightarrow> resolver \<Rightarrow> frame \<Rightarrow> os_state \<Rightarrow> (frame list \<times> bool) \<times> os_state" where
  "requestAnswer env r f os =
     (if fr_flags f \<noteq> FlagEndStream then (([statusFrame (fr_stream f) 400], True), os)
      else (case decodeRequest (fr_payload f) of
          Inl _ \<Rightarrow> (([statusFrame (fr_stream f) 400], True), os)
        | Inr req \<Rightarrow>
          (case resolverOpen env r (rq_path req) os of
             (Inl e, os') \<Rightarrow>
               (([statusFrame (fr_stream f) (if e = errBadPath then 400 else if e = errNotFound then 404 else 500)], True), os')
           | (Inr (fl, fi), os') \<Rightarrow> (fileAnswer (fr_stream f) fl fi, osClose os'))))"

definition answer :: "os_env \<Rightarrow> resolver \<Rightarrow> frame \<Rightarrow> os_state \<Rightarrow> (frame list \<times> bool) \<times> os_state" where
  "answer env r f os =
     (if fr_type f = TypeRequest then
        (case requestAnswer env r f os of
           ((fs, full), os') \<Rightarrow> if full then ((fs, True), os') else ((fs @ [bodyFailed], False), os'))
      else if fr_type f = TypeResponse \<or> fr_type f = TypeData then (([statusFrame (fr_stream f) 400], True), os)
      else (([], False), os))"

definition readFailure :: "frame_err \<Rightarrow> frame list" where
  "readFailure err =
     (case err of
        ErrStreamZero \<Rightarrow> [errorFrame CodeInvalidStreamID (str ''stream id 0 is not valid here'')]
      | OversizeError t _ \<Rightarrow>
          (if t = TypeError then [] else [errorFrame CodeFrameTooLarge (str ''frame payload is too large'')])
      | _ \<Rightarrow> [])"

function serverSpec :: "os_env \<Rightarrow> resolver \<Rightarrow> io_err \<Rightarrow> os_state \<Rightarrow> byte list \<Rightarrow> frame list \<times> os_state" where
  "serverSpec env r e os bs =
     (case parseFrame e bs of
        (Inl err, _) \<Rightarrow> (readFailure err, os)
      | (Inr f, later) \<Rightarrow>
        (case answer env r f os of
           ((fs, False), os') \<Rightarrow> (fs, os')
         | ((fs, True), os') \<Rightarrow>
             (case serverSpec env r e os' later of (gs, os'') \<Rightarrow> (fs @ gs, os''))))"
  by pat_completeness auto
termination
  by (relation "measure (\<lambda>(env, r, e, os, bs). length bs)") (auto dest!: parse_Inr_shorter [OF sym])

declare serverSpec.simps [simp del]

subsection \<open>Every one of those frames can be sent\<close>

text \<open>
  What the code relies on of \<^verbatim>\<open>Stat\<close>: a size is an \<^verbatim>\<open>int64\<close>, and the size of a regular file is
  not negative.
\<close>

definition statLaw :: "os_env \<Rightarrow> bool" where
  "statLaw env \<longleftrightarrow> (\<forall>t f fi. env_fstat env t f = Inr fi \<longrightarrow> fi_regular fi \<longrightarrow> 0 \<le> fi_size fi \<and> fi_size fi < 2 ^ 63)"

lemma contentType_length: "length (contentType n) \<le> 24"
proof (cases "map_of contentTypes (toLower (fpExt n))")
  case (Some t)
  then have "t \<in> snd ` set contentTypes" by (force dest: map_of_SomeD)
  with Some show ?thesis by (auto simp: contentType_def contentTypes_def)
qed (simp add: contentType_def)

lemma formatInt_length: "0 \<le> n \<Longrightarrow> n < 2 ^ 63 \<Longrightarrow> length (formatInt n) \<le> 19"
  using decDigits_length [of "nat n" 19] by (simp add: formatInt_def nat_less_iff)

lemma statusFrame_ok:
  "validStatus status \<Longrightarrow> responseOk \<lparr>rs_status = status, rs_headers = [NewHeader HeaderContentLength (str ''0''), NewHeader HeaderServer serverName]\<rparr>
    \<and> length (fr_payload (statusFrame st status)) \<le> 100"
  by (simp add: responseOk_def responseBytes_def headerBlock_def headerOk_def toWire_def NewHeader_def tableIDs_unfold
      header_name_defs serverName_def statusFrame_def responseFrame_def)

lemma fileHead_ok:
  assumes "0 \<le> sz" "sz < 2 ^ 63" "length ctype \<le> 24"
  shows "responseOk \<lparr>rs_status = 200, rs_headers = [NewHeader HeaderContentType ctype,
      NewHeader HeaderContentLength (formatInt sz), NewHeader HeaderServer serverName]\<rparr>
    \<and> length (fr_payload (fileHead st ctype sz)) \<le> 100"
  using formatInt_length [OF assms(1,2)] assms(3)
  by (simp add: responseOk_def responseBytes_def headerBlock_def headerOk_def toWire_def NewHeader_def tableIDs_unfold
      header_name_defs serverName_def fileHead_def responseFrame_def validStatus_def)


lemma flags_check: "fr_flags f AND NOT FlagEndStream \<noteq> 0 \<or> \<not> Has (fr_flags f) FlagEndStream \<longleftrightarrow> fr_flags f \<noteq> FlagEndStream"
proof -
  let ?x = "fr_flags f" and ?e = "FlagEndStream"
  have "?x = ?e" if "?x AND NOT ?e = 0" "?x AND ?e = ?e"
  proof -
    have "?x = (?x AND ?e) OR (?x AND NOT ?e)" by (simp add: bit.conj_disj_distrib [symmetric])
    then show ?thesis using that by simp
  qed
  moreover have "?e AND NOT ?e = 0" "?e AND ?e = ?e" by simp_all
  ultimately show ?thesis unfolding Has_def by metis
qed

lemma statusFrame_sends:
  "validStatus status \<Longrightarrow> encodeResponse \<lparr>rs_status = status, rs_headers = [NewHeader HeaderContentLength (str ''0''), NewHeader HeaderServer serverName]\<rparr>
     = Inr (fr_payload (statusFrame st status))"
  using statusFrame_ok [of status st] by (simp add: encodeResponse_Inr statusFrame_def responseFrame_def)

lemma fileHead_sends:
  assumes "0 \<le> sz" "sz < 2 ^ 63" "length ctype \<le> 24"
  shows "encodeResponse \<lparr>rs_status = 200, rs_headers = [NewHeader HeaderContentType ctype,
      NewHeader HeaderContentLength (formatInt sz), NewHeader HeaderServer serverName]\<rparr>
    = Inr (fr_payload (fileHead st ctype sz))"
  using fileHead_ok [OF assms, of st] by (simp add: encodeResponse_Inr fileHead_def responseFrame_def)

lemma errorFrame_sends:
  "length msg \<le> 1000 \<Longrightarrow> encodeConnError \<lparr>ce_code = code, ce_message = msg\<rparr> = Inr (fr_payload (errorFrame code msg))
     \<and> encodable (errorFrame code msg)"
  by (simp add: encodeConnError_def errorFrame_def appendU16_def len16_def encodable_def needsStream_def type_defs)

lemma statusFrame_encodable: "validStatus status \<Longrightarrow> st \<noteq> 0 \<Longrightarrow> encodable (statusFrame st status)"
  using statusFrame_ok [of status st]
  by (auto simp: encodable_def statusFrame_def responseFrame_def)

lemma fileHead_encodable:
  "0 \<le> sz \<Longrightarrow> sz < 2 ^ 63 \<Longrightarrow> length ctype \<le> 24 \<Longrightarrow> st \<noteq> 0 \<Longrightarrow> encodable (fileHead st ctype sz)"
  using fileHead_ok [of sz ctype st]
  by (auto simp: encodable_def fileHead_def responseFrame_def)

lemma dataFrame_encodable: "length bs \<le> MaxPayload \<Longrightarrow> st \<noteq> 0 \<Longrightarrow> encodable (dataFrame st fin bs)"
  by (simp add: encodable_def dataFrame_def)

lemma openTarget_stat:
  "statLaw env \<Longrightarrow> openTarget env p os = (Inr (fl, fi), os') \<Longrightarrow> 0 \<le> fi_size fi \<and> fi_size fi < 2 ^ 63"
  by (auto simp: openTarget_def osCall_def statLaw_def split: sum.splits prod.splits if_splits)

lemma resolverOpen_stat:
  "statLaw env \<Longrightarrow> resolverOpen env r p os = (Inr (fl, fi), os') \<Longrightarrow> 0 \<le> fi_size fi \<and> fi_size fi < 2 ^ 63"
  by (auto simp: resolverOpen_def osCall_def dest: openTarget_stat split: sum.splits prod.splits if_splits)

text \<open>The only error with which a connection is still fit to carry an ERROR frame is that of a short file.\<close>

definition writeErr :: "serve_err option \<Rightarrow> serve_err option" where
  "writeErr e = (case e of Some (BodyError _) \<Rightarrow> None | _ \<Rightarrow> e)"

lemma requestAnswer_handles: "requestAnswer env r f os = (res, os') \<Longrightarrow> os_handles os' = os_handles os"
  by (auto simp: requestAnswer_def osClose_def dest!: resolverOpen_handles split: if_splits sum.splits prod.splits)

lemma answer_handles: "answer env r f os = (res, os') \<Longrightarrow> os_handles os' = os_handles os"
  by (auto simp: answer_def dest: requestAnswer_handles split: if_splits prod.splits)

lemma known_cases: "known t \<Longrightarrow> t = TypeRequest \<or> t = TypeResponse \<or> t = TypeData \<or> t = TypeError"
proof -
  assume "known t"
  then have "1 \<le> unat t" "unat t \<le> 4" by (simp_all add: known_def type_defs word_le_nat_alt)
  then have "unat t = 1 \<or> unat t = 2 \<or> unat t = 3 \<or> unat t = 4" by arith
  then show ?thesis by (simp add: type_defs word_unat_eq_iff)
qed

subsection \<open>The code implements the specification\<close>

context net_conn
begin

text \<open>
  \<open>wrote h h' bs full\<close>: between \<open>h\<close> and \<open>h'\<close> the code wrote \<open>bs\<close>, all of it if \<open>full\<close>, a
  prefix if a write failed, and left alone what is still to be read.
\<close>

definition wrote :: "'c handler \<Rightarrow> 'c handler \<Rightarrow> byte list \<Rightarrow> bool \<Rightarrow> bool" where
  "wrote h h' bs full \<longleftrightarrow>
     (sock.bok (h_br h) \<longrightarrow> sock.bok (h_br h')) \<and> sock.bcontent (h_br h') = sock.bcontent (h_br h)
     \<and> ending (h_conn h') = ending (h_conn h)
     \<and> (reliable (h_conn h) \<longrightarrow> reliable (h_conn h') \<and> full)
     \<and> (\<exists>k. out (h_conn h') = out (h_conn h) @ take k bs \<and> (full \<longrightarrow> k = length bs))"

lemma wrote_refl: "h_br h' = h_br h \<Longrightarrow> wrote h h' [] True"
  by (simp add: wrote_def h_conn_def)

lemma wrote_trans:
  assumes "wrote h h1 as True" "wrote h1 h2 bs full"
  shows "wrote h h2 (as @ bs) full"
proof -
  from assms obtain k where "out (h_conn h2) = out (h_conn h) @ as @ take k bs" "full \<longrightarrow> k = length bs"
    by (auto simp: wrote_def)
  then have "\<exists>k. out (h_conn h2) = out (h_conn h) @ take k (as @ bs) \<and> (full \<longrightarrow> k = length (as @ bs))"
    by (intro exI [of _ "length as + k"]) auto
  with assms show ?thesis unfolding wrote_def by auto
qed

lemma wrote_error: "wrote h h1 as False \<Longrightarrow> wrote h h1 (as @ bs) False"
proof -
  assume a: "wrote h h1 as False"
  then obtain k where "out (h_conn h1) = out (h_conn h) @ take k as" by (auto simp: wrote_def)
  then have "\<exists>k. out (h_conn h1) = out (h_conn h) @ take k (as @ bs)" by (intro exI [of _ "min k (length as)"]) (auto simp: min_def)
  with a show ?thesis by (auto simp: wrote_def)
qed

lemma wrote_same: "h_br h0 = h_br h \<Longrightarrow> h_br h1' = h_br h1 \<Longrightarrow> wrote h0 h1' bs e = wrote h h1 bs e"
  by (simp add: wrote_def h_conn_def)

lemma svWrite_spec:
  assumes "encodable f"
  shows "\<exists>e h'. svWrite nc s f h = (e, h') \<and> wrote h h' (frameBytes f) (e = None) \<and> h_os h' = h_os h"
proof -
  let ?c = "nc_setWriteDeadline nc (sv_writeTimeout s) (h_conn h)"
  obtain e c' where wr: "writeAll (nc_write nc) (frameBytes f) ?c = (e, c')" by (metis surj_pair)
  from wside.writeAll_out [OF this] obtain k where "k \<le> length (frameBytes f)"
    "out c' = out ?c @ take k (frameBytes f)" "e = None \<longrightarrow> k = length (frameBytes f)" by blast
  moreover note writeAll_frame [OF wr] setWrite_law [of "sv_writeTimeout s" "h_conn h"]
  moreover have "reliable ?c \<Longrightarrow> reliable c' \<and> e = None"
    using writeAll_reliable [of ?c "frameBytes f"] wr by (metis prod.inject)
  ultimately show ?thesis using wr encodeFrame_encodable [OF assms]
    by (auto simp: svWrite_def writeFrame_def wrote_def onConn_def h_conn_def sock.bcontent_def sock.bok_def)
qed

text \<open>What is certain once the handler is about to return: a prefix went out, everything if writes succeed.\<close>

definition ends :: "'c handler \<Rightarrow> 'c handler \<Rightarrow> byte list \<Rightarrow> bool" where
  "ends h h' bs \<longleftrightarrow> (\<exists>k. out (h_conn h') = out (h_conn h) @ take k bs \<and> (reliable (h_conn h) \<longrightarrow> k = length bs))"

lemma wrote_ends: "wrote h h1 bs e \<Longrightarrow> h_br h' = h_br h1 \<Longrightarrow> ends h h' bs"
  by (auto simp: wrote_def ends_def h_conn_def)

lemma wrote_error_ends: "wrote h h1 bs False \<Longrightarrow> h_br h' = h_br h1 \<Longrightarrow> ends h h' (bs @ cs)"
  by (rule wrote_ends [OF wrote_error])

lemma wrote_then_ends:
  assumes "wrote h h1 as True" "ends h1 h2 bs"
  shows "ends h h2 (as @ bs)"
proof -
  from assms obtain k where "out (h_conn h2) = out (h_conn h) @ as @ take k bs" "reliable (h_conn h) \<longrightarrow> k = length bs"
    by (auto simp: wrote_def ends_def)
  then show ?thesis unfolding ends_def by (intro exI [of _ "length as + k"]) auto
qed

lemma logf_simps [simp]: "h_br (logf s l h) = h_br h" "h_os (logf s l h) = h_os h"
  by (simp_all add: logf_def)

lemma drain_spec:
  "\<exists>h'. drain nc h = Some h' \<and> h_os h' = h_os h \<and> h_log h' = h_log h \<and> out (h_conn h') = out (h_conn h)
     \<and> content (h_conn h') = drop drainBytes (content (h_conn h))
     \<and> ct_readDeadline (ctl (h_conn h')) = Some drainTime
     \<and> ct_halfClosed (ctl (h_conn h')) = (ct_halfClosed (ctl (h_conn h)) \<or> nc_closeWrite nc \<noteq> None)"
proof -
  let ?c1 = "case nc_closeWrite nc of Some f \<Rightarrow> f (h_conn h) | None \<Rightarrow> h_conn h"
  let ?c2 = "nc_setReadDeadline nc drainTime ?c1"
  obtain e c3 where c3: "copyDiscard (nc_read nc) drainBytes ?c2 = Some ((min drainBytes (length (content ?c2)), e), c3)"
    "sock.after drainBytes ?c2 c3" by (rule sock.copyDiscard_spec [OF TrueI])
  have "content ?c1 = content (h_conn h)" "out ?c1 = out (h_conn h)"
    "ct_halfClosed (ctl ?c1) = (ct_halfClosed (ctl (h_conn h)) \<or> nc_closeWrite nc \<noteq> None)"
    using closeWrite_law by (auto split: option.splits)
  then show ?thesis using c3 setRead_law [of drainTime ?c1]
    by (auto simp: drain_def Let_def sock.after_def onConn_def h_conn_def)
qed

lemma fail_spec:
  assumes "length msg \<le> 1000"
  shows "\<exists>h'. fail nc s code msg h = Some h' \<and> h_os h' = h_os h \<and> ends h h' (frameBytes (errorFrame code msg))"
proof -
  let ?f = "errorFrame code msg"
  note ok = errorFrame_sends [OF assms, of code]
  obtain e h1 where w: "svWrite nc s ?f (logf s (LogFail msg) h) = (e, h1)" "wrote h h1 (frameBytes ?f) (e = None)" "h_os h1 = h_os h"
    using svWrite_spec [OF ok [THEN conjunct2], of s "logf s (LogFail msg) h"] wrote_same [of "logf s (LogFail msg) h" h]
    by force
  have f: "\<lparr>fr_type = TypeError, fr_flags = 0, fr_stream = 0, fr_payload = fr_payload ?f\<rparr> = ?f"
    by (simp add: errorFrame_def)
  show ?thesis
  proof (cases e)
    case None
    obtain h2 where "drain nc h1 = Some h2" "h_os h2 = h_os h1" "out (h_conn h2) = out (h_conn h1)"
      using drain_spec [of h1] by blast
    moreover from this w(2) have "ends h h2 (frameBytes ?f)" by (auto simp: wrote_def ends_def)
    ultimately show ?thesis using w None ok f by (simp add: fail_def)
  next
    case (Some x)
    with w ok f show ?thesis by (simp add: fail_def wrote_ends)
  qed
qed

lemma onReadError_spec:
  "\<exists>h'. onReadError nc s err h = Some h' \<and> h_os h' = h_os h \<and> ends h h' (wireOf (readFailure err))"
proof -
  have quiet: "ends h h' []" if "h_br h' = h_br h" for h' :: "'c handler"
    using wrote_refl that wrote_ends by blast
  show ?thesis
    using fail_spec [of "str ''stream id 0 is not valid here''" s CodeInvalidStreamID h]
      fail_spec [of "str ''frame payload is too large''" s CodeFrameTooLarge h]
    by (cases err) (auto simp: onReadError_def readFailure_def quiet split: io_err.splits)
qed

lemma sendResponse_spec:
  assumes "encodeResponse \<lparr>rs_status = status, rs_headers = hs\<rparr> = Inr (fr_payload (responseFrame st status hs fin))"
    "encodable (responseFrame st status hs fin)"
  shows "\<exists>e h'. sendResponse nc s st status hs fin h = (e, h') \<and> writeErr e = e \<and> h_os h' = h_os h
    \<and> wrote h h' (frameBytes (responseFrame st status hs fin)) (e = None)"
proof -
  let ?f = "responseFrame st status hs fin"
  obtain e h' where w: "svWrite nc s ?f h = (e, h')" "wrote h h' (frameBytes ?f) (e = None)" "h_os h' = h_os h"
    using svWrite_spec [OF assms(2), of s h] by blast
  have "sendResponse nc s st status hs fin h = (map_option SendFrame e, h')"
    using w(1) assms(1) by (simp add: sendResponse_def responseFrame_def)
  moreover have "writeErr (map_option SendFrame e) = map_option SendFrame e" by (cases e) (simp_all add: writeErr_def)
  ultimately show ?thesis using w(2,3) by auto
qed

lemma sendStatus_spec:
  assumes "validStatus status" "st \<noteq> 0"
  shows "\<exists>e h'. sendStatus nc s st status h = (e, h') \<and> writeErr e = e \<and> h_os h' = h_os h
    \<and> wrote h h' (frameBytes (statusFrame st status)) (e = None)"
  using sendResponse_spec [OF statusFrame_sends [OF assms(1), of st, unfolded statusFrame_def],
      folded statusFrame_def, OF statusFrame_encodable [OF assms]]
  by (simp add: sendStatus_def)

lemma sendBody_spec:
  assumes "st \<noteq> 0"
  shows "\<exists>n e h'. sendBody nc s st sz left fl h = Some ((n, e), h') \<and> h_os h' = h_os h
    \<and> wrote h h' (wireOf (fst (bodyFrames st (nat left) (fileContent fl)))) (writeErr e = None)
    \<and> (writeErr e = None \<longrightarrow> (e = None) = snd (bodyFrames st (nat left) (fileContent fl)))"
proof (induction "nat left" arbitrary: left fl h rule: less_induct)
  case less
  let ?bs = "fileContent fl"
  let ?m = "min MaxPayload (nat left)"
  note unfold = sendBody.simps [of nc s st sz left fl h] bodyFrames.simps [of st "nat left" ?bs]
  have m: "nat (min (int MaxPayload) left) = ?m" by linarith
  show ?case
  proof (cases "left \<le> 0")
    case True
    then show ?thesis by (simp add: unfold writeErr_def wrote_refl)
  next
    case pos: False
    show ?thesis
    proof (cases "length ?bs < ?m")
      case True
      from osfile.readFull_short [OF TrueI this] obtain x fl' where
        "readFull fileRead ?m fl = Some ((?bs, Some x), fl')" by blast
      with pos True m show ?thesis by (simp add: unfold writeErr_def wrote_refl)
    next
      case False
      then obtain fl' where rd: "readFull fileRead ?m fl = Some ((take ?m ?bs, None), fl')" "osfile.after ?m fl fl'"
        using osfile.readFull_ok [OF TrueI, of ?m fl] by force
      let ?f = "dataFrame st (nat left \<le> MaxPayload) (take ?m ?bs)"
      let ?left = "left - int (length (take ?m ?bs))"
      have len: "length (take ?m ?bs) = ?m" using False by (metis length_take min.absorb2 not_less)
      have "encodable ?f" by (rule dataFrame_encodable) (use assms in simp_all)
      from svWrite_spec [OF this, of s h] obtain e h1 where
        w: "svWrite nc s ?f h = (e, h1)" "wrote h h1 (frameBytes ?f) (e = None)" "h_os h1 = h_os h" by blast
      have f: "\<lparr>fr_type = TypeData, fr_flags = (if ?left = 0 then FlagEndStream else 0), fr_stream = st,
          fr_payload = take ?m ?bs\<rparr> = ?f" using pos len by (auto simp: dataFrame_def)
      have content: "fileContent fl' = drop ?m ?bs" using rd(2) by (simp add: osfile.after_def)
      have nat: "nat ?left = nat left - ?m" using len by linarith
      obtain fs full where rec: "bodyFrames st (nat left - ?m) (drop ?m ?bs) = (fs, full)" by (metis surj_pair)
      have spec: "bodyFrames st (nat left) ?bs = (?f # fs, full)" using pos False rec by (simp add: unfold(2))
      show ?thesis
      proof (cases e)
        case None
        have "nat ?left < nat left" using nat pos by simp
        from less [OF this, of fl' h1] obtain n e' h' where
          "sendBody nc s st sz ?left fl' h1 = Some ((n, e'), h')" "h_os h' = h_os h1"
          "wrote h1 h' (wireOf fs) (writeErr e' = None)" "writeErr e' = None \<longrightarrow> (e' = None) = full"
          unfolding content nat rec by auto
        moreover from this have "wrote h h' (frameBytes ?f @ wireOf fs) (writeErr e' = None)"
          using w(2) None by (simp add: wrote_trans)
        ultimately show ?thesis using pos w None f rd(1) m by (simp add: unfold(1) spec)
      next
        case (Some x)
        have "wrote h h1 (frameBytes ?f @ wireOf fs) False" using w(2) Some by (simp add: wrote_error)
        then show ?thesis using pos w Some f rd(1) m by (simp add: unfold(1) spec writeErr_def)
      qed
    qed
  qed
qed

lemma sendFile_spec:
  assumes "st \<noteq> 0" "0 \<le> fi_size fi" "fi_size fi < 2 ^ 63"
  shows "\<exists>n e h'. sendFile nc s st fl (fi_size fi) (contentType (fi_name fi)) h = Some ((n, e), h') \<and> h_os h' = h_os h
    \<and> wrote h h' (wireOf (fst (fileAnswer st fl fi))) (writeErr e = None)
    \<and> (writeErr e = None \<longrightarrow> (e = None) = snd (fileAnswer st fl fi))"
proof -
  let ?sz = "fi_size fi" and ?ct = "contentType (fi_name fi)"
  obtain fs full where body: "bodyFrames st (nat ?sz) (fileContent fl) = (fs, full)" by (metis surj_pair)
  note head = fileHead_sends [OF assms(2,3) contentType_length [of "fi_name fi"], of st, unfolded fileHead_def]
    fileHead_encodable [OF assms(2,3) contentType_length [of "fi_name fi"] assms(1), unfolded fileHead_def]
  from sendResponse_spec [OF head, of s h, folded fileHead_def] obtain e h1 where
    w: "sendResponse nc s st 200 [NewHeader HeaderContentType ?ct, NewHeader HeaderContentLength (formatInt ?sz),
       NewHeader HeaderServer serverName] (?sz = 0) h = (e, h1)" "writeErr e = e" "h_os h1 = h_os h"
      "wrote h h1 (frameBytes (fileHead st ?ct ?sz)) (e = None)" by blast
  show ?thesis
  proof (cases e)
    case None
    from sendBody_spec [OF assms(1), of s ?sz ?sz fl h1] obtain n e' h' where
      "sendBody nc s st ?sz ?sz fl h1 = Some ((n, e'), h')" "h_os h' = h_os h1"
      "wrote h1 h' (wireOf fs) (writeErr e' = None)" "writeErr e' = None \<longrightarrow> (e' = None) = full"
      unfolding body by auto
    moreover from this have "wrote h h' (frameBytes (fileHead st ?ct ?sz) @ wireOf fs) (writeErr e' = None)"
      using w(4) None by (simp add: wrote_trans)
    ultimately show ?thesis using w None body by (simp add: sendFile_def fileAnswer_def)
  next
    case (Some x)
    have "wrote h h1 (frameBytes (fileHead st ?ct ?sz) @ wireOf fs) False"
      using w(4) Some by (simp add: wrote_error)
    with w Some body show ?thesis by (simp add: sendFile_def fileAnswer_def)
  qed
qed

lemma serveRequest_spec:
  assumes "fr_stream f \<noteq> 0" "statLaw (sv_env s)"
  shows "\<exists>e h' fs full. serveRequest nc s f h = Some (e, h')
    \<and> requestAnswer (sv_env s) (sv_res s) f (h_os h) = ((fs, full), h_os h')
    \<and> wrote h h' (wireOf fs) (writeErr e = None) \<and> (writeErr e = None \<longrightarrow> (e = None) = full)"
proof -
  let ?open = "\<lambda>req. resolverOpen (sv_env s) (sv_res s) (rq_path req) (h_os h)"
  have status: "\<exists>e h'. sendStatus nc s (fr_stream f) c h1 = (e, h') \<and> h_os h' = h_os h1
      \<and> wrote h h' (wireOf [statusFrame (fr_stream f) c]) (writeErr e = None) \<and> (writeErr e = None \<longrightarrow> e = None)"
    if "h_br h1 = h_br h" "c = 400 \<or> c = 404 \<or> c = 500" for h1 c
    using sendStatus_spec [of c "fr_stream f" s h1] that assms(1)
    by (auto simp: validStatus_def wrote_same [OF that(1) refl])
  have rej: "\<exists>e h'. reject nc s (fr_stream f) l h1 = (e, h') \<and> h_os h' = h_os h1
      \<and> wrote h h' (wireOf [statusFrame (fr_stream f) 400]) (writeErr e = None) \<and> (writeErr e = None \<longrightarrow> e = None)"
    if "h_br h1 = h_br h" for h1 l
    using status [of "logf s l h1" 400] that by (simp add: reject_def)
  note unfold = serveRequest_def [unfolded flags_check] requestAnswer_def
  consider (flags) "fr_flags f \<noteq> FlagEndStream" | (payload) e where "fr_flags f = FlagEndStream" "decodeRequest (fr_payload f) = Inl e"
    | (refused) req e os where "fr_flags f = FlagEndStream" "decodeRequest (fr_payload f) = Inr req" "?open req = (Inl e, os)"
    | (found) req fl fi os where "fr_flags f = FlagEndStream" "decodeRequest (fr_payload f) = Inr req" "?open req = (Inr (fl, fi), os)"
    by (metis old.sum.exhaust surj_pair)
  then show ?thesis
  proof cases
    case flags
    then show ?thesis using rej [of h LogBadFlags] by (auto simp: unfold)
  next
    case (payload e)
    then show ?thesis using rej [of h "LogBadPayload e"] by (auto simp: unfold)
  next
    case (refused req e os)
    then show ?thesis
      using rej [of "h\<lparr>h_os := os\<rparr>" LogBadPath]
        status [of "logf s (LogGet (rq_path req) 404) (h\<lparr>h_os := os\<rparr>)" 404]
        status [of "logf s (LogGetFailed (rq_path req) e) (h\<lparr>h_os := os\<rparr>)" 500]
      by (cases e) (auto simp: unfold)
  next
    case (found req fl fi os)
    from sendFile_spec [OF assms(1) resolverOpen_stat [OF assms(2) found(3), THEN conjunct1]
        resolverOpen_stat [OF assms(2) found(3), THEN conjunct2], of s fl "h\<lparr>h_os := os\<rparr>"]
    obtain n e h1 where
      "sendFile nc s (fr_stream f) fl (fi_size fi) (contentType (fi_name fi)) (h\<lparr>h_os := os\<rparr>) = Some ((n, e), h1)"
      "h_os h1 = os" "wrote h h1 (wireOf (fst (fileAnswer (fr_stream f) fl fi))) (writeErr e = None)"
      "writeErr e = None \<longrightarrow> (e = None) = snd (fileAnswer (fr_stream f) fl fi)"
      by (auto simp: wrote_same [of "h\<lparr>h_os := os\<rparr>" h, OF _ refl])
    moreover obtain fs full where "fileAnswer (fr_stream f) fl fi = (fs, full)" by (metis surj_pair)
    ultimately show ?thesis using found
      by (auto simp: unfold Let_def wrote_def h_conn_def)
  qed
qed

lemma onServeError_spec:
  assumes "wrote h h1 bs (writeErr e = None)" "e = Some x"
  shows "\<exists>h'. onServeError nc s x h1 = Some h' \<and> h_os h' = h_os h1
    \<and> ends h h' (bs @ frameBytes bodyFailed)"
proof (cases x)
  case (BodyError y)
  with assms have w: "wrote h h1 bs True" by (simp add: writeErr_def)
  have w': "wrote h (logf s (LogBodyFailed x) h1) bs True" using w by (simp add: wrote_same [OF refl, of "logf s (LogBodyFailed x) h1" h1])
  obtain h' where "fail nc s CodeProtocolError (str ''could not finish sending the response'') (logf s (LogBodyFailed x) h1) = Some h'"
    "h_os h' = h_os h1" "ends (logf s (LogBodyFailed x) h1) h' (frameBytes bodyFailed)"
    using fail_spec [of "str ''could not finish sending the response''" s CodeProtocolError "logf s (LogBodyFailed x) h1"]
    by (auto simp: bodyFailed_def)
  moreover from wrote_then_ends [OF w' this(3)] have "ends h h' (bs @ frameBytes bodyFailed)" .
  ultimately show ?thesis using BodyError by (simp add: onServeError_def)
qed (use assms in \<open>auto simp: onServeError_def writeErr_def intro!: wrote_error_ends\<close>)

text \<open>One turn of the loop: the answer goes out and the loop goes on, or the handler is done.\<close>

lemma onFrame_spec:
  assumes "known (fr_type f)" "encodable f" "statLaw (sv_env s)"
    and ans: "answer (sv_env s) (sv_res s) f (h_os h) = ((fs, goes), os')"
  shows "\<exists>h'. onFrame nc s f h = Some (True, h') \<and> h_os h' = os' \<and> goes \<and> wrote h h' (wireOf fs) True
    \<or> onFrame nc s f h = Some (False, h') \<and> h_os h' = os' \<and> \<not> goes \<and> ends h h' (wireOf fs)
    \<or> onFrame nc s f h = Some (False, h') \<and> h_os h' = os' \<and> goes \<and> wrote h h' (wireOf fs) False"
proof -
  consider (req) "fr_type f = TypeRequest" | (resp) "fr_type f \<noteq> TypeRequest" "fr_type f = TypeResponse \<or> fr_type f = TypeData"
    | (err) "fr_type f = TypeError"
    using known_cases [OF assms(1)] by blast
  then show ?thesis
  proof cases
    case req
    then have st: "fr_stream f \<noteq> 0" using assms(2) by (simp add: encodable_def needsStream_def type_defs)
    from serveRequest_spec [OF st assms(3), of h] obtain e h1 gs full where sr: "serveRequest nc s f h = Some (e, h1)"
      "requestAnswer (sv_env s) (sv_res s) f (h_os h) = ((gs, full), h_os h1)"
      "wrote h h1 (wireOf gs) (writeErr e = None)" "writeErr e = None \<longrightarrow> (e = None) = full" by metis
    show ?thesis
    proof (cases e)
      case None
      with sr ans req show ?thesis by (auto simp: onFrame_def answer_def writeErr_def)
    next
      case (Some x)
      from onServeError_spec [OF sr(3) Some, of s] obtain h2 where "onServeError nc s x h1 = Some h2" "h_os h2 = h_os h1"
        "ends h h2 (wireOf gs @ frameBytes bodyFailed)" by blast
      note h2 = this
      show ?thesis
      proof (cases full)
        case True
        with sr(4) Some have err: "writeErr e \<noteq> None" by auto
        then have "h_br h2 = h_br h1" using h2(1) Some by (auto simp: onServeError_def writeErr_def split: serve_err.splits)
        from wrote_same [OF refl this, of h] sr(3) err have "wrote h h2 (wireOf gs) False" by simp
        with sr ans req Some h2 True show ?thesis by (auto simp: onFrame_def answer_def)
      next
        case False
        with sr ans req Some h2 show ?thesis by (auto simp: onFrame_def answer_def)
      qed
    qed
  next
    case resp
    then have st: "fr_stream f \<noteq> 0" using assms(2) by (auto simp: encodable_def needsStream_def type_defs)
    from sendStatus_spec [OF _ st, of 400 s h] obtain e h1 where "sendStatus nc s (fr_stream f) 400 h = (e, h1)"
      "h_os h1 = h_os h" "wrote h h1 (frameBytes (statusFrame (fr_stream f) 400)) (e = None)" by (auto simp: validStatus_def)
    with resp ans show ?thesis
      by (cases e) (auto simp: onFrame_def answer_def wrote_same [OF refl, of "logf s l h1" h1 for l])
  next
    case err
    with ans wrote_ends [OF wrote_refl, of "logf s LogErrorFrame h" h "logf s LogErrorFrame h"] show ?thesis
      by (simp add: onFrame_def answer_def type_defs)
  qed
qed

lemma onFrame_cases:
  assumes "known (fr_type f)" "encodable f" "statLaw (sv_env s)"
    and "answer (sv_env s) (sv_res s) f (h_os h) = ((fs, goes), os')"
  obtains (on) h' where "onFrame nc s f h = Some (True, h')" "h_os h' = os'" "goes" "wrote h h' (wireOf fs) True"
    | (stop) h' where "onFrame nc s f h = Some (False, h')" "h_os h' = os'" "\<not> goes" "ends h h' (wireOf fs)"
    | (broken) h' where "onFrame nc s f h = Some (False, h')" "h_os h' = os'" "goes" "wrote h h' (wireOf fs) False"
  using onFrame_spec [OF assms] by (elim exE disjE conjE)

text \<open>Reading the next frame, under the idle deadline.\<close>

lemma nextFrame:
  assumes "sock.bok (h_br h)" "parseFrame (ending (h_conn h)) (sock.bcontent (h_br h)) = (res, later)"
  obtains h2 where "handleLoop nc s h = (case res of
         Inl err \<Rightarrow> onReadError nc s err h2
       | Inr f \<Rightarrow> (case onFrame nc s f h2 of
              None \<Rightarrow> None
            | Some (goesOn, h3) \<Rightarrow> if goesOn then handleLoop nc s h3 else Some h3))"
    "sock.bok (h_br h2)" "sock.bcontent (h_br h2) = later" "ending (h_conn h2) = ending (h_conn h)"
    "out (h_conn h2) = out (h_conn h)" "reliable (h_conn h2) = reliable (h_conn h)" "h_os h2 = h_os h"
proof -
  let ?h1 = "onConn (nc_setReadDeadline nc (sv_idleTimeout s)) h"
  have h1: "sock.bok (h_br ?h1)" "sock.bcontent (h_br ?h1) = sock.bcontent (h_br h)" "ending (bf_rd (h_br ?h1)) = ending (h_conn h)"
    "out (bf_rd (h_br ?h1)) = out (h_conn h)" "reliable (bf_rd (h_br ?h1)) = reliable (h_conn h)" "h_os ?h1 = h_os h"
    using assms(1) setRead_law [of "sv_idleTimeout s" "h_conn h"]
    by (simp_all add: onConn_def h_conn_def sock.bok_def sock.bcontent_def)
  from sock.buf.readFrame_refines [OF h1(1), unfolded h1(2-5) assms(2)] obtain br where
    br: "readFrame (bufioRead (nc_read nc)) (h_br ?h1) = Some (res, br)" "sock.bok br"
      "sock.bcontent br = later" "ending (bf_rd br) = ending (h_conn h)"
      "out (bf_rd br) = out (h_conn h)" "reliable (bf_rd br) = reliable (h_conn h)"
    by auto
  then show ?thesis using h1 by (intro that [of "?h1\<lparr>h_br := br\<rparr>"]) (simp_all add: handleLoop.simps [of nc s h] Let_def h_conn_def)
qed

lemma ends_cong: "out (h_conn h2) = out (h_conn h) \<Longrightarrow> reliable (h_conn h2) = reliable (h_conn h) \<Longrightarrow> ends h2 h' bs = ends h h' bs"
  by (simp add: ends_def)

lemma handleLoop_refines:
  assumes "sock.bok (h_br h)" "statLaw (sv_env s)"
    and "serverSpec (sv_env s) (sv_res s) (ending (h_conn h)) (h_os h) (sock.bcontent (h_br h)) = (fs, os')"
  shows "\<exists>h'. handleLoop nc s h = Some h' \<and> ends h h' (wireOf fs)
    \<and> (reliable (h_conn h) \<longrightarrow> h_os h' = os') \<and> os_handles (h_os h') = os_handles (h_os h)"
  using assms(1,3)
proof (induction "length (sock.bcontent (h_br h))" arbitrary: h fs os' rule: less_induct)
  case less
  obtain res later where parse: "parseFrame (ending (h_conn h)) (sock.bcontent (h_br h)) = (res, later)" by (metis surj_pair)
  obtain h2 where run: "handleLoop nc s h = (case res of
         Inl err \<Rightarrow> onReadError nc s err h2
       | Inr f \<Rightarrow> (case onFrame nc s f h2 of
              None \<Rightarrow> None
            | Some (goesOn, h3) \<Rightarrow> if goesOn then handleLoop nc s h3 else Some h3))"
    and h2: "sock.bok (h_br h2)" "sock.bcontent (h_br h2) = later" "ending (h_conn h2) = ending (h_conn h)"
    "out (h_conn h2) = out (h_conn h)" "reliable (h_conn h2) = reliable (h_conn h)" "h_os h2 = h_os h"
    by (rule nextFrame [OF less.prems(1) parse])
  note ends2 = ends_cong [OF h2(4,5)]
  show ?case
  proof (cases res)
    case (Inl err)
    obtain h' where "onReadError nc s err h2 = Some h'" "h_os h' = h_os h2" "ends h2 h' (wireOf (readFailure err))"
      using onReadError_spec [of s err h2] by blast
    with Inl less.prems(2) run show ?thesis by (simp add: serverSpec.simps [of _ _ _ _ "sock.bcontent (h_br h)"] parse h2 ends2)
  next
    case (Inr f)
    obtain gs goes os1 hs os2 where ans: "answer (sv_env s) (sv_res s) f (h_os h2) = ((gs, goes), os1)"
      and rec: "serverSpec (sv_env s) (sv_res s) (ending (h_conn h)) os1 later = (hs, os2)" by (metis surj_pair)
    have spec: "fs = gs @ (if goes then hs else [])" "os' = (if goes then os2 else os1)"
      using less.prems(2) Inr ans rec parse h2(6) by (cases goes; simp add: serverSpec.simps [of _ _ _ _ "sock.bcontent (h_br h)"])+
    note handles = answer_handles [OF ans]
    from parse_Inr_wf [OF parse [unfolded Inr]] have wf: "known (fr_type f)" "encodable f" by auto
    from wf assms(2) ans show ?thesis
    proof (cases rule: onFrame_cases)
      case (on h3)
      then have h3: "sock.bok (h_br h3)" "sock.bcontent (h_br h3) = later" "ending (h_conn h3) = ending (h_conn h)"
        "reliable (h_conn h) \<longrightarrow> reliable (h_conn h3)"
        using h2 by (simp_all add: wrote_def)
      have "length (sock.bcontent (h_br h3)) < length (sock.bcontent (h_br h))"
        using parse_Inr_shorter [OF parse [unfolded Inr]] h3(2) by simp
      from less.hyps [OF this h3(1), unfolded h3(2,3) on(2), OF rec] h3(4) obtain h' where
        h': "handleLoop nc s h3 = Some h'" "ends h3 h' (wireOf hs)"
        "reliable (h_conn h) \<longrightarrow> h_os h' = os2" "os_handles (h_os h') = os_handles os1" by blast
      with wrote_then_ends [OF on(4) h'(2)] show ?thesis using run on Inr spec handles h2 by (simp add: ends2)
    next
      case (stop h3)
      then show ?thesis using run Inr spec handles h2 by (simp add: ends2)
    next
      case (broken h3)
      then show ?thesis using run Inr spec handles h2 wrote_error_ends [OF broken(4) refl, of "wireOf hs"]
        by (simp add: ends2 wrote_def)
    qed
  qed
qed

lemma handle_refines:
  assumes "statLaw (sv_env s)" "serverSpec (sv_env s) (sv_res s) (ending c) os (content c) = (fs, os')"
  shows "\<exists>h k. handle nc s os c = Some h \<and> out (h_conn h) = out c @ take k (wireOf fs)
    \<and> (reliable c \<longrightarrow> k = length (wireOf fs) \<and> h_os h = os')
    \<and> os_handles (h_os h) = os_handles os \<and> ct_closed (ctl (h_conn h))"
proof -
  let ?h0 = "logf s LogConnected \<lparr>h_br = bufioNew c, h_os = os, h_log = []\<rparr>"
  have h0: "h_br ?h0 = bufioNew c" "h_os ?h0 = os" by simp_all
  from handleLoop_refines [of ?h0 s fs os'] assms obtain h where
    "handleLoop nc s ?h0 = Some h" "ends ?h0 h (wireOf fs)" "reliable c \<longrightarrow> h_os h = os'" "os_handles (h_os h) = os_handles os"
    unfolding h0 by (auto simp: h_conn_def)
  then show ?thesis using close_law by (auto simp: handle_def onConn_def h_conn_def ends_def)
qed

end

end
