(* ===== verification/Server_Props.thy ===== *)
theory Server_Props
  imports Server_Spec
begin

text \<open>
  The properties of a server connection, over TCP. They follow from the refinement of
  \<open>Server_Spec\<close>: first the refinement itself, then what the specification says about each kind of
  input.
\<close>

text \<open>A fresh connection that takes everything we write.\<close>

lemma tcp_handle_fresh:
  assumes "statLaw (sv_env s)" "serverSpec (sv_env s) (sv_res s) e os (concat chunks) = (fs, os')"
  shows "\<exists>h. handle tcp_net_conn s os (tcp_open chunks e None) = Some h \<and> tcp_out (h_conn h) = wireOf fs \<and> h_os h = os'"
  using tcp.handle_refines [of s "tcp_open chunks e None" os fs os'] assms by auto

subsection \<open>The shape of an answer\<close>

text \<open>
  A complete response on a stream: one RESPONSE, then DATA frames that are never empty, all on that
  stream, with END_STREAM on the last frame and on no other.
\<close>

definition dataOn :: "u32 \<Rightarrow> frame \<Rightarrow> bool" where
  "dataOn st g \<longleftrightarrow> fr_type g = TypeData \<and> fr_stream g = st \<and> fr_payload g \<noteq> [] \<and> length (fr_payload g) \<le> MaxPayload"

definition completeResponse :: "u32 \<Rightarrow> frame list \<Rightarrow> bool" where
  "completeResponse st fs \<longleftrightarrow> (\<exists>head datas. fs = head # datas \<and> fr_type head = TypeResponse \<and> fr_stream head = st
     \<and> (\<exists>resp. decodeResponse (fr_payload head) = Inr resp)
     \<and> list_all (dataOn st) datas \<and> list_all (\<lambda>g. \<not> endsStream g) (butlast fs) \<and> endsStream (last fs))"

lemma endsStream_simps [simp]:
  "endsStream (dataFrame st fin bs) = fin" "endsStream (responseFrame st status hs fin) = fin"
  "\<not> endsStream (errorFrame code msg)"
  by (simp_all add: endsStream_def Has_def dataFrame_def responseFrame_def errorFrame_def FlagEndStream_def)

lemma body_shape:
  "bodyFrames st n bs = (fs, full) \<Longrightarrow> list_all (dataOn st) fs \<and> full = (n \<le> length bs)
    \<and> list_all (\<lambda>g. \<not> endsStream g) (butlast fs) \<and> (fs \<noteq> [] \<longrightarrow> endsStream (last fs) = full)
    \<and> (full \<longrightarrow> concat (map fr_payload fs) = take n bs \<and> (fs = [] \<longleftrightarrow> n = 0))"
proof (induction st n bs arbitrary: fs full rule: bodyFrames.induct)
  case (1 st n bs)
  let ?m = "min MaxPayload n"
  show ?case
  proof (cases "n = 0 \<or> length bs < ?m")
    case True
    with "1.prems" show ?thesis by (auto simp: bodyFrames.simps [of st n])
  next
    case False
    obtain gs where rec: "bodyFrames st (n - ?m) (drop ?m bs) = (gs, full)" and fs: "fs = dataFrame st (n \<le> MaxPayload) (take ?m bs) # gs"
      using "1.prems" False by (auto simp: bodyFrames.simps [of st n bs] split: prod.splits)
    from "1.IH" [OF _ _ rec] False have IH: "list_all (dataOn st) gs" "full = (n - ?m \<le> length (drop ?m bs))"
      "list_all (\<lambda>g. \<not> endsStream g) (butlast gs)" "gs \<noteq> [] \<longrightarrow> endsStream (last gs) = full"
      "full \<longrightarrow> concat (map fr_payload gs) = take (n - ?m) (drop ?m bs)" "full \<longrightarrow> (gs = [] \<longleftrightarrow> n - ?m = 0)" by auto
    have full: "full = (n \<le> length bs)" using IH(2) False by auto
    have gs: "gs = [] \<Longrightarrow> full = (n \<le> MaxPayload)" "n \<le> MaxPayload \<Longrightarrow> gs = []"
      using IH(6) full False rec by (auto simp: bodyFrames.simps [of st "n - ?m"] split: if_splits)
    have "concat (map fr_payload fs) = take n bs" if full
      using IH(5) that fs take_add [of ?m "n - ?m" bs] by (simp add: dataFrame_def)
    moreover have "dataOn st (hd fs)" using False fs by (auto simp: dataOn_def dataFrame_def)
    ultimately show ?thesis using IH(1,3,4) gs full fs False by auto
  qed
qed

lemma statusFrame_decodes:
  "validStatus c \<Longrightarrow> decodeResponse (fr_payload (statusFrame st c)) = Inr \<lparr>rs_status = c, rs_headers =
      [NewHeader HeaderContentLength (str ''0''), NewHeader HeaderServer serverName]\<rparr>"
  using statusFrame_ok [of c st] decodeResponse_bytes by (simp add: statusFrame_def responseFrame_def)

lemma status_complete: "validStatus c \<Longrightarrow> completeResponse st [statusFrame st c]"
  using statusFrame_decodes [of c st]
  by (simp add: completeResponse_def) (simp add: statusFrame_def responseFrame_def endsStream_def Has_def)

lemma fileHead_decodes:
  assumes "0 \<le> sz" "sz < 2 ^ 63" "length ctype \<le> 24"
  shows "decodeResponse (fr_payload (fileHead st ctype sz)) = Inr \<lparr>rs_status = 200, rs_headers =
      [NewHeader HeaderContentType ctype, NewHeader HeaderContentLength (formatInt sz), NewHeader HeaderServer serverName]\<rparr>"
  using fileHead_ok [OF assms, of st] decodeResponse_bytes by (simp add: fileHead_def responseFrame_def)

lemma file_complete:
  assumes "0 \<le> fi_size fi" "fi_size fi < 2 ^ 63" "fileAnswer st fl fi = (fs, full)"
  shows "full = (nat (fi_size fi) \<le> length (fileContent fl))"
    and "full \<Longrightarrow> completeResponse st fs \<and> concat (map fr_payload (tl fs)) = take (nat (fi_size fi)) (fileContent fl)"
    and "\<not> full \<Longrightarrow> list_all (\<lambda>g. \<not> endsStream g) fs"
proof -
  let ?n = "nat (fi_size fi)"
  obtain gs where gs: "bodyFrames st ?n (fileContent fl) = (gs, full)" "fs = fileHead st (contentType (fi_name fi)) (fi_size fi) # gs"
    using assms(3) by (auto simp: fileAnswer_def split: prod.splits)
  note shape = body_shape [OF gs(1)]
  have ends: "endsStream (hd fs) = (?n = 0)" using gs(2) assms(1) by (simp add: fileHead_def)
  have head: "fr_type (hd fs) = TypeResponse" "fr_stream (hd fs) = st" "\<exists>resp. decodeResponse (fr_payload (hd fs)) = Inr resp"
    using gs(2) fileHead_decodes [OF assms(1,2) contentType_length] by (simp_all add: fileHead_def responseFrame_def)
  show "full = (?n \<le> length (fileContent fl))" using shape by blast
  show "completeResponse st fs \<and> concat (map fr_payload (tl fs)) = take ?n (fileContent fl)" if full
    using shape that gs(2) head ends by (auto simp: completeResponse_def)
  show "list_all (\<lambda>g. \<not> endsStream g) fs" if "\<not> full"
  proof -
    have "0 < ?n" using that shape by auto
    moreover have "list_all (\<lambda>g. \<not> endsStream g) gs" using shape that
      by (cases gs rule: rev_cases) auto
    ultimately show ?thesis using gs(2) ends by simp
  qed
qed

text \<open>A frame whose answer is complete leaves the rest of the conversation as if it had not been there.\<close>

lemma serverSpec_frame:
  assumes "known (fr_type f)" "encodable f" "answer env r f os = ((gs, goes), os1)"
  shows "serverSpec env r e os (frameBytes f @ later) =
    (if goes then (gs @ fst (serverSpec env r e os1 later), snd (serverSpec env r e os1 later)) else (gs, os1))"
  using assms by (cases goes)
    (simp_all add: serverSpec.simps [of _ _ _ _ "frameBytes f @ later"] parse_frameBytes split: prod.splits)

lemma tcp_handle_frame:
  assumes "statLaw (sv_env s)" "known (fr_type f)" "encodable f" "concat chunks = frameBytes f @ concat chunks'"
    "answer (sv_env s) (sv_res s) f os = ((gs, goes), os1)"
  shows "\<exists>h h'. handle tcp_net_conn s os (tcp_open chunks e None) = Some h
    \<and> handle tcp_net_conn s os1 (tcp_open chunks' e None) = Some h'
    \<and> tcp_out (h_conn h) = wireOf gs @ (if goes then tcp_out (h_conn h') else [])"
proof -
  obtain hs os2 where rec: "serverSpec (sv_env s) (sv_res s) e os1 (concat chunks') = (hs, os2)" by (metis surj_pair)
  have "serverSpec (sv_env s) (sv_res s) e os (concat chunks) = (gs @ (if goes then hs else []), if goes then os2 else os1)"
    unfolding assms(4) using serverSpec_frame [OF assms(2,3,5), of e "concat chunks'"] rec by simp
  from tcp_handle_fresh [OF assms(1) this] tcp_handle_fresh [OF assms(1) rec] show ?thesis by (cases goes) auto
qed

text \<open>The answer to a REQUEST frame is complete, or never carries END_STREAM.\<close>

lemma requestAnswer_shape:
  assumes "statLaw env" "requestAnswer env r f os = ((gs, full), os')"
  shows "full \<and> completeResponse (fr_stream f) gs \<or> \<not> full \<and> list_all (\<lambda>g. \<not> endsStream g) gs"
proof (cases "\<exists>req fl fi os1. fr_flags f = FlagEndStream \<and> decodeRequest (fr_payload f) = Inr req
    \<and> resolverOpen env r (rq_path req) os = (Inr (fl, fi), os1)")
  case True
  then obtain fl fi where "fileAnswer (fr_stream f) fl fi = (gs, full)" "0 \<le> fi_size fi" "fi_size fi < 2 ^ 63"
    using assms(2) resolverOpen_stat [OF assms(1)] by (fastforce simp: requestAnswer_def)
  with file_complete [of fi "fr_stream f" fl gs full] show ?thesis by blast
next
  case False
  then have "full" "gs = [statusFrame (fr_stream f) 400] \<or> gs = [statusFrame (fr_stream f) 404] \<or> gs = [statusFrame (fr_stream f) 500]"
    using assms(2) by (auto simp: requestAnswer_def split: if_splits sum.splits prod.splits)
  then show ?thesis using status_complete by (auto simp: validStatus_def)
qed

lemma resolverOpen_bad: "checkPath p \<noteq> Inr () \<Longrightarrow> resolverOpen env r p os = (Inl errBadPath, os)"
  by (cases "checkPath p") (auto simp: resolverOpen_def dest: checkPath_Inl)

lemma request_known: "fr_type f = TypeRequest \<Longrightarrow> known (fr_type f)"
  by (simp add: known_def type_defs)

text \<open>A server over the file system \<open>demoEnv\<close>, whose \<^verbatim>\<open>/a\<close> is the file \<^verbatim>\<open>AB\<close>, and requests to it.\<close>

definition demoServer :: server_cfg where
  "demoServer = \<lparr>sv_env = demoEnv, sv_res = \<lparr>res_root = str ''/srv''\<rparr>, sv_idleTimeout = defaultIdleTimeout,
     sv_writeTimeout = defaultWriteTimeout, sv_logging = True\<rparr>"

definition getFrame :: "u32 \<Rightarrow> byte list \<Rightarrow> frame" where
  "getFrame st path = \<lparr>fr_type = TypeRequest, fr_flags = FlagEndStream, fr_stream = st,
     fr_payload = requestBytes \<lparr>rq_method = MethodGet, rq_path = path, rq_headers = []\<rparr>\<rparr>"

lemma demoServer_law: "statLaw (sv_env demoServer)"
  by (simp add: statLaw_def demoServer_def demoEnv_def)

lemma demoServer_simps [simp]: "sv_env demoServer = demoEnv" "sv_res demoServer = \<lparr>res_root = str ''/srv''\<rparr>"
  by (simp_all add: demoServer_def)

lemma getFrame_wf:
  "st \<noteq> 0 \<Longrightarrow> length path \<le> 4096 \<Longrightarrow> known (fr_type (getFrame st path)) \<and> encodable (getFrame st path)"
  by (simp add: getFrame_def known_def encodable_def type_defs requestBytes_def headerBlock_def)

lemma getFrame_decodes:
  "path \<noteq> [] \<Longrightarrow> length path \<le> 4096 \<Longrightarrow> utf8Valid path \<Longrightarrow>
   decodeRequest (fr_payload (getFrame st path)) = Inr \<lparr>rq_method = MethodGet, rq_path = path, rq_headers = []\<rparr>"
  using decodeRequest_bytes [of "\<lparr>rq_method = MethodGet, rq_path = path, rq_headers = []\<rparr>"]
  by (simp add: getFrame_def requestOk_def validUTF8_def)

lemma getFrame_simps [simp]:
  "fr_type (getFrame st path) = TypeRequest" "fr_flags (getFrame st path) = FlagEndStream" "fr_stream (getFrame st path) = st"
  by (simp_all add: getFrame_def)

abbreviation demoFile :: os_file where
  "demoFile \<equiv> \<lparr>fl_path = str ''/srv/data/a'', fl_chunks = [[65, 66]], fl_end = EOF\<rparr>"

abbreviation demoInfo :: file_info where
  "demoInfo \<equiv> \<lparr>fi_name = str ''a'', fi_size = 2, fi_regular = True\<rparr>"

lemma demo_open: "resolverOpen demoEnv \<lparr>res_root = str ''/srv''\<rparr> (str ''/a'') demoState =
    (Inr (demoFile, demoInfo), demoState\<lparr>os_tick := 4, os_handles := 1\<rparr>)"
  by (simp add: resolver_eval filepath_eval demoEnv_def demoState_def)

lemma demo_body: "fileAnswer st demoFile demoInfo =
    ([fileHead st (str ''application/octet-stream'') 2, dataFrame st True [65, 66]], True)"
  by (simp add: fileAnswer_def bodyFrames.simps fileContent_def contentType_def contentTypes_def fpExt_def)

lemma demo_answer:
  "answer demoEnv \<lparr>res_root = str ''/srv''\<rparr> (getFrame 1 (str ''/a'')) demoState =
    (([fileHead 1 (str ''application/octet-stream'') 2, dataFrame 1 True [65, 66]], True), demoState\<lparr>os_tick := 4\<rparr>)"
proof -
  have "decodeRequest (fr_payload (getFrame 1 (str ''/a''))) = Inr \<lparr>rq_method = MethodGet, rq_path = str ''/a'', rq_headers = []\<rparr>"
    by (rule getFrame_decodes) simp_all
  moreover have "osClose (demoState\<lparr>os_tick := 4, os_handles := 1\<rparr>) = demoState\<lparr>os_tick := 4\<rparr>"
    by (simp add: osClose_def demoState_def)
  ultimately show ?thesis by (simp add: answer_def requestAnswer_def demo_open demo_body del: str_Cons)
qed

lemma demo_spec: "serverSpec demoEnv \<lparr>res_root = str ''/srv''\<rparr> EOF demoState (frameBytes (getFrame 1 (str ''/a''))) =
    ([fileHead 1 (str ''application/octet-stream'') 2, dataFrame 1 True [65, 66]], demoState\<lparr>os_tick := 4\<rparr>)"
  using serverSpec_frame [OF _ _ demo_answer, of EOF "[]"] getFrame_wf [of 1 "str ''/a''"]
  by (simp add: serverSpec.simps [of _ _ _ _ "[]"] parseFrame.simps [of _ "[]"] readFailure_def)

subsection \<open>Properties\<close>

text \<open>
  C2. A connection does what the protocol says. On a connection whose writes succeed, however its bytes
  are cut into reads, the handler returns, has sent exactly the frames of \<open>serverSpec\<close> in that order
  and nothing else, and has closed the connection.
\<close>
theorem server_refines_spec:
  assumes "statLaw (sv_env s)" and "tcp_reliable c"
    and "serverSpec (sv_env s) (sv_res s) (tcp_ending c) os (tcp_content c) = (fs, os')"
  shows "\<exists>h. handle tcp_net_conn s os c = Some h \<and> tcp_out (h_conn h) = tcp_out c @ wireOf fs
    \<and> h_os h = os' \<and> ct_closed (tcp_ctl (h_conn h))"
  using tcp.handle_refines [OF assms(1,3)] assms(2) by auto

theorem server_refines_spec_witness:
  "\<exists>h. handle tcp_net_conn demoServer demoState
        (tcp_open [take 5 (frameBytes (getFrame 1 (str ''/a''))), drop 5 (frameBytes (getFrame 1 (str ''/a'')))] EOF None) = Some h
    \<and> tcp_out (h_conn h) = wireOf [fileHead 1 (str ''application/octet-stream'') 2, dataFrame 1 True [65, 66]]
    \<and> h_os h = demoState\<lparr>os_tick := 4\<rparr> \<and> ct_closed (tcp_ctl (h_conn h))"
proof -
  let ?b = "frameBytes (getFrame 1 (str ''/a''))"
  let ?c = "tcp_open [take 5 ?b, drop 5 ?b] EOF None"
  have "serverSpec (sv_env demoServer) (sv_res demoServer) (tcp_ending ?c) demoState (tcp_content ?c) =
      ([fileHead 1 (str ''application/octet-stream'') 2, dataFrame 1 True [65, 66]], demoState\<lparr>os_tick := 4\<rparr>)"
    using demo_spec by (simp del: str_Cons)
  from server_refines_spec [OF demoServer_law _ this] show ?thesis by (simp del: str_Cons)
qed

text \<open>
  C15. Whatever the network does, the handler ends in order. Writes may fail or stop short at any byte:
  the handler still returns, the bytes it sent are a prefix of what it should have sent, every file
  it opened is closed again and so is the connection.
\<close>
theorem server_always_returns:
  assumes "statLaw (sv_env s)"
  shows "\<exists>h k. handle tcp_net_conn s os c = Some h
    \<and> tcp_out (h_conn h) = tcp_out c @ take k (wireOf (fst (serverSpec (sv_env s) (sv_res s) (tcp_ending c) os (tcp_content c))))
    \<and> os_handles (h_os h) = os_handles os \<and> ct_closed (tcp_ctl (h_conn h))"
  using tcp.handle_refines [OF assms, of c os] by (metis prod.collapse)

theorem server_always_returns_witness:
  "\<exists>h k. handle tcp_net_conn demoServer demoState (tcp_open [frameBytes (getFrame 1 (str ''/a''))] EOF (Some 20)) = Some h
    \<and> tcp_out (h_conn h) = take k (wireOf [fileHead 1 (str ''application/octet-stream'') 2, dataFrame 1 True [65, 66]])
    \<and> os_handles (h_os h) = 0 \<and> ct_closed (tcp_ctl (h_conn h))"
  using server_always_returns [OF demoServer_law, of demoState "tcp_open [frameBytes (getFrame 1 (str ''/a''))] EOF (Some 20)"]
    demo_spec by (simp add: demoState_def del: str_Cons)

text \<open>
  C16. Every request gets exactly one complete response before the next frame is looked at, or the
  connection ends. What a REQUEST frame causes to be sent is either one RESPONSE and its DATA
  frames, all on the stream of the request, none empty, with END_STREAM on the last frame only, after
  which the conversation continues as if the request had not been there; or frames without any
  END_STREAM, then an ERROR frame, and nothing more.
\<close>
theorem request_one_response:
  assumes "statLaw (sv_env s)" and "fr_type f = TypeRequest" and "encodable f"
    and "concat chunks = frameBytes f @ concat chunks'"
  shows "\<exists>h fs. handle tcp_net_conn s os (tcp_open chunks e None) = Some h \<and>
    (completeResponse (fr_stream f) fs \<and>
       (\<exists>os' h'. handle tcp_net_conn s os' (tcp_open chunks' e None) = Some h' \<and> os_handles os' = os_handles os
          \<and> tcp_out (h_conn h) = wireOf fs @ tcp_out (h_conn h'))
     \<or> list_all (\<lambda>g. \<not> endsStream g) fs \<and> tcp_out (h_conn h) = wireOf (fs @ [bodyFailed]))"
proof -
  obtain gs full os' where req: "requestAnswer (sv_env s) (sv_res s) f os = ((gs, full), os')" by (metis surj_pair)
  then have ans: "answer (sv_env s) (sv_res s) f os = ((if full then gs else gs @ [bodyFailed], full), os')"
    using assms(2) by (simp add: answer_def)
  from tcp_handle_frame [OF assms(1) request_known [OF assms(2)] assms(3,4) ans, of e] obtain h h' where
    "handle tcp_net_conn s os (tcp_open chunks e None) = Some h" "handle tcp_net_conn s os' (tcp_open chunks' e None) = Some h'"
    "tcp_out (h_conn h) = wireOf (if full then gs else gs @ [bodyFailed]) @ (if full then tcp_out (h_conn h') else [])" by blast
  then show ?thesis using requestAnswer_shape [OF assms(1) req] requestAnswer_handles [OF req]
    by (intro exI [of _ h] exI [of _ gs]) auto
qed

theorem request_one_response_witness:
  "\<exists>h fs. handle tcp_net_conn demoServer demoState (tcp_open [frameBytes (getFrame 1 (str ''/a''))] EOF None) = Some h \<and>
    (completeResponse 1 fs \<and>
       (\<exists>os' h'. handle tcp_net_conn demoServer os' (tcp_open [] EOF None) = Some h' \<and> os_handles os' = 0
          \<and> tcp_out (h_conn h) = wireOf fs @ tcp_out (h_conn h'))
     \<or> list_all (\<lambda>g. \<not> endsStream g) fs \<and> tcp_out (h_conn h) = wireOf (fs @ [bodyFailed]))"
  using request_one_response [OF demoServer_law, of "getFrame 1 (str ''/a'')" "[frameBytes (getFrame 1 (str ''/a''))]" "[]" demoState EOF]
    getFrame_wf [of 1 "str ''/a''"] by (simp add: demoState_def del: str_Cons)

text \<open>
  C34. A mistake of the client costs it that request and nothing else. A REQUEST with wrong flags, an
  undecodable payload or a path the string rules forbid, and a RESPONSE or DATA frame from a client,
  is answered by exactly one frame: a 400 with END_STREAM on the stream it came on. No file is touched
  and every later frame is answered as if it had not been there.
\<close>
theorem invalid_frame_400:
  assumes "statLaw (sv_env s)" and "known (fr_type f)" and "encodable f" and "fr_type f \<noteq> TypeError"
    and "fr_type f = TypeRequest \<longrightarrow> fr_flags f \<noteq> FlagEndStream \<or> (\<exists>err. decodeRequest (fr_payload f) = Inl err)
      \<or> (\<exists>req. decodeRequest (fr_payload f) = Inr req \<and> checkPath (rq_path req) \<noteq> Inr ())"
    and "concat chunks = frameBytes f @ concat chunks'"
  shows "\<exists>h h' g. handle tcp_net_conn s os (tcp_open chunks e None) = Some h
    \<and> handle tcp_net_conn s os (tcp_open chunks' e None) = Some h'
    \<and> tcp_out (h_conn h) = frameBytes g @ tcp_out (h_conn h')
    \<and> fr_type g = TypeResponse \<and> fr_stream g = fr_stream f \<and> endsStream g
    \<and> decodeResponse (fr_payload g) = Inr \<lparr>rs_status = 400, rs_headers =
        [NewHeader HeaderContentLength (str ''0''), NewHeader HeaderServer serverName]\<rparr>"
proof -
  have "answer (sv_env s) (sv_res s) f os = (([statusFrame (fr_stream f) 400], True), os)"
    using assms(4,5) known_cases [OF assms(2)] by (auto simp: answer_def requestAnswer_def resolverOpen_bad)
  from tcp_handle_frame [OF assms(1-3,6) this, of e] obtain h h' where
    "handle tcp_net_conn s os (tcp_open chunks e None) = Some h" "handle tcp_net_conn s os (tcp_open chunks' e None) = Some h'"
    "tcp_out (h_conn h) = frameBytes (statusFrame (fr_stream f) 400) @ tcp_out (h_conn h')" by auto
  moreover have "fr_type (statusFrame st 400) = TypeResponse \<and> fr_stream (statusFrame st 400) = st \<and> endsStream (statusFrame st 400)" for st
    by (simp add: statusFrame_def) (simp add: responseFrame_def)
  ultimately show ?thesis using statusFrame_decodes [of 400] by (fastforce simp: validStatus_def)
qed

theorem invalid_frame_400_witness:
  "\<exists>h h' g. handle tcp_net_conn demoServer demoState
        (tcp_open [frameBytes (getFrame 9 (str ''/../x'')), frameBytes (getFrame 1 (str ''/a''))] EOF None) = Some h
    \<and> handle tcp_net_conn demoServer demoState (tcp_open [frameBytes (getFrame 1 (str ''/a''))] EOF None) = Some h'
    \<and> tcp_out (h_conn h) = frameBytes g @ tcp_out (h_conn h')
    \<and> fr_type g = TypeResponse \<and> fr_stream g = 9 \<and> endsStream g
    \<and> decodeResponse (fr_payload g) = Inr \<lparr>rs_status = 400, rs_headers =
        [NewHeader HeaderContentLength (str ''0''), NewHeader HeaderServer serverName]\<rparr>"
proof -
  have "checkPath (str ''/../x'') \<noteq> Inr ()" by (simp add: resolver_eval filepath_eval upByte_def)
  moreover have "decodeRequest (fr_payload (getFrame 9 (str ''/../x''))) =
      Inr \<lparr>rq_method = MethodGet, rq_path = str ''/../x'', rq_headers = []\<rparr>" by (rule getFrame_decodes) simp_all
  ultimately show ?thesis
    using invalid_frame_400 [OF demoServer_law, of "getFrame 9 (str ''/../x'')"
        "[frameBytes (getFrame 9 (str ''/../x'')), frameBytes (getFrame 1 (str ''/a''))]"
        "[frameBytes (getFrame 1 (str ''/a''))]" demoState EOF]
      getFrame_wf [of 9 "str ''/../x''"] by (simp add: type_defs del: str_Cons)
qed

text \<open>
  C17. A file arrives whole. When a request opens a file that has at least the bytes its size promised,
  the response is a 200 with the content type of its name and that size as its content length,
  followed by DATA frames whose payloads, put together, are exactly the first size bytes of the
  file, in frames of 1 to 16384 bytes with END_STREAM on the last (on the response itself when
  the file is empty).
\<close>
theorem file_delivered:
  assumes "statLaw (sv_env s)" and "fr_type f = TypeRequest" and "encodable f" and "fr_flags f = FlagEndStream"
    and "decodeRequest (fr_payload f) = Inr req"
    and opn: "resolverOpen (sv_env s) (sv_res s) (rq_path req) os = (Inr (fl, fi), os')"
    and "nat (fi_size fi) \<le> length (fileContent fl)" and "concat chunks = frameBytes f @ concat chunks'"
  shows "\<exists>h h' head datas. handle tcp_net_conn s os (tcp_open chunks e None) = Some h
    \<and> handle tcp_net_conn s (osClose os') (tcp_open chunks' e None) = Some h'
    \<and> tcp_out (h_conn h) = wireOf (head # datas) @ tcp_out (h_conn h')
    \<and> completeResponse (fr_stream f) (head # datas)
    \<and> concat (map fr_payload datas) = take (nat (fi_size fi)) (fileContent fl)
    \<and> decodeResponse (fr_payload head) = Inr \<lparr>rs_status = 200, rs_headers =
        [NewHeader HeaderContentType (contentType (fi_name fi)), NewHeader HeaderContentLength (formatInt (fi_size fi)),
         NewHeader HeaderServer serverName]\<rparr>"
proof -
  from resolverOpen_stat [OF assms(1) opn] have size: "0 \<le> fi_size fi" "fi_size fi < 2 ^ 63" by auto
  let ?head = "fileHead (fr_stream f) (contentType (fi_name fi)) (fi_size fi)"
  obtain datas full where fa: "fileAnswer (fr_stream f) fl fi = (?head # datas, full)"
    by (cases "bodyFrames (fr_stream f) (nat (fi_size fi)) (fileContent fl)") (auto simp: fileAnswer_def)
  note shape = file_complete [OF size fa]
  have "answer (sv_env s) (sv_res s) f os = ((?head # datas, True), osClose os')"
    using assms(2,4,5,7) opn fa shape(1) by (simp add: answer_def requestAnswer_def)
  from tcp_handle_frame [OF assms(1) request_known [OF assms(2)] assms(3,8) this, of e]
  show ?thesis using shape(2) shape(1) assms(7) fileHead_decodes [OF size contentType_length] by fastforce
qed

theorem file_delivered_witness:
  "\<exists>h h' head datas. handle tcp_net_conn demoServer demoState (tcp_open [frameBytes (getFrame 1 (str ''/a''))] EOF None) = Some h
    \<and> handle tcp_net_conn demoServer (osClose (demoState\<lparr>os_tick := 4, os_handles := 1\<rparr>)) (tcp_open [] EOF None) = Some h'
    \<and> tcp_out (h_conn h) = wireOf (head # datas) @ tcp_out (h_conn h')
    \<and> completeResponse 1 (head # datas) \<and> concat (map fr_payload datas) = [65, 66]
    \<and> decodeResponse (fr_payload head) = Inr \<lparr>rs_status = 200, rs_headers =
        [NewHeader HeaderContentType (contentType (str ''a'')), NewHeader HeaderContentLength (formatInt 2),
         NewHeader HeaderServer serverName]\<rparr>"
proof -
  have "decodeRequest (fr_payload (getFrame 1 (str ''/a''))) = Inr \<lparr>rq_method = MethodGet, rq_path = str ''/a'', rq_headers = []\<rparr>"
    by (rule getFrame_decodes) simp_all
  from file_delivered [OF demoServer_law _ _ _ this, of demoState demoFile demoInfo "demoState\<lparr>os_tick := 4, os_handles := 1\<rparr>"
      "[frameBytes (getFrame 1 (str ''/a''))]" "[]" EOF] getFrame_wf [of 1 "str ''/a''"] demo_open
  show ?thesis by (simp add: fileContent_def del: str_Cons)
qed

text \<open>
  C18. A body that cannot be completed is never passed off as one. When the file turns out shorter than
  the length already announced, no frame sent for the request carries END_STREAM; the last thing
  sent is an ERROR frame with code 3, and nothing after the request is answered.
\<close>
theorem short_file_never_complete:
  assumes "statLaw (sv_env s)" and "fr_type f = TypeRequest" and "encodable f" and "fr_flags f = FlagEndStream"
    and "decodeRequest (fr_payload f) = Inr req"
    and opn: "resolverOpen (sv_env s) (sv_res s) (rq_path req) os = (Inr (fl, fi), os')"
    and "length (fileContent fl) < nat (fi_size fi)" and "concat chunks = frameBytes f @ later"
  shows "\<exists>h fs. handle tcp_net_conn s os (tcp_open chunks e None) = Some h \<and> h_os h = osClose os'
    \<and> tcp_out (h_conn h) = wireOf (fs @ [errorFrame CodeProtocolError (str ''could not finish sending the response'')])
    \<and> list_all (\<lambda>g. \<not> endsStream g) fs"
proof -
  from resolverOpen_stat [OF assms(1) opn] have size: "0 \<le> fi_size fi" "fi_size fi < 2 ^ 63" by auto
  obtain fs full where fa: "fileAnswer (fr_stream f) fl fi = (fs, full)" by (metis surj_pair)
  note shape = file_complete [OF size fa]
  have "answer (sv_env s) (sv_res s) f os = ((fs @ [bodyFailed], False), osClose os')"
    using assms(2,4,5,7) opn fa shape(1) by (simp add: answer_def requestAnswer_def)
  from serverSpec_frame [OF request_known [OF assms(2)] assms(3) this, of e later]
  have "serverSpec (sv_env s) (sv_res s) e os (concat chunks) = (fs @ [bodyFailed], osClose os')" by (simp add: assms(8))
  from tcp_handle_fresh [OF assms(1) this] show ?thesis using shape(1,3) assms(7) by (auto simp: bodyFailed_def)
qed

text \<open>The file system \<open>demoEnv\<close> with a file that lost its last byte after \<^verbatim>\<open>Stat\<close>.\<close>

definition shortServer :: server_cfg where
  "shortServer = demoServer\<lparr>sv_env := demoEnv\<lparr>env_open := \<lambda>t p. Inr ([[65]], EOF)\<rparr>\<rparr>"

theorem short_file_never_complete_witness:
  "\<exists>h fs. handle tcp_net_conn shortServer demoState (tcp_open [frameBytes (getFrame 1 (str ''/a''))] EOF None) = Some h
    \<and> h_os h = osClose (demoState\<lparr>os_tick := 4, os_handles := 1\<rparr>)
    \<and> tcp_out (h_conn h) = wireOf (fs @ [errorFrame CodeProtocolError (str ''could not finish sending the response'')])
    \<and> list_all (\<lambda>g. \<not> endsStream g) fs"
proof -
  have law: "statLaw (sv_env shortServer)" by (simp add: statLaw_def shortServer_def demoEnv_def)
  have dec: "decodeRequest (fr_payload (getFrame 1 (str ''/a''))) = Inr \<lparr>rq_method = MethodGet, rq_path = str ''/a'', rq_headers = []\<rparr>"
    by (rule getFrame_decodes) simp_all
  have opn: "resolverOpen (sv_env shortServer) (sv_res shortServer) (str ''/a'') demoState =
      (Inr (\<lparr>fl_path = str ''/srv/data/a'', fl_chunks = [[65]], fl_end = EOF\<rparr>, demoInfo), demoState\<lparr>os_tick := 4, os_handles := 1\<rparr>)"
    by (simp add: resolver_eval filepath_eval demoEnv_def demoState_def shortServer_def demoServer_def)
  from short_file_never_complete [OF law _ _ _ dec, of demoState "\<lparr>fl_path = str ''/srv/data/a'', fl_chunks = [[65]], fl_end = EOF\<rparr>"
      demoInfo "demoState\<lparr>os_tick := 4, os_handles := 1\<rparr>" "[frameBytes (getFrame 1 (str ''/a''))]" "[]" EOF]
    getFrame_wf [of 1 "str ''/a''"] opn
  show ?thesis by (simp add: fileContent_def del: str_Cons)
qed

text \<open>
  C35. Nobody answers an ERROR frame. An ERROR frame, whatever its flags, stream and payload, and one whose
  declared length is too large, ends the connection without a single byte being sent, whatever
  follows it.
\<close>
theorem error_frame_unanswered:
  assumes "statLaw (sv_env s)" and "concat chunks = b @ later"
    and "(\<exists>f. b = frameBytes f \<and> fr_type f = TypeError \<and> length (fr_payload f) \<le> MaxPayload)
      \<or> (length b = HeaderSize \<and> b ! 4 = TypeError \<and> MaxPayload < unat (beUint32 b))"
  shows "\<exists>h. handle tcp_net_conn s os (tcp_open chunks e None) = Some h \<and> tcp_out (h_conn h) = [] \<and> h_os h = os"
proof -
  have "serverSpec (sv_env s) (sv_res s) e os (b @ later) = ([], os)"
    using assms(3)
  proof (elim disjE exE conjE)
    fix f assume f: "b = frameBytes f" "fr_type f = TypeError" "length (fr_payload f) \<le> MaxPayload"
    then have "known (fr_type f)" "encodable f" "answer (sv_env s) (sv_res s) f os = (([], False), os)"
      by (simp_all add: known_def encodable_def needsStream_def answer_def type_defs)
    from serverSpec_frame [OF this] f(1) show ?thesis by simp
  next
    assume "length b = HeaderSize" "b ! 4 = TypeError" "MaxPayload < unat (beUint32 b)"
    with parse_oversize [of b e later] show ?thesis
      by (simp add: serverSpec.simps [of _ _ _ _ "b @ later"] readFailure_def)
  qed
  from tcp_handle_fresh [OF assms(1) this [folded assms(2)]] show ?thesis by simp
qed

theorem error_frame_unanswered_witness:
  "\<exists>h. handle tcp_net_conn demoServer demoState
      (tcp_open [[0, 0, 0, 0, 4, 9, 0, 0, 0, 0, 0, 5], frameBytes (getFrame 1 (str ''/a''))] EOF None) = Some h
    \<and> tcp_out (h_conn h) = [] \<and> h_os h = demoState"
proof (rule error_frame_unanswered [OF demoServer_law, where later = "frameBytes (getFrame 1 (str ''/a''))"
      and b = "[0, 0, 0, 0, 4, 9, 0, 0, 0, 0, 0, 5]"])
  have "[0, 0, 0, 0, 4, 9, 0, 0, 0, 0, 0, 5] = frameBytes \<lparr>fr_type = TypeError, fr_flags = 9, fr_stream = 5, fr_payload = []\<rparr>"
    by (simp add: frameBytes_def putUint32_def type_defs)
  then show "(\<exists>f. [0, 0, 0, 0, 4, 9, 0, 0, 0, 0, 0, 5] = frameBytes f \<and> fr_type f = TypeError \<and> length (fr_payload f) \<le> MaxPayload)
      \<or> (length [0, 0, 0, 0, 4, 9, 0, 0, 0, 0, 0, 5 :: byte] = HeaderSize \<and> [0, 0, 0, 0, 4, 9, 0, 0, 0, 0, 0, 5] ! 4 = TypeError
        \<and> MaxPayload < unat (beUint32 [0, 0, 0, 0, 4, 9, 0, 0, 0, 0, 0, 5]))"
    by (intro disjI1 exI [of _ "\<lparr>fr_type = TypeError, fr_flags = 9, fr_stream = 5, fr_payload = []\<rparr>"]) simp
qed simp

text \<open>
  A framing error is reported once, and ends the connection. A frame that declares too long a payload
  (unless it is an ERROR frame) gets an ERROR frame with code 1, and a request, response or data frame
  on stream 0 one with code 2; both are sent on stream 0, and nothing that follows is answered.
\<close>
lemma framing_error_reported:
  assumes "statLaw (sv_env s)" and "length hdr = HeaderSize" and "concat chunks = hdr @ later"
    and "if MaxPayload < unat (beUint32 hdr) then hdr ! 4 \<noteq> TypeError
      else needsStream (hdr ! 4) \<and> beUint32 (drop 8 hdr) = 0 \<and> unat (beUint32 hdr) \<le> length later"
  shows "\<exists>h msg. handle tcp_net_conn s os (tcp_open chunks e None) = Some h \<and> h_os h = os
    \<and> tcp_out (h_conn h) =
        frameBytes (errorFrame (if MaxPayload < unat (beUint32 hdr) then CodeFrameTooLarge else CodeInvalidStreamID) msg)"
proof (cases "MaxPayload < unat (beUint32 hdr)")
  case True
  with parse_oversize [OF assms(2), of e later] assms(4)
  have "serverSpec (sv_env s) (sv_res s) e os (hdr @ later) = ([errorFrame CodeFrameTooLarge (str ''frame payload is too large'')], os)"
    by (simp add: serverSpec.simps [of _ _ _ _ "hdr @ later"] readFailure_def)
  from tcp_handle_fresh [OF assms(1) this [folded assms(3)]] True show ?thesis by auto
next
  case False
  have "known (hdr ! 4)" using assms(4) False by (auto simp: needsStream_def known_def type_defs word_le_nat_alt)
  with False assms(2,4) have "fst (parseFrame e (hdr @ later)) = Inl ErrStreamZero"
    by (simp add: parseFrame.simps [of e "hdr @ later"] Let_def)
  then have "serverSpec (sv_env s) (sv_res s) e os (hdr @ later) =
      ([errorFrame CodeInvalidStreamID (str ''stream id 0 is not valid here'')], os)"
    by (cases "parseFrame e (hdr @ later)") (simp add: serverSpec.simps [of _ _ _ _ "hdr @ later"] readFailure_def)
  from tcp_handle_fresh [OF assms(1) this [folded assms(3)]] False show ?thesis by auto
qed

text \<open>
  The drain after an ERROR frame is bounded. Whatever the peer still sends, \<^verbatim>\<open>drain\<close> returns having
  taken at most 65536 bytes off the connection, sends nothing, and leaves the connection half-closed
  with a read deadline of one second.
\<close>
lemma drain_bounded:
  "\<exists>h'. drain tcp_net_conn h = Some h' \<and> tcp_out (h_conn h') = tcp_out (h_conn h)
     \<and> tcp_content (h_conn h') = drop 65536 (tcp_content (h_conn h))
     \<and> ct_readDeadline (tcp_ctl (h_conn h')) = Some 1000000000 \<and> ct_halfClosed (tcp_ctl (h_conn h'))"
  using tcp.drain_spec [of h] by (auto simp: drainBytes_def drainTime_def tcp_net_conn_def)

end
