(* ===== verification/Server_Life.thy ===== *)
theory Server_Life
  imports Server_Conn
begin

text \<open>
  \<^verbatim>\<open>internal/server/server.go\<close>: the life of a whole server. \<^verbatim>\<open>New\<close>, \<^verbatim>\<open>Serve\<close>, \<^verbatim>\<open>Close\<close>, \<^verbatim>\<open>track\<close>, \<^verbatim>\<open>untrack\<close>
  and \<^verbatim>\<open>isClosed\<close>, with any number of goroutines in them at once.

  The state the goroutines share is the record \<open>shared\<close>; every critical section of the mutex and
  every atomic operation is one function on it. Each goroutine has a program counter, and \<open>step\<close> lets
  any one of them make its next move, so the reachable states are those of every interleaving.
  A section that does nothing but look at and change the shared fields takes the mutex and gives it back in one step, which
  waits until the mutex is free; the section of \<^verbatim>\<open>Close\<close>, which also closes connections, holds the mutex over two steps.
  What a handler does between starting and returning is the subject of \<open>Server_Conn\<close>; here it is
  one step. A handler that waits for its client returns by itself only when its connection has been closed (that it
  then does return is \<open>handle\<close> being total); that the client ends, breaks or neglects the connection is a move of the outside.
\<close>

subsection \<open>\<open>New\<close>\<close>

record server_config =
  cfg_Root :: "byte list"
  cfg_IdleTimeout :: int
  cfg_WriteTimeout :: int
  cfg_Logger :: bool

definition newServer :: "os_env \<Rightarrow> server_config \<Rightarrow> os_state \<Rightarrow> (res_err + server_cfg) \<times> os_state" where
  "newServer env cfg os =
     (case newResolver env (cfg_Root cfg) os of
        (Inl e, os') \<Rightarrow> (Inl e, os')
      | (Inr r, os') \<Rightarrow>
          (Inr \<lparr>sv_env = env, sv_res = r,
                sv_idleTimeout = (if cfg_IdleTimeout cfg \<le> 0 then defaultIdleTimeout else nat (cfg_IdleTimeout cfg)),
                sv_writeTimeout = (if cfg_WriteTimeout cfg \<le> 0 then defaultWriteTimeout else nat (cfg_WriteTimeout cfg)),
                sv_logging = cfg_Logger cfg\<rparr>, os'))"

subsection \<open>Shared state and its critical sections\<close>

text \<open>
  Connections and listeners are numbered. \<open>sh_mu\<close> is whether the mutex is held. \<open>sh_wg\<close> is the counter of the wait group and
  \<open>sh_current\<close> the atomic counter; both are integers, so going below zero would show.
\<close>

record shared =
  sh_mu :: bool
  sh_closed :: bool
  sh_lis :: "nat option"
  sh_conns :: "nat set"
  sh_wg :: int
  sh_current :: int

definition sharedNew :: shared where
  "sharedNew = \<lparr>sh_mu = False, sh_closed = False, sh_lis = None, sh_conns = {}, sh_wg = 0, sh_current = 0\<rparr>"

text \<open>The first critical section of \<^verbatim>\<open>Serve\<close>: \<open>None\<close> when the server is closed already.\<close>

definition serveBegin :: "nat \<Rightarrow> shared \<Rightarrow> shared option" where
  "serveBegin l s = (if sh_closed s then None else Some (s\<lparr>sh_lis := Some l\<rparr>))"

definition isClosed :: "shared \<Rightarrow> bool" where
  "isClosed s = sh_closed s"

definition track :: "nat \<Rightarrow> shared \<Rightarrow> bool \<times> shared" where
  "track c s =
     (if sh_closed s then (False, s)
      else (True, s\<lparr>sh_conns := insert c (sh_conns s), sh_wg := sh_wg s + 1, sh_current := sh_current s + 1\<rparr>))"

text \<open>\<^verbatim>\<open>untrack\<close> is three steps: the map under the lock, the counter, the wait group.\<close>

definition untrackMap :: "nat \<Rightarrow> shared \<Rightarrow> shared" where
  "untrackMap c s = s\<lparr>sh_conns := sh_conns s - {c}\<rparr>"

definition untrackCount :: "shared \<Rightarrow> shared" where
  "untrackCount s = s\<lparr>sh_current := sh_current s - 1\<rparr>"

definition untrackDone :: "shared \<Rightarrow> shared" where
  "untrackDone s = s\<lparr>sh_wg := sh_wg s - 1\<rparr>"

text \<open>
  The critical section of \<^verbatim>\<open>Close\<close>, up to giving the mutex back: the connections it closes and the listener it
  read are returned.
\<close>

definition closeBegin :: "shared \<Rightarrow> (nat set \<times> nat option) \<times> shared" where
  "closeBegin s = ((sh_conns s, sh_lis s), s\<lparr>sh_mu := True, sh_closed := True\<rparr>)"

definition closeUnlock :: "shared \<Rightarrow> shared" where
  "closeUnlock s = s\<lparr>sh_mu := False\<rparr>"

subsection \<open>Goroutines\<close>

datatype serve_pc =
    ServeEnter | ServeAccept | ServeFailed bool | ServeGot nat | ServeSpawn nat | ServeRefused nat | ServeReturned

datatype close_pc = CloseNotCalled | CloseEnter | CloseLocked "nat option" | CloseListener "nat option" | CloseWait | CloseReturned

text \<open>
  Where a connection is in its life, with the \<^verbatim>\<open>Serve\<close> call that holds it before its handler is
  registered. A handler is \<open>Running\<close>, then leaves through its deferred calls.
\<close>

datatype conn_phase =
    Unborn | Accepted nat | Tracked nat | Refused nat
  | Running | ConnClosed | Unmapped | Uncounted | Done

record world =
  w_sh :: shared
  w_serve :: "nat \<Rightarrow> serve_pc"
  w_close :: "nat \<Rightarrow> close_pc"
  w_phase :: "nat \<Rightarrow> conn_phase"
  w_lisClosed :: "nat \<Rightarrow> bool"
  w_connClosed :: "nat \<Rightarrow> bool"

definition worldNew :: world where
  "worldNew = \<lparr>w_sh = sharedNew, w_serve = (\<lambda>_. ServeEnter), w_close = (\<lambda>_. CloseNotCalled), w_phase = (\<lambda>_. Unborn),
     w_lisClosed = (\<lambda>_. False), w_connClosed = (\<lambda>_. False)\<rparr>"

text \<open>
  One move. The \<^verbatim>\<open>Serve\<close> call \<open>i\<close> serves listener \<open>i\<close>; \<^verbatim>\<open>Accept\<close> returns a new
  connection, the error \<^verbatim>\<open>net.ErrClosed\<close> when the listener is closed, or any other error. \<open>Own\<close> moves
  are those the goroutines of the server make by themselves; \<open>Outside\<close> moves need someone else: a caller of \<^verbatim>\<open>Serve\<close> or \<^verbatim>\<open>Close\<close>,
  a client that connects, an \<^verbatim>\<open>Accept\<close> that fails, or a client or a deadline that ends a handler.
\<close>

datatype mover = Own | Outside

inductive move :: "mover \<Rightarrow> world \<Rightarrow> world \<Rightarrow> bool" where
  serve_enter: "w_serve w i = ServeEnter \<Longrightarrow> \<not> sh_mu (w_sh w) \<Longrightarrow> serveBegin i (w_sh w) = Some s \<Longrightarrow>
    move Outside w (w\<lparr>w_sh := s, w_serve := (w_serve w)(i := ServeAccept)\<rparr>)"
| serve_late: "w_serve w i = ServeEnter \<Longrightarrow> \<not> sh_mu (w_sh w) \<Longrightarrow> serveBegin i (w_sh w) = None \<Longrightarrow>
    move Outside w (w\<lparr>w_serve := (w_serve w)(i := ServeReturned), w_lisClosed := (w_lisClosed w)(i := True)\<rparr>)"
| accept_conn: "w_serve w i = ServeAccept \<Longrightarrow> \<not> w_lisClosed w i \<Longrightarrow> w_phase w c = Unborn \<Longrightarrow>
    move Outside w (w\<lparr>w_serve := (w_serve w)(i := ServeGot c), w_phase := (w_phase w)(c := Accepted i)\<rparr>)"
| accept_fails: "w_serve w i = ServeAccept \<Longrightarrow> \<not> w_lisClosed w i \<Longrightarrow>
    move Outside w (w\<lparr>w_serve := (w_serve w)(i := ServeFailed False)\<rparr>)"
| accept_closed: "w_serve w i = ServeAccept \<Longrightarrow> w_lisClosed w i \<Longrightarrow>
    move Own w (w\<lparr>w_serve := (w_serve w)(i := ServeFailed True)\<rparr>)"
| serve_error: "w_serve w i = ServeFailed errClosed \<Longrightarrow> \<not> sh_mu (w_sh w) \<Longrightarrow>
    move Own w (w\<lparr>w_serve := (w_serve w)(i := if isClosed (w_sh w) \<or> errClosed then ServeReturned else ServeAccept)\<rparr>)"
| serve_track: "w_serve w i = ServeGot c \<Longrightarrow> \<not> sh_mu (w_sh w) \<Longrightarrow> track c (w_sh w) = (True, s) \<Longrightarrow>
    move Own w (w\<lparr>w_sh := s, w_serve := (w_serve w)(i := ServeSpawn c), w_phase := (w_phase w)(c := Tracked i)\<rparr>)"
| serve_untracked: "w_serve w i = ServeGot c \<Longrightarrow> \<not> sh_mu (w_sh w) \<Longrightarrow> track c (w_sh w) = (False, s) \<Longrightarrow>
    move Own w (w\<lparr>w_sh := s, w_serve := (w_serve w)(i := ServeRefused c), w_phase := (w_phase w)(c := Refused i)\<rparr>)"
| serve_spawn: "w_serve w i = ServeSpawn c \<Longrightarrow>
    move Own w (w\<lparr>w_serve := (w_serve w)(i := ServeAccept), w_phase := (w_phase w)(c := Running)\<rparr>)"
| serve_refuse: "w_serve w i = ServeRefused c \<Longrightarrow>
    move Own w (w\<lparr>w_serve := (w_serve w)(i := ServeReturned), w_connClosed := (w_connClosed w)(c := True)\<rparr>)"
| handler_ends: "w_phase w c = Running \<Longrightarrow> \<not> w_connClosed w c \<Longrightarrow>
    move Outside w (w\<lparr>w_phase := (w_phase w)(c := ConnClosed), w_connClosed := (w_connClosed w)(c := True)\<rparr>)"
| handler_dropped: "w_phase w c = Running \<Longrightarrow> w_connClosed w c \<Longrightarrow>
    move Own w (w\<lparr>w_phase := (w_phase w)(c := ConnClosed)\<rparr>)"
| untrack_map: "w_phase w c = ConnClosed \<Longrightarrow> \<not> sh_mu (w_sh w) \<Longrightarrow>
    move Own w (w\<lparr>w_sh := untrackMap c (w_sh w), w_phase := (w_phase w)(c := Unmapped)\<rparr>)"
| untrack_count: "w_phase w c = Unmapped \<Longrightarrow>
    move Own w (w\<lparr>w_sh := untrackCount (w_sh w), w_phase := (w_phase w)(c := Uncounted)\<rparr>)"
| untrack_done: "w_phase w c = Uncounted \<Longrightarrow>
    move Own w (w\<lparr>w_sh := untrackDone (w_sh w), w_phase := (w_phase w)(c := Done)\<rparr>)"
| close_call: "w_close w j = CloseNotCalled \<Longrightarrow> move Outside w (w\<lparr>w_close := (w_close w)(j := CloseEnter)\<rparr>)"
| close_enter: "w_close w j = CloseEnter \<Longrightarrow> \<not> sh_mu (w_sh w) \<Longrightarrow> closeBegin (w_sh w) = ((cs, l), s) \<Longrightarrow>
    move Own w (w\<lparr>w_sh := s, w_close := (w_close w)(j := CloseLocked l),
      w_connClosed := (\<lambda>c. w_connClosed w c \<or> c \<in> cs)\<rparr>)"
| close_unlock: "w_close w j = CloseLocked l \<Longrightarrow>
    move Own w (w\<lparr>w_sh := closeUnlock (w_sh w), w_close := (w_close w)(j := CloseListener l)\<rparr>)"
| close_listener: "w_close w j = CloseListener l \<Longrightarrow>
    move Own w (w\<lparr>w_close := (w_close w)(j := CloseWait),
      w_lisClosed := (\<lambda>i. w_lisClosed w i \<or> l = Some i)\<rparr>)"
| close_wait: "w_close w j = CloseWait \<Longrightarrow> sh_wg (w_sh w) = 0 \<Longrightarrow>
    move Own w (w\<lparr>w_close := (w_close w)(j := CloseReturned)\<rparr>)"

definition step :: "world \<Rightarrow> world \<Rightarrow> bool" where
  "step w w' \<longleftrightarrow> (\<exists>m. move m w w')"

inductive reachable :: "world \<Rightarrow> bool" where
  init: "reachable worldNew"
| next_step: "reachable w \<Longrightarrow> step w w' \<Longrightarrow> reachable w'"

subsection \<open>The invariant\<close>

text \<open>The connections whose handler is counted by each of the three pieces of shared state.\<close>

definition inMap :: "conn_phase \<Rightarrow> bool" where
  "inMap p \<longleftrightarrow> (case p of Tracked _ \<Rightarrow> True | Running \<Rightarrow> True | ConnClosed \<Rightarrow> True | _ \<Rightarrow> False)"

definition counted :: "conn_phase \<Rightarrow> bool" where
  "counted p \<longleftrightarrow> inMap p \<or> p = Unmapped"

definition waited :: "conn_phase \<Rightarrow> bool" where
  "waited p \<longleftrightarrow> counted p \<or> p = Uncounted"

definition owns :: "world \<Rightarrow> bool" where
  "owns w \<longleftrightarrow> (\<forall>i c. (w_serve w i = ServeGot c \<longrightarrow> w_phase w c = Accepted i)
     \<and> (w_serve w i = ServeSpawn c \<longrightarrow> w_phase w c = Tracked i)
     \<and> (w_serve w i = ServeRefused c \<longrightarrow> w_phase w c = Refused i))"

definition spawns :: "world \<Rightarrow> bool" where
  "spawns w \<longleftrightarrow> (\<forall>i c. w_phase w c = Tracked i \<longrightarrow> w_serve w i = ServeSpawn c)"

definition accounts :: "world \<Rightarrow> bool" where
  "accounts w \<longleftrightarrow> finite {c. waited (w_phase w c)}
     \<and> sh_conns (w_sh w) = {c. inMap (w_phase w c)}
     \<and> sh_current (w_sh w) = int (card {c. counted (w_phase w c)})
     \<and> sh_wg (w_sh w) = int (card {c. waited (w_phase w c)})"

text \<open>A call of \<^verbatim>\<open>Close\<close> that has been through its critical section.\<close>

fun begun :: "close_pc \<Rightarrow> bool" where
  "begun CloseNotCalled = False"
| "begun CloseEnter = False"
| "begun _ = True"

definition closing :: "world \<Rightarrow> bool" where
  "closing w \<longleftrightarrow> (\<forall>j. begun (w_close w j) \<longrightarrow> sh_closed (w_sh w))
     \<and> (\<forall>j l. w_close w j = CloseLocked l \<longrightarrow> l = sh_lis (w_sh w))
     \<and> (\<forall>j l. w_close w j = CloseListener l \<longrightarrow> l = sh_lis (w_sh w))
     \<and> (\<forall>j i. w_close w j = CloseWait \<longrightarrow> sh_lis (w_sh w) = Some i \<longrightarrow> w_lisClosed w i)
     \<and> (\<forall>j i. w_close w j = CloseReturned \<longrightarrow> sh_lis (w_sh w) = Some i \<longrightarrow> w_lisClosed w i)"

definition shuts :: "world \<Rightarrow> bool" where
  "shuts w \<longleftrightarrow> (\<forall>c. sh_closed (w_sh w) \<longrightarrow> inMap (w_phase w c) \<longrightarrow> w_connClosed w c)
     \<and> (\<forall>c. w_phase w c = ConnClosed \<longrightarrow> w_connClosed w c)"

definition quiet :: "world \<Rightarrow> bool" where
  "quiet w \<longleftrightarrow> (\<forall>j c. w_close w j = CloseReturned \<longrightarrow> \<not> waited (w_phase w c))"

text \<open>The mutex is held exactly by the one call of \<^verbatim>\<open>Close\<close> that is in its critical section.\<close>

definition locks :: "world \<Rightarrow> bool" where
  "locks w \<longleftrightarrow> sh_mu (w_sh w) = (\<exists>j l. w_close w j = CloseLocked l)
     \<and> (\<forall>j k l m. w_close w j = CloseLocked l \<longrightarrow> w_close w k = CloseLocked m \<longrightarrow> j = k)"

text \<open>Only finitely many goroutines have registered, and the registered listener belongs to one of them.\<close>

definition registered :: "world \<Rightarrow> bool" where
  "registered w \<longleftrightarrow> finite {i. w_serve w i \<noteq> ServeEnter} \<and> finite {j. w_close w j \<noteq> CloseNotCalled} \<and> finite {c. w_phase w c \<noteq> Unborn}
     \<and> (\<forall>i. sh_lis (w_sh w) = Some i \<longrightarrow> w_serve w i \<noteq> ServeEnter)"

definition inv :: "world \<Rightarrow> bool" where
  "inv w \<longleftrightarrow> owns w \<and> spawns w \<and> accounts w \<and> closing w \<and> shuts w \<and> quiet w \<and> locks w \<and> registered w"

lemmas phase_defs = inMap_def counted_def waited_def
lemmas section_defs = serveBegin_def isClosed_def track_def untrackMap_def untrackCount_def untrackDone_def closeBegin_def closeUnlock_def

lemma phase_simps [simp]:
  "inMap (Tracked i)" "inMap Running" "inMap ConnClosed" "\<not> inMap Unborn" "\<not> inMap (Accepted i)" "\<not> inMap (Refused i)"
  "\<not> inMap Unmapped" "\<not> inMap Uncounted" "\<not> inMap Done"
  "inMap p \<Longrightarrow> counted p" "counted Unmapped" "\<not> counted Unborn" "\<not> counted (Accepted i)" "\<not> counted (Refused i)"
  "\<not> counted Uncounted" "\<not> counted Done"
  "counted p \<Longrightarrow> waited p" "waited Uncounted" "\<not> waited Unborn" "\<not> waited (Accepted i)" "\<not> waited (Refused i)" "\<not> waited Done"
  by (simp_all add: phase_defs)

lemma phase_update: "{x. P ((ph(c := q)) x)} = (if P q then insert c {x. P (ph x)} else {x. P (ph x)} - {c})"
  by auto

lemma finite_counted: "finite {c. waited (ph c)} \<Longrightarrow> finite {c. counted (ph c)}"
  by (rule finite_subset [rotated]) (auto simp: waited_def)

lemma inv_init: "inv worldNew"
  by (simp add: inv_def owns_def spawns_def accounts_def closing_def shuts_def quiet_def locks_def registered_def worldNew_def sharedNew_def phase_defs)

lemma owns_step: "move m w w' \<Longrightarrow> owns w \<Longrightarrow> owns w'"
  by (induction rule: move.induct)
    (auto simp: owns_def split: if_splits, (metis conn_phase.distinct conn_phase.inject)+)

lemma not_tracked: "spawns w \<Longrightarrow> w_phase w c = Tracked i \<Longrightarrow> w_serve w i = pc \<Longrightarrow> pc = ServeSpawn c"
  by (simp add: spawns_def)

lemma spawns_step: "move m w w' \<Longrightarrow> spawns w \<Longrightarrow> spawns w'"
  by (induction rule: move.induct) (simp add: spawns_def; fastforce dest: not_tracked)+

lemma card_enter: "finite A \<Longrightarrow> c \<notin> A \<Longrightarrow> int (card (insert c A)) = int (card A) + 1"
  by simp

lemma card_leave: "finite A \<Longrightarrow> c \<in> A \<Longrightarrow> int (card (A - {c})) = int (card A) - 1"
  by (metis add_diff_cancel_right' card.remove of_nat_Suc add.commute)

lemmas accounting = accounts_def section_defs phase_update finite_counted card_enter card_leave insert_absorb

lemma accounts_step: "move m w w' \<Longrightarrow> owns w \<Longrightarrow> accounts w \<Longrightarrow> accounts w'"
proof (induction rule: move.induct)
  case (serve_track w i c s)
  then have "w_phase w c = Accepted i" by (auto simp: owns_def)
  with serve_track show ?case by (auto simp: accounting simp del: fun_upd_apply split: if_splits)
next
  case (serve_untracked w i c s)
  then have "w_phase w c = Accepted i" by (auto simp: owns_def)
  with serve_untracked show ?case by (auto simp: accounting simp del: fun_upd_apply split: if_splits)
next
  case (serve_spawn w i c)
  then have "w_phase w c = Tracked i" by (auto simp: owns_def)
  with serve_spawn show ?case by (auto simp: accounting simp del: fun_upd_apply)
qed (auto simp: accounting simp del: fun_upd_apply card_Diff_singleton card_Diff_insert split: if_splits)

lemma not_begun:
  assumes "closing w" "\<not> sh_closed (w_sh w)"
  shows "w_close w j \<noteq> CloseReturned" "w_close w j \<noteq> CloseWait" "w_close w j \<noteq> CloseListener l" "w_close w j \<noteq> CloseLocked l"
  using assms by (metis closing_def begun.simps)+

lemma closing_step: "move m w w' \<Longrightarrow> closing w \<Longrightarrow> closing w'"
proof (induction rule: move.induct)
  case (serve_enter w i s)
  then have "\<not> sh_closed (w_sh w)" by (simp add: section_defs split: if_splits)
  from serve_enter not_begun [OF serve_enter(4) this] show ?case by (auto simp: closing_def section_defs split: if_splits)
next
  case (close_listener w j l)
  then have "sh_closed (w_sh w)" "l = sh_lis (w_sh w)" unfolding closing_def by (metis begun.simps(4), blast)
  with close_listener(2) show ?case by (auto simp: closing_def)
next
  case (close_unlock w j l)
  then have "sh_closed (w_sh w)" "l = sh_lis (w_sh w)" unfolding closing_def by (metis begun.simps(3), blast)
  with close_unlock(2) show ?case by (auto simp: closing_def closeUnlock_def)
next
  case (close_wait w j)
  then have "sh_closed (w_sh w)" "\<And>i. sh_lis (w_sh w) = Some i \<Longrightarrow> w_lisClosed w i"
    unfolding closing_def by (metis begun.simps(5), blast)
  with close_wait(3) show ?case by (auto simp: closing_def)
qed (auto simp: closing_def section_defs split: if_splits)

lemma shuts_step: "move m w w' \<Longrightarrow> owns w \<Longrightarrow> accounts w \<Longrightarrow> shuts w \<Longrightarrow> shuts w'"
proof (induction rule: move.induct)
  case (serve_spawn w i c)
  then have "inMap (w_phase w c)" by (auto simp: owns_def)
  with serve_spawn show ?case by (auto simp: shuts_def)
qed (auto simp: shuts_def section_defs accounts_def split: if_splits)

lemma quiet_step: "move m w w' \<Longrightarrow> owns w \<Longrightarrow> accounts w \<Longrightarrow> closing w \<Longrightarrow> quiet w \<Longrightarrow> quiet w'"
proof (induction rule: move.induct)
  case (serve_track w i c s)
  then have "\<not> sh_closed (w_sh w)" by (simp add: section_defs split: if_splits)
  from not_begun [OF serve_track(6) this] show ?case by (auto simp: quiet_def)
next
  case (serve_spawn w i c)
  then have "waited (w_phase w c)" by (auto simp: owns_def)
  with serve_spawn show ?case by (auto simp: quiet_def)
next
  case (close_wait w j)
  then have "card {c. waited (w_phase w c)} = 0" "finite {c. waited (w_phase w c)}" by (auto simp: accounts_def)
  then have "\<forall>c. \<not> waited (w_phase w c)" by auto
  with close_wait show ?case by (auto simp: quiet_def)
next
  case (handler_ends w c)
  then have "waited (w_phase w c)" by simp
  with handler_ends(2-) show ?case by (auto simp: quiet_def)
next
  case (handler_dropped w c)
  then have "waited (w_phase w c)" by simp
  with handler_dropped(2-) show ?case by (auto simp: quiet_def)
next
  case (untrack_map w c)
  then have "waited (w_phase w c)" by simp
  with untrack_map(2-) show ?case by (auto simp: quiet_def)
next
  case (untrack_count w c)
  then have "waited (w_phase w c)" by simp
  with untrack_count(2-) show ?case by (auto simp: quiet_def)
qed (auto simp: quiet_def split: if_splits)

lemma locks_step: "move m w w' \<Longrightarrow> locks w \<Longrightarrow> locks w'"
  by (induction rule: move.induct)
    (auto simp: locks_def section_defs split: if_splits, (metis close_pc.distinct)+)

lemma finite_upd: "finite {x. f x \<noteq> a} \<Longrightarrow> finite {x. (f(y := b)) x \<noteq> a}"
  by (rule finite_subset [of _ "insert y {x. f x \<noteq> a}"]) auto

lemma started_step: "move m w w' \<Longrightarrow> registered w \<Longrightarrow> registered w'"
  by (induction rule: move.induct)
    (simp_all add: registered_def section_defs finite_upd del: fun_upd_apply, auto split: if_splits)

lemma inv_step: "move m w w' \<Longrightarrow> inv w \<Longrightarrow> inv w'"
  unfolding inv_def
  by (blast intro: owns_step spawns_step accounts_step closing_step shuts_step quiet_step locks_step started_step)

lemma inv_reachable: "reachable w \<Longrightarrow> inv w"
  by (induction rule: reachable.induct) (use inv_init in \<open>auto simp: step_def dest: inv_step\<close>)

subsection \<open>Progress after \<open>Close\<close>\<close>

text \<open>
  How far each goroutine is from its end. Every own move brings some goroutine nearer to it, and none
  farther away, so the goroutines left alone come to rest.
\<close>

fun phaseRank :: "conn_phase \<Rightarrow> nat" where
  "phaseRank (Accepted _) = 6" | "phaseRank (Tracked _) = 5" | "phaseRank Running = 4" | "phaseRank ConnClosed = 3"
| "phaseRank Unmapped = 2" | "phaseRank Uncounted = 1" | "phaseRank _ = 0"

fun serveRank :: "serve_pc \<Rightarrow> nat" where
  "serveRank (ServeGot _) = 6" | "serveRank (ServeSpawn _) = 5" | "serveRank (ServeFailed e) = (if e then 2 else 4)"
| "serveRank ServeAccept = 3" | "serveRank (ServeRefused _) = 1" | "serveRank _ = 0"

fun closeRank :: "close_pc \<Rightarrow> nat" where
  "closeRank CloseEnter = 4" | "closeRank (CloseLocked _) = 3" | "closeRank (CloseListener _) = 2" | "closeRank CloseWait = 1"
| "closeRank _ = 0"

definition total :: "('a \<Rightarrow> nat) \<Rightarrow> 'a \<Rightarrow> (nat \<Rightarrow> 'a) \<Rightarrow> nat" where
  "total r start f = (\<Sum>x | f x \<noteq> start. r (f x))"

definition left :: "world \<Rightarrow> nat" where
  "left w = total serveRank ServeEnter (w_serve w) + total closeRank CloseNotCalled (w_close w) + total phaseRank Unborn (w_phase w)"

lemma total_less:
  assumes "finite {x. f x \<noteq> start}" "f x \<noteq> start" "q \<noteq> start" "r q < r (f x)"
  shows "total r start (f(x := q)) < total r start f"
proof -
  have "{y. (f(x := q)) y \<noteq> start} = {y. f y \<noteq> start}" using assms(2,3) by auto
  then show ?thesis unfolding total_def
    using assms by (auto intro!: sum_strict_mono_ex1 bexI [of _ x])
qed

lemma own_move_less: "move m w w' \<Longrightarrow> m = Own \<Longrightarrow> owns w \<Longrightarrow> registered w \<Longrightarrow> left w' < left w"
proof (induction rule: move.induct)
  case (serve_track w i c s)
  then have "w_phase w c = Accepted i" by (auto simp: owns_def)
  with serve_track show ?case unfolding left_def
    by (simp add: registered_def del: fun_upd_apply) (intro add_strict_mono total_less; simp)
next
  case (serve_untracked w i c s)
  then have "w_phase w c = Accepted i" by (auto simp: owns_def)
  with serve_untracked show ?case unfolding left_def
    by (simp add: registered_def del: fun_upd_apply) (intro add_strict_mono total_less; simp)
next
  case (serve_spawn w i c)
  then have "w_phase w c = Tracked i" by (auto simp: owns_def)
  with serve_spawn show ?case unfolding left_def
    by (simp add: registered_def del: fun_upd_apply) (intro add_strict_mono total_less; simp)
next
  case (serve_error w i e)
  then show ?case unfolding left_def by (auto simp: registered_def simp del: fun_upd_apply intro!: total_less)
qed (simp_all add: left_def registered_def total_less del: fun_upd_apply)

abbreviation own :: "world \<Rightarrow> world \<Rightarrow> bool" where
  "own \<equiv> move Own"

lemma own_less: "own w w' \<Longrightarrow> inv w \<Longrightarrow> left w' < left w"
  using own_move_less by (auto simp: inv_def)

lemma own_run_bounded: "(own ^^ k) w w' \<Longrightarrow> inv w \<Longrightarrow> k + left w' \<le> left w \<and> inv w'"
proof (induction k arbitrary: w')
  case (Suc k)
  then obtain v where "(own ^^ k) w v" "own v w'" by auto
  with Suc.IH [of v] Suc.prems(2) own_less [of v w'] inv_step [of Own v w'] show ?case by auto
qed simp

lemma own_run_ends: "inv w \<Longrightarrow> \<exists>w'. own\<^sup>*\<^sup>* w w' \<and> (\<nexists>v. own w' v)"
proof (induction "left w" arbitrary: w rule: less_induct)
  case less
  show ?case
  proof (cases "\<exists>v. own w v")
    case True
    then obtain v where v: "own w v" by blast
    with less.hyps [of v] own_less [OF v less.prems] inv_step [OF v less.prems] show ?thesis
      by (meson converse_rtranclp_into_rtranclp)
  qed blast
qed

lemma own_run_inv: "own\<^sup>*\<^sup>* w w' \<Longrightarrow> inv w \<Longrightarrow> inv w'"
  by (induction rule: rtranclp_induct) (auto dest: inv_step)

lemma own_keeps_call: "own\<^sup>*\<^sup>* w w' \<Longrightarrow> w_close w j \<noteq> CloseNotCalled \<Longrightarrow> w_close w' j \<noteq> CloseNotCalled"
  by (induction rule: rtranclp_induct) (auto elim!: move.cases split: if_splits)

text \<open>Where nothing can move by itself: the mutex is free, and once the server is closed no handler is left.\<close>

lemma rest_mutex: "inv w \<Longrightarrow> \<nexists>v. own w v \<Longrightarrow> \<not> sh_mu (w_sh w)"
  using close_unlock by (auto simp: inv_def locks_def)

lemma waited_cases:
  assumes "waited p"
  obtains i where "p = Tracked i" | "p = Running" | "p = ConnClosed" | "p = Unmapped" | "p = Uncounted"
  using assms by (cases p) auto

lemma rest_handlers:
  assumes "inv w" "\<nexists>v. own w v" "sh_closed (w_sh w)"
  shows "\<not> waited (w_phase w c)"
proof
  assume "waited (w_phase w c)"
  then show False
  proof (cases rule: waited_cases)
    case (1 i)
    with assms(1) have "w_serve w i = ServeSpawn c" by (simp add: inv_def spawns_def)
    from serve_spawn [OF this] assms(2) show False by blast
  next
    case 2
    with assms(1,3) have "w_connClosed w c" by (auto simp: inv_def shuts_def)
    from handler_dropped [OF 2 this] assms(2) show False by blast
  next
    case 3
    from untrack_map [OF 3 rest_mutex [OF assms(1,2)]] assms(2) show False by blast
  next
    case 4
    from untrack_count [OF this] assms(2) show False by blast
  next
    case 5
    from untrack_done [OF this] assms(2) show False by blast
  qed
qed

lemma rest_close:
  assumes "inv w" "\<nexists>v. own w v" "w_close w j \<noteq> CloseNotCalled"
  shows "w_close w j = CloseReturned"
proof (cases "w_close w j")
  case CloseEnter
  from close_enter [OF this rest_mutex [OF assms(1,2)], of "sh_conns (w_sh w)" "sh_lis (w_sh w)"] assms(2)
  show ?thesis by (auto simp: closeBegin_def)
next
  case (CloseLocked l)
  from close_unlock [OF this] assms(2) show ?thesis by blast
next
  case (CloseListener l)
  from close_listener [OF this] assms(2) show ?thesis by blast
next
  case CloseWait
  then have "sh_closed (w_sh w)" using assms(1) by (metis inv_def closing_def begun.simps(5))
  from rest_handlers [OF assms(1,2) this] have "sh_wg (w_sh w) = 0" using assms(1) by (simp add: inv_def accounts_def)
  from close_wait [OF CloseWait this] assms(2) show ?thesis by blast
qed (use assms(3) in auto)

lemma rest_serve:
  assumes "inv w" "\<nexists>v. own w v" "w_close w j = CloseReturned" "sh_lis (w_sh w) = Some i"
  shows "w_serve w i = ServeReturned"
proof (cases "w_serve w i")
  case ServeEnter
  then show ?thesis using assms(1,4) by (auto simp: inv_def registered_def)
next
  case ServeAccept
  moreover have "w_lisClosed w i" using assms(1,3,4) by (auto simp: inv_def closing_def)
  ultimately show ?thesis using accept_closed assms(2) by blast
next
  case (ServeFailed e)
  from serve_error [OF this rest_mutex [OF assms(1,2)]] assms(2) show ?thesis by blast
next
  case (ServeGot c)
  note free = rest_mutex [OF assms(1,2)]
  obtain b s where t: "track c (w_sh w) = (b, s)" by fastforce
  show ?thesis
  proof (cases b)
    case True
    then have "track c (w_sh w) = (True, s)" using t by simp
    from serve_track [OF ServeGot free this] assms(2) show ?thesis by blast
  next
    case False
    then have "track c (w_sh w) = (False, s)" using t by simp
    from serve_untracked [OF ServeGot free this] assms(2) show ?thesis by blast
  qed
next
  case (ServeSpawn c)
  from serve_spawn [OF this] assms(2) show ?thesis by blast
next
  case (ServeRefused c)
  from serve_refuse [OF this] assms(2) show ?thesis by blast
qed

lemma own_step: "own\<^sup>*\<^sup>* w w' \<Longrightarrow> step\<^sup>*\<^sup>* w w'"
  by (induction rule: rtranclp_induct) (auto simp: step_def intro: rtranclp.rtrancl_into_rtrancl)

lemma reachable_steps: "step\<^sup>*\<^sup>* w w' \<Longrightarrow> reachable w \<Longrightarrow> reachable w'"
  by (induction rule: rtranclp_induct) (auto intro: next_step)

lemma returned_stays: "step\<^sup>*\<^sup>* w w' \<Longrightarrow> w_close w j = CloseReturned \<Longrightarrow> w_close w' j = CloseReturned"
  by (induction rule: rtranclp_induct) (auto simp: step_def elim!: move.cases)

text \<open>A run in which \<^verbatim>\<open>Close\<close> is called while one connection is being served.\<close>

lemma demo_run:
  "\<exists>w. reachable w \<and> sh_closed (w_sh w) \<and> w_phase w 3 = Running \<and> w_close w 0 = CloseLocked (Some 1)"
proof -
  let ?w1 = "worldNew\<lparr>w_sh := sharedNew\<lparr>sh_lis := Some 1\<rparr>, w_serve := (w_serve worldNew)(1 := ServeAccept)\<rparr>"
  let ?w2 = "?w1\<lparr>w_serve := (w_serve ?w1)(1 := ServeGot 3), w_phase := (w_phase ?w1)(3 := Accepted 1)\<rparr>"
  let ?w3 = "?w2\<lparr>w_sh := snd (track 3 (w_sh ?w2)), w_serve := (w_serve ?w2)(1 := ServeSpawn 3), w_phase := (w_phase ?w2)(3 := Tracked 1)\<rparr>"
  let ?w4 = "?w3\<lparr>w_serve := (w_serve ?w3)(1 := ServeAccept), w_phase := (w_phase ?w3)(3 := Running)\<rparr>"
  let ?w5 = "?w4\<lparr>w_close := (w_close ?w4)(0 := CloseEnter)\<rparr>"
  let ?w6 = "?w5\<lparr>w_sh := snd (closeBegin (w_sh ?w5)), w_close := (w_close ?w5)(0 := CloseLocked (Some 1)),
      w_connClosed := (\<lambda>c. w_connClosed ?w5 c \<or> c \<in> sh_conns (w_sh ?w5))\<rparr>"
  have "step worldNew ?w1" unfolding step_def by (rule exI, rule serve_enter) (simp_all add: worldNew_def sharedNew_def section_defs)
  moreover have "step ?w1 ?w2" unfolding step_def by (rule exI, rule accept_conn) (simp_all add: worldNew_def)
  moreover have "step ?w2 ?w3" unfolding step_def by (rule exI, rule serve_track) (simp_all add: worldNew_def sharedNew_def section_defs)
  moreover have "step ?w3 ?w4" unfolding step_def by (rule exI, rule serve_spawn) simp
  moreover have "step ?w4 ?w5" unfolding step_def by (rule exI, rule close_call) (simp add: worldNew_def)
  moreover have "step ?w5 ?w6"
    unfolding step_def by (rule exI, rule close_enter) (simp_all add: worldNew_def sharedNew_def section_defs)
  ultimately have "reachable ?w6" by (meson init next_step)
  then show ?thesis by (rule exI [of _ ?w6, OF conjI]) (simp add: section_defs)
qed

subsection \<open>Properties\<close>

text \<open>
  C10. The bookkeeping is exact under every interleaving of \<^verbatim>\<open>Serve\<close>, \<^verbatim>\<open>Close\<close> and any number of handlers:
  the connection map holds exactly the connections between \<^verbatim>\<open>track\<close> and the first step of
  \<^verbatim>\<open>untrack\<close>, the live counter and the wait group count exactly those before its second and third
  step. So neither counter is ever negative and \<^verbatim>\<open>wg.Done\<close> never panics.
\<close>
theorem server_accounting:
  assumes "reachable w"
  shows "sh_conns (w_sh w) = {c. inMap (w_phase w c)}
    \<and> sh_current (w_sh w) = int (card {c. counted (w_phase w c)})
    \<and> sh_wg (w_sh w) = int (card {c. waited (w_phase w c)}) \<and> finite {c. waited (w_phase w c)}"
  using inv_reachable [OF assms] by (simp add: inv_def accounts_def)

theorem server_accounting_witness: "\<exists>w. reachable w \<and> 3 \<in> sh_conns (w_sh w) \<and> 0 < sh_wg (w_sh w)"
proof -
  obtain w where w: "reachable w" "w_phase w 3 = Running" using demo_run by blast
  then have "3 \<in> {c. waited (w_phase w c)}" by simp
  then have "0 < card {c. waited (w_phase w c)}" using server_accounting [OF w(1)] by (auto simp: card_gt_0_iff)
  then show ?thesis using server_accounting [OF w(1)] w by (intro exI [of _ w]) auto
qed

text \<open>
  C19. \<^verbatim>\<open>Close\<close> drops every connection. From the moment the server is marked closed, every connection in
  the map has been closed, including one accepted at the same moment: it was either in the map when
  \<^verbatim>\<open>Close\<close> looked, or \<^verbatim>\<open>track\<close> refuses it. Once the listener has been seen to, it is closed as well.
\<close>
theorem close_drops_connections:
  assumes "reachable w" and "sh_closed (w_sh w)"
  shows "(\<forall>c \<in> sh_conns (w_sh w). w_connClosed w c) \<and> (\<forall>c. fst (track c (w_sh w)) = False)
    \<and> (\<forall>j i. w_close w j \<in> {CloseWait, CloseReturned} \<longrightarrow> sh_lis (w_sh w) = Some i \<longrightarrow> w_lisClosed w i)"
  using inv_reachable [OF assms(1)] assms(2) by (auto simp: inv_def accounts_def shuts_def closing_def track_def)

theorem close_drops_connections_witness:
  "\<exists>w. reachable w \<and> w_phase w 3 = Running \<and> w_connClosed w 3 \<and> fst (track 4 (w_sh w)) = False"
proof -
  obtain w where w: "reachable w" "sh_closed (w_sh w)" "w_phase w 3 = Running" using demo_run by blast
  then have "3 \<in> sh_conns (w_sh w)" using inv_reachable [OF w(1)] by (simp add: inv_def accounts_def)
  with close_drops_connections [OF w(1,2)] w show ?thesis by blast
qed

text \<open>
  C20. When \<^verbatim>\<open>Close\<close> has returned, it is over: no handler is running or will ever run again, whatever the
  other goroutines go on to do, the map is empty and both counters are zero.
\<close>
theorem close_is_final:
  assumes "reachable w" and "w_close w j = CloseReturned" and "step\<^sup>*\<^sup>* w w'"
  shows "(\<forall>c. w_phase w' c \<notin> {Running, ConnClosed, Unmapped, Uncounted}) \<and> sh_closed (w_sh w')
    \<and> sh_conns (w_sh w') = {} \<and> sh_current (w_sh w') = 0 \<and> sh_wg (w_sh w') = 0"
proof -
  note inv = inv_reachable [OF reachable_steps [OF assms(3,1)]]
  have ret: "w_close w' j = CloseReturned" by (rule returned_stays [OF assms(3,2)])
  then have none: "\<not> waited (w_phase w' c)" for c using inv by (auto simp: inv_def quiet_def)
  then have "\<not> inMap (w_phase w' c)" "\<not> counted (w_phase w' c)" for c using phase_simps by blast+
  moreover have "w_phase w' c \<notin> {Running, ConnClosed, Unmapped, Uncounted}" for c using none [of c] by (auto simp: phase_defs)
  moreover have "sh_closed (w_sh w')" using inv ret by (metis inv_def closing_def begun.simps(6))
  ultimately show ?thesis using inv none by (simp add: inv_def accounts_def)
qed

theorem close_is_final_witness:
  "\<exists>w. reachable w \<and> w_close w 0 = CloseReturned \<and> (\<forall>c. w_phase w c \<noteq> Running) \<and> sh_wg (w_sh w) = 0"
proof -
  obtain w0 where w0: "reachable w0" "w_close w0 0 \<noteq> CloseNotCalled" using demo_run by (metis close_pc.distinct(3))
  note inv = inv_reachable [OF w0(1)]
  from own_run_ends [OF inv] obtain w where w: "own\<^sup>*\<^sup>* w0 w" "\<nexists>v. own w v" by blast
  from rest_close [OF own_run_inv [OF w(1) inv] w(2) own_keeps_call [OF w(1) w0(2)]] have w': "w_close w 0 = CloseReturned" .
  have r: "reachable w" using reachable_steps [OF own_step [OF w(1)] w0(1)] .
  from close_is_final [OF r w' rtranclp.rtrancl_refl] r w' show ?thesis by blast
qed

text \<open>
  C21. \<^verbatim>\<open>Close\<close> returns. Once it has been called, and without any help from outside (no client ends its
  connection, no deadline passes, nothing new is called or accepted), the goroutines of the server
  can make only boundedly many moves, in whatever order they are scheduled, and when none of them can move
  any more, the call has returned, no handler is left and the \<^verbatim>\<open>Serve\<close> call of the closed listener has returned too. So there is no
  deadlock: nobody waits for the mutex for ever, no handler stays behind in a read, and \<^verbatim>\<open>Close\<close> waits for nothing that
  needs the mutex while holding it.
\<close>
theorem close_returns:
  assumes "reachable w" and "w_close w j \<noteq> CloseNotCalled"
  shows "(\<exists>n. \<forall>k w'. (own ^^ k) w w' \<longrightarrow> k \<le> n) \<and>
    (\<forall>w'. own\<^sup>*\<^sup>* w w' \<and> (\<nexists>v. own w' v) \<longrightarrow>
      w_close w' j = CloseReturned \<and> (\<forall>c. \<not> waited (w_phase w' c)) \<and> (\<forall>i. sh_lis (w_sh w') = Some i \<longrightarrow> w_serve w' i = ServeReturned))"
proof (intro conjI exI allI impI)
  note inv = inv_reachable [OF assms(1)]
  show "k \<le> left w" if "(own ^^ k) w w'" for k w' using own_run_bounded [OF that inv] by simp
  fix w' assume w': "own\<^sup>*\<^sup>* w w' \<and> (\<nexists>v. own w' v)"
  then have rest: "inv w'" "\<nexists>v. own w' v" "w_close w' j \<noteq> CloseNotCalled"
    using own_run_inv [OF _ inv] own_keeps_call [OF _ assms(2)] by blast+
  show ret: "w_close w' j = CloseReturned" by (rule rest_close [OF rest])
  then have "sh_closed (w_sh w')" using rest(1) by (metis inv_def closing_def begun.simps(6))
  then show "\<not> waited (w_phase w' c)" for c by (rule rest_handlers [OF rest(1,2)])
  show "w_serve w' i = ServeReturned" if "sh_lis (w_sh w') = Some i" for i by (rule rest_serve [OF rest(1,2) ret that])
qed

theorem close_returns_witness:
  "\<exists>w w'. reachable w \<and> w_phase w 3 = Running \<and> sh_mu (w_sh w) \<and> own\<^sup>*\<^sup>* w w' \<and> w_close w' 0 = CloseReturned"
proof -
  obtain w where w: "reachable w" "w_phase w 3 = Running" "w_close w 0 = CloseLocked (Some 1)" using demo_run by blast
  from own_run_ends [OF inv_reachable [OF w(1)]] obtain w' where "own\<^sup>*\<^sup>* w w'" "\<nexists>v. own w' v" by blast
  moreover have "sh_mu (w_sh w)" using inv_reachable [OF w(1)] w(3) by (auto simp: inv_def locks_def)
  ultimately show ?thesis using close_returns [OF w(1), of 0] w by (metis close_pc.distinct(3))
qed

end
