(* ===== verification/Client.thy ===== *)
theory Client
  imports Frame Messages
begin

text \<open>
  \<^verbatim>\<open>internal/client\<close>: one client on one connection. \<^verbatim>\<open>Get\<close> and everything below it, over any
  connection and any body writer.

  A client is its connection behind a buffered reader, the next stream id and the two flags. The
  body writer is a writer of its own with its own state. Functions that read are partial;
  \<open>Client_Spec\<close> has their specification on byte streams and the proof that they always return.
\<close>

definition clientTimeout :: nat where "clientTimeout = 30 * 1000000000"
definition clientDrainTime :: nat where "clientDrainTime = 1000000000"
definition clientDrainBytes :: nat where "clientDrainBytes = 65536"

datatype client_err =
    ErrBroken
  | IdsUsedUp
  | CannotBuild proto_err
  | SendingRequest frame_err
  | UnreadableResponse proto_err
  | WritingBody io_err
  | RemoteError (re_code: u16) (re_message: "byte list")
  | ServerRequest
  | UnexpectedFrame "byte list" u32 byte u32
  | ServerStreamZero
  | ServerOversize u32
  | ClosedEarly
  | ReadingResponse frame_err
  | LengthNotNumber "byte list"
  | LengthMismatch int int

record result =
  re_status :: int
  re_headers :: "header list"
  re_bodyBytes :: int

record 'c client =
  cl_timeout :: nat
  cl_br :: "'c bufio"
  cl_next :: u32
  cl_exhausted :: bool
  cl_broken :: bool

definition cl_conn :: "'c client \<Rightarrow> 'c" where
  "cl_conn c = bf_rd (cl_br c)"

definition onClConn :: "('c \<Rightarrow> 'c) \<Rightarrow> 'c client \<Rightarrow> 'c client" where
  "onClConn f c = c\<lparr>cl_br := (cl_br c)\<lparr>bf_rd := f (bf_rd (cl_br c))\<rparr>\<rparr>"

definition newClient :: "'c \<Rightarrow> 'c client" where
  "newClient conn = \<lparr>cl_timeout = clientTimeout, cl_br = bufioNew conn, cl_next = 1, cl_exhausted = False, cl_broken = False\<rparr>"

definition closeClient :: "'c net_conn \<Rightarrow> 'c client \<Rightarrow> 'c client" where
  "closeClient nc c = onClConn (nc_close nc) c"

definition clFail :: "'c net_conn \<Rightarrow> 'c client \<Rightarrow> 'c client" where
  "clFail nc c = onClConn (nc_close nc) (c\<lparr>cl_broken := True\<rparr>)"

text \<open>Writing a frame under the write deadline, as \<^verbatim>\<open>Get\<close> and \<^verbatim>\<open>sendError\<close> both do.\<close>

definition clWrite :: "'c net_conn \<Rightarrow> frame \<Rightarrow> 'c client \<Rightarrow> frame_err option \<times> 'c client" where
  "clWrite nc f c =
     (case writeFrame (nc_write nc) f (nc_setWriteDeadline nc (cl_timeout c) (cl_conn c)) of
        (e, conn) \<Rightarrow> (e, onClConn (\<lambda>_. conn) c))"

definition sendError :: "'c net_conn \<Rightarrow> u16 \<Rightarrow> byte list \<Rightarrow> 'c client \<Rightarrow> 'c client option" where
  "sendError nc code msg c =
     (case encodeConnError \<lparr>ce_code = code, ce_message = msg\<rparr> of
        Inl _ \<Rightarrow> Some c
      | Inr payload \<Rightarrow>
        (case clWrite nc \<lparr>fr_type = TypeError, fr_flags = 0, fr_stream = 0, fr_payload = payload\<rparr> c of
           (Some _, c1) \<Rightarrow> Some c1
         | (None, c1) \<Rightarrow>
           (let c2 = onClConn (case nc_closeWrite nc of Some f \<Rightarrow> f | None \<Rightarrow> (\<lambda>x. x)) c1;
                c3 = onClConn (nc_setReadDeadline nc clientDrainTime) c2
            in case copyDiscard (bufioRead (nc_read nc)) clientDrainBytes (cl_br c3) of
                 None \<Rightarrow> None
               | Some (_, br) \<Rightarrow> Some (c3\<lparr>cl_br := br\<rparr>))))"

definition clReadFrame :: "'c net_conn \<Rightarrow> 'c client \<Rightarrow> ((client_err + frame) \<times> 'c client) option" where
  "clReadFrame nc c =
     (let c1 = onClConn (nc_setReadDeadline nc (cl_timeout c)) c in
      case readFrame (bufioRead (nc_read nc)) (cl_br c1) of
        None \<Rightarrow> None
      | Some (res, br) \<Rightarrow>
        (let c2 = c1\<lparr>cl_br := br\<rparr> in
         case res of
           Inr f \<Rightarrow> Some (Inr f, c2)
         | Inl err \<Rightarrow>
           (case err of
              ErrStreamZero \<Rightarrow>
                map_option (\<lambda>c3. (Inl ServerStreamZero, c3))
                  (sendError nc CodeInvalidStreamID (str ''stream id 0 is not valid here'') c2)
            | OversizeError t n \<Rightarrow>
                map_option (\<lambda>c3. (Inl (ServerOversize n), c3))
                  (if t \<noteq> TypeError then sendError nc CodeFrameTooLarge (str ''frame payload is too large'') c2 else Some c2)
            | FrameIO EOF \<Rightarrow> Some (Inl ClosedEarly, c2)
            | ErrTruncated \<Rightarrow> Some (Inl ClosedEarly, c2)
            | _ \<Rightarrow> Some (Inl (ReadingResponse err), c2))))"

definition remoteError :: "frame \<Rightarrow> client_err" where
  "remoteError f =
     (case decodeConnError (fr_payload f) of
        Inl _ \<Rightarrow> RemoteError 0 (str ''unreadable error message'')
      | Inr ce \<Rightarrow> RemoteError (ce_code ce) (ce_message ce))"

definition typeLabel :: "byte \<Rightarrow> byte list" where
  "typeLabel t = (if t = TypeResponse then str ''a response'' else str ''data'')"

definition expect :: "'c net_conn \<Rightarrow> frame \<Rightarrow> byte \<Rightarrow> u32 \<Rightarrow> 'c client \<Rightarrow> (client_err option \<times> 'c client) option" where
  "expect nc f want sid c =
     (if fr_type f = TypeError then Some (Some (remoteError f), c)
      else if fr_type f = TypeRequest then
        map_option (\<lambda>c1. (Some ServerRequest, c1))
          (sendError nc CodeProtocolError (str ''unexpected request from server'') c)
      else if fr_type f \<noteq> want \<or> fr_stream f \<noteq> sid
      then Some (Some (UnexpectedFrame (typeLabel want) sid (fr_type f) (fr_stream f)), c)
      else Some (None, c))"

text \<open>
  \<^verbatim>\<open>checkLength\<close>, one step per header. The digit test before \<^verbatim>\<open>ParseInt\<close> keeps signs out, and
  \<^verbatim>\<open>ParseInt\<close> itself refuses what does not fit 64 bits.
\<close>

fun checkLength :: "header list \<Rightarrow> int \<Rightarrow> client_err option" where
  "checkLength [] got = None"
| "checkLength (h # hs) got =
     (if hd_name h \<noteq> HeaderContentLength then checkLength hs got
      else if length (hd_value h) = 0 \<or> length (hd_value h) > 19 then Some (LengthNotNumber (hd_value h))
      else if list_ex (\<lambda>b. b < chr CHR ''0'' \<or> b > chr CHR ''9'') (hd_value h) then Some (LengthNotNumber (hd_value h))
      else (case parseInt (hd_value h) of
          None \<Rightarrow> Some (LengthNotNumber (hd_value h))
        | Some want \<Rightarrow> if want \<noteq> got then Some (LengthMismatch want got) else checkLength hs got))"

text \<open>The loop of \<^verbatim>\<open>readResponse\<close> over DATA frames, with the bytes counted so far; \<open>bw\<close> is the body writer.\<close>

partial_function (option) readBody ::
  "'c net_conn \<Rightarrow> 'b writer \<Rightarrow> u32 \<Rightarrow> bool \<Rightarrow> int \<Rightarrow> 'c client \<Rightarrow> 'b
     \<Rightarrow> ((client_err + int) \<times> 'c client \<times> 'b) option" where
  "readBody nc bw sid fin n c b =
     (if fin then Some (Inr n, c, b)
      else (case clReadFrame nc c of
          None \<Rightarrow> None
        | Some (Inl e, c1) \<Rightarrow> Some (Inl e, c1, b)
        | Some (Inr d, c1) \<Rightarrow>
          (case expect nc d TypeData sid c1 of
             None \<Rightarrow> None
           | Some (Some e, c2) \<Rightarrow> Some (Inl e, c2, b)
           | Some (None, c2) \<Rightarrow>
             (case bw (fr_payload d) b of
                ((_, Some e), b1) \<Rightarrow> Some (Inl (WritingBody e), c2, b1)
              | ((_, None), b1) \<Rightarrow>
                  readBody nc bw sid (Has (fr_flags d) FlagEndStream) (n + int (length (fr_payload d))) c2 b1))))"

definition readResponse ::
  "'c net_conn \<Rightarrow> 'b writer \<Rightarrow> u32 \<Rightarrow> 'c client \<Rightarrow> 'b \<Rightarrow> ((client_err + result) \<times> 'c client \<times> 'b) option" where
  "readResponse nc bw sid c b =
     (case clReadFrame nc c of
        None \<Rightarrow> None
      | Some (Inl e, c1) \<Rightarrow> Some (Inl e, c1, b)
      | Some (Inr f, c1) \<Rightarrow>
        (case expect nc f TypeResponse sid c1 of
           None \<Rightarrow> None
         | Some (Some e, c2) \<Rightarrow> Some (Inl e, c2, b)
         | Some (None, c2) \<Rightarrow>
           (case decodeResponse (fr_payload f) of
              Inl e \<Rightarrow> Some (Inl (UnreadableResponse e), c2, b)
            | Inr resp \<Rightarrow>
              (case readBody nc bw sid (Has (fr_flags f) FlagEndStream) 0 c2 b of
                 None \<Rightarrow> None
               | Some (Inl e, c3, b1) \<Rightarrow> Some (Inl e, c3, b1)
               | Some (Inr n, c3, b1) \<Rightarrow>
                 (case checkLength (rs_headers resp) n of
                    Some e \<Rightarrow> Some (Inl e, c3, b1)
                  | None \<Rightarrow>
                      Some (Inr \<lparr>re_status = rs_status resp, re_headers = rs_headers resp, re_bodyBytes = n\<rparr>, c3, b1))))))"

definition clientGet ::
  "'c net_conn \<Rightarrow> 'b writer \<Rightarrow> byte list \<Rightarrow> header list \<Rightarrow> 'c client \<Rightarrow> 'b
     \<Rightarrow> ((client_err + result) \<times> 'c client \<times> 'b) option" where
  "clientGet nc bw path headers c b =
     (if cl_broken c then Some (Inl ErrBroken, c, b)
      else if cl_exhausted c then Some (Inl IdsUsedUp, clFail nc c, b)
      else let sid = cl_next c;
               c1 = (if sid = 0xFFFFFFFF then c\<lparr>cl_exhausted := True\<rparr> else c\<lparr>cl_next := sid + 1\<rparr>)
           in case encodeRequest \<lparr>rq_method = MethodGet, rq_path = path, rq_headers = headers\<rparr> of
                Inl e \<Rightarrow> Some (Inl (CannotBuild e), c1, b)
              | Inr payload \<Rightarrow>
                (case clWrite nc \<lparr>fr_type = TypeRequest, fr_flags = FlagEndStream, fr_stream = sid, fr_payload = payload\<rparr> c1 of
                   (Some e, c2) \<Rightarrow> Some (Inl (SendingRequest e), clFail nc c2, b)
                 | (None, c2) \<Rightarrow>
                   (case readResponse nc bw sid c2 b of
                      None \<Rightarrow> None
                    | Some (Inl e, c3, b1) \<Rightarrow> Some (Inl e, clFail nc c3, b1)
                    | Some (Inr res, c3, b1) \<Rightarrow> Some (Inr res, c3, b1))))"

end
