(* ===== verification/Client_Spec.thy ===== *)
theory Client_Spec
  imports Client
begin

text \<open>
  What a client promises on the bytes it receives: every operation returns, a success means that a
  complete response on the right stream was received, with the body passed on unchanged and every
  announced length right, and such a response always is a success.
\<close>

subsection \<open>Where a body goes\<close>

text \<open>
  The contract of a body writer: besides \<^verbatim>\<open>io.Writer\<close>'s bounds, a write that reports no error took
  everything.
\<close>

locale body_writer = io_writer bw bout for bw :: "'b writer" and bout +
  fixes space :: "'b \<Rightarrow> bool"
  assumes write_full: "bw p b = ((k, None), b') \<Longrightarrow> k = int (length p)"
    and write_space: "space b \<Longrightarrow> bw p b = ((k, e), b') \<Longrightarrow> e = None \<and> space b'"
begin

lemma write_ok: "bw p b = ((k, None), b') \<Longrightarrow> bout b' = bout b @ p"
  using write_full write_out by fastforce

end

text \<open>An output file on a disk with room for so many more bytes; \<open>None\<close> is no limit.\<close>

record out_file =
  of_data :: "byte list"
  of_room :: "nat option"

definition outWrite :: "out_file writer" where
  "outWrite p b =
     (case of_room b of
        None \<Rightarrow> ((int (length p), None), b\<lparr>of_data := of_data b @ p\<rparr>)
      | Some k \<Rightarrow>
          if length p \<le> k then ((int (length p), None), b\<lparr>of_data := of_data b @ p, of_room := Some (k - length p)\<rparr>)
          else ((int k, Some (IOFail 28)), b\<lparr>of_data := of_data b @ take k p, of_room := Some 0\<rparr>))"

interpretation outf: body_writer outWrite of_data "\<lambda>b. of_room b = None"
  by unfold_locales (auto simp: outWrite_def split: option.splits if_splits)

subsection \<open>The operations on a connection\<close>

definition sameClient :: "'c client \<Rightarrow> 'c client \<Rightarrow> bool" where
  "sameClient c c' \<longleftrightarrow> cl_next c' = cl_next c \<and> cl_exhausted c' = cl_exhausted c \<and> cl_broken c' = cl_broken c"

lemma sameClient_trans: "sameClient a b \<Longrightarrow> sameClient b c \<Longrightarrow> sameClient a c"
  by (simp add: sameClient_def)

text \<open>What the errors of the frame layer become.\<close>

definition readErr :: "frame_err \<Rightarrow> client_err" where
  "readErr err =
     (case err of
        ErrStreamZero \<Rightarrow> ServerStreamZero
      | OversizeError _ n \<Rightarrow> ServerOversize n
      | FrameIO EOF \<Rightarrow> ClosedEarly
      | ErrTruncated \<Rightarrow> ClosedEarly
      | _ \<Rightarrow> ReadingResponse err)"

text \<open>The beginning, perhaps empty or whole, of an ERROR frame on stream 0.\<close>

definition complaint :: "byte list \<Rightarrow> bool" where
  "complaint x \<longleftrightarrow> (\<exists>g m. fr_type g = TypeError \<and> fr_stream g = 0 \<and> x = take m (frameBytes g))"

lemma complaint_take: "fr_type g = TypeError \<Longrightarrow> fr_stream g = 0 \<Longrightarrow> complaint (take m (frameBytes g))"
  by (auto simp: complaint_def)

lemma complaint_Nil: "complaint []"
  using complaint_take [of "\<lparr>fr_type = TypeError, fr_flags = 0, fr_stream = 0, fr_payload = []\<rparr>" 0] by simp

context net_conn
begin

abbreviation pend :: "'c client \<Rightarrow> byte list" where
  "pend c \<equiv> sock.bcontent (cl_br c)"

abbreviation good :: "'c client \<Rightarrow> bool" where
  "good c \<equiv> sock.bok (cl_br c)"

lemma clWrite_spec:
  assumes "encodable f" "good c"
  shows "\<exists>e c' k. clWrite nc f c = (e, c') \<and> sameClient c c' \<and> good c' \<and> pend c' = pend c
    \<and> ending (cl_conn c') = ending (cl_conn c)
    \<and> (reliable (cl_conn c) \<longrightarrow> reliable (cl_conn c') \<and> e = None)
    \<and> out (cl_conn c') = out (cl_conn c) @ take k (frameBytes f) \<and> (e = None \<longrightarrow> k = length (frameBytes f))"
proof -
  let ?c = "nc_setWriteDeadline nc (cl_timeout c) (cl_conn c)"
  obtain e c' where wr: "writeAll (nc_write nc) (frameBytes f) ?c = (e, c')" by (metis surj_pair)
  from wside.writeAll_out [OF this] obtain k where "k \<le> length (frameBytes f)"
    "out c' = out ?c @ take k (frameBytes f)" "e = None \<longrightarrow> k = length (frameBytes f)" by blast
  moreover note writeAll_frame [OF wr] setWrite_law [of "cl_timeout c" "cl_conn c"]
  moreover have "reliable ?c \<Longrightarrow> reliable c' \<and> e = None"
    using writeAll_reliable [of ?c "frameBytes f"] wr by (metis prod.inject)
  ultimately show ?thesis using wr encodeFrame_encodable [OF assms(1)] assms(2)
    by (auto simp: clWrite_def writeFrame_def onClConn_def cl_conn_def sock.bcontent_def sock.bok_def sameClient_def)
qed

text \<open>All that went out between two states is at most one ERROR frame, or the beginning of one.\<close>

definition talked :: "'c client \<Rightarrow> 'c client \<Rightarrow> bool" where
  "talked c c' \<longleftrightarrow> (\<exists>x. complaint x \<and> out (cl_conn c') = out (cl_conn c) @ x)"

lemma talked_silent: "out (cl_conn c') = out (cl_conn c) \<Longrightarrow> talked c c'"
  by (auto simp: talked_def intro: complaint_Nil)

lemma talked_after: "out (cl_conn b) = out (cl_conn a) \<Longrightarrow> talked b c \<Longrightarrow> talked a c"
  by (simp add: talked_def)

lemma sendError_returns:
  assumes "good c"
  shows "\<exists>c'. sendError nc code msg c = Some c' \<and> sameClient c c' \<and> good c' \<and> talked c c'"
proof (cases "encodeConnError \<lparr>ce_code = code, ce_message = msg\<rparr>")
  case (Inl e)
  then show ?thesis using assms by (simp add: sendError_def sameClient_def talked_silent)
next
  case (Inr payload)
  let ?f = "\<lparr>fr_type = TypeError, fr_flags = 0, fr_stream = 0, fr_payload = payload\<rparr>"
  have "encodable ?f" using Inr
    by (auto simp: encodeConnError_def encodable_def needsStream_def type_defs appendU16_def split: if_splits)
  from clWrite_spec [OF this assms] obtain e c1 k where w: "clWrite nc ?f c = (e, c1)" "sameClient c c1" "good c1"
    "out (cl_conn c1) = out (cl_conn c) @ take k (frameBytes ?f)" by blast
  have talk: "talked c c'" if "out (cl_conn c') = out (cl_conn c1)" for c'
    using that w(4) complaint_take [of ?f k] by (auto simp: talked_def)
  let ?c2 = "onClConn (case nc_closeWrite nc of Some f \<Rightarrow> f | None \<Rightarrow> (\<lambda>x. x)) c1"
  let ?c3 = "onClConn (nc_setReadDeadline nc clientDrainTime) ?c2"
  have "good ?c2" using w(3) closeWrite_law by (auto simp: onClConn_def sock.bok_def split: option.splits)
  then have g3: "good ?c3" using setRead_law by (simp add: onClConn_def sock.bok_def)
  from sock.buf.copyDiscard_spec [OF this] obtain n br where
    drain: "copyDiscard (bufioRead (nc_read nc)) clientDrainBytes (cl_br ?c3) = Some (n, br)" "sock.buf.after clientDrainBytes (cl_br ?c3) br" .
  have "out (cl_conn ?c3) = out (cl_conn c1)"
    using setRead_law closeWrite_law by (auto simp: onClConn_def cl_conn_def split: option.splits)
  then have "out (bf_rd br) = out (cl_conn c1)" using drain(2) by (simp add: sock.buf.after_def cl_conn_def)
  then have "talked c (?c3\<lparr>cl_br := br\<rparr>)" by (intro talk) (simp add: cl_conn_def)
  then show ?thesis using w(1-3) Inr drain talk [of c1]
    by (cases e) (auto simp: sendError_def Let_def sock.buf.after_def sameClient_def onClConn_def)
qed

text \<open>Nothing was sent and nothing but input consumed.\<close>

definition onlyRead :: "'c client \<Rightarrow> 'c client \<Rightarrow> bool" where
  "onlyRead c c' \<longleftrightarrow> sameClient c c' \<and> good c' \<and> ending (cl_conn c') = ending (cl_conn c)
     \<and> out (cl_conn c') = out (cl_conn c) \<and> reliable (cl_conn c') = reliable (cl_conn c)"

lemma onlyRead_talked: "onlyRead a b \<Longrightarrow> talked b c \<Longrightarrow> talked a c"
  using talked_after [of b a c] by (simp add: onlyRead_def)

lemma onlyRead_silent: "onlyRead a b \<Longrightarrow> talked a b"
  by (rule talked_silent) (simp add: onlyRead_def)

lemma onlyRead_trans: "onlyRead a b \<Longrightarrow> onlyRead b c \<Longrightarrow> onlyRead a c"
  by (auto simp: onlyRead_def intro: sameClient_trans)

lemma clReadFrame_spec:
  assumes "good c" "parseFrame (ending (cl_conn c)) (pend c) = (res, later)"
  shows "\<exists>r c'. clReadFrame nc c = Some (r, c') \<and> sameClient c c' \<and> good c' \<and> talked c c'
    \<and> (case res of Inr f \<Rightarrow> r = Inr f \<and> pend c' = later \<and> onlyRead c c' | Inl err \<Rightarrow> r = Inl (readErr err))"
proof -
  let ?c1 = "onClConn (nc_setReadDeadline nc (cl_timeout c)) c"
  have c1: "good ?c1" "pend ?c1 = pend c" "ending (bf_rd (cl_br ?c1)) = ending (cl_conn c)"
    "out (bf_rd (cl_br ?c1)) = out (cl_conn c)" "reliable (bf_rd (cl_br ?c1)) = reliable (cl_conn c)"
    using assms(1) setRead_law [of "cl_timeout c" "cl_conn c"]
    by (simp_all add: onClConn_def cl_conn_def sock.bok_def sock.bcontent_def)
  from sock.buf.readFrame_refines [OF c1(1), unfolded c1(2-5) assms(2)] obtain br where
    br: "readFrame (bufioRead (nc_read nc)) (cl_br ?c1) = Some (res, br)" "sock.bok br" "sock.bcontent br = later"
      "ending (bf_rd br) = ending (cl_conn c)" "out (bf_rd br) = out (cl_conn c)" "reliable (bf_rd br) = reliable (cl_conn c)"
    by auto
  let ?c2 = "?c1\<lparr>cl_br := br\<rparr>"
  have same: "sameClient c ?c2" by (simp add: sameClient_def onClConn_def)
  show ?thesis
  proof (cases res)
    case (Inr f)
    with br same show ?thesis by (simp add: clReadFrame_def Let_def onlyRead_def cl_conn_def talked_silent)
  next
    case (Inl err)
    have quiet: "out (cl_conn ?c2) = out (cl_conn c)" using br(5) by (simp add: cl_conn_def)
    from sendError_returns [of ?c2] br(2) obtain g where g: "\<And>code msg. sendError nc code msg ?c2 = Some (g code msg)"
      "\<And>code msg. sameClient ?c2 (g code msg) \<and> good (g code msg) \<and> talked ?c2 (g code msg)" by simp metis
    show ?thesis using Inl br(1,2) g same sameClient_trans [OF same] talked_silent [OF quiet] talked_after [OF quiet]
      by (cases err) (auto simp: clReadFrame_def Let_def readErr_def split: io_err.splits)
  qed
qed

lemma expect_spec:
  assumes "good c"
  shows "\<exists>e c'. expect nc f want sid c = Some (e, c') \<and> sameClient c c' \<and> good c' \<and> talked c c'
    \<and> (e = None \<longrightarrow> c' = c)
    \<and> (e = None \<longleftrightarrow> fr_type f = want \<and> fr_stream f = sid \<and> want \<noteq> TypeError \<and> want \<noteq> TypeRequest)"
  using sendError_returns [OF assms] assms talked_silent [of c c] by (fastforce simp: expect_def sameClient_def)

end

subsection \<open>Reading a response\<close>

definition dataFor :: "u32 \<Rightarrow> frame \<Rightarrow> bool" where
  "dataFor sid g \<longleftrightarrow> fr_type g = TypeData \<and> fr_stream g = sid"

text \<open>The DATA frames that complete a response whose END_STREAM was seen already, or not.\<close>

definition completes :: "u32 \<Rightarrow> bool \<Rightarrow> frame list \<Rightarrow> bool" where
  "completes sid fin datas \<longleftrightarrow> list_all (dataFor sid) datas \<and>
     (if fin then datas = [] else datas \<noteq> [] \<and> list_all (\<lambda>g. \<not> endsStream g) (butlast datas) \<and> endsStream (last datas))"

lemma completes_Cons:
  "completes sid fin (d # ds) \<longleftrightarrow> \<not> fin \<and> dataFor sid d \<and> completes sid (endsStream d) ds"
  by (auto simp: completes_def)

abbreviation payloads :: "frame list \<Rightarrow> byte list" where
  "payloads fs \<equiv> concat (map fr_payload fs)"

lemma responseShape_completes:
  "responseShape sid head datas \<longleftrightarrow> fr_type head = TypeResponse \<and> fr_stream head = sid \<and> completes sid (endsStream head) datas"
  by (auto simp: responseShape_def completes_def dataFor_def [abs_def])

text \<open>What a success of \<^verbatim>\<open>readResponse\<close> stands for.\<close>

definition received :: "io_err \<Rightarrow> byte list \<Rightarrow> u32 \<Rightarrow> result \<Rightarrow> byte list \<Rightarrow> byte list \<Rightarrow> bool" where
  "received e bs sid res body later \<longleftrightarrow> (\<exists>head datas resp. parses e bs (head # datas) later \<and> responseShape sid head datas
     \<and> decodeResponse (fr_payload head) = Inr resp \<and> body = payloads datas
     \<and> res = \<lparr>re_status = rs_status resp, re_headers = rs_headers resp, re_bodyBytes = int (length body)\<rparr>
     \<and> checkLength (rs_headers resp) (int (length body)) = None)"

text \<open>The request a call of \<^verbatim>\<open>Get\<close> sends, and the client after it has taken its stream id.\<close>

definition requestFrame :: "u32 \<Rightarrow> byte list \<Rightarrow> header list \<Rightarrow> frame" where
  "requestFrame sid path hs = \<lparr>fr_type = TypeRequest, fr_flags = FlagEndStream, fr_stream = sid,
     fr_payload = requestBytes \<lparr>rq_method = MethodGet, rq_path = path, rq_headers = hs\<rparr>\<rparr>"

definition tookId :: "'c client \<Rightarrow> 'c client \<Rightarrow> bool" where
  "tookId c c' \<longleftrightarrow> (if cl_next c = 0xFFFFFFFF then cl_next c' = cl_next c \<and> cl_exhausted c' else cl_next c' = cl_next c + 1 \<and> \<not> cl_exhausted c')"

lemma requestFrame_wf:
  assumes "encodeRequest \<lparr>rq_method = MethodGet, rq_path = path, rq_headers = hs\<rparr> = Inr p" "sid \<noteq> 0"
  shows "encodable (requestFrame sid path hs)" "p = fr_payload (requestFrame sid path hs)" "known TypeRequest"
  using assms by (auto simp: encodeRequest_Inr requestFrame_def encodable_def known_def type_defs)

locale client_conn = net_conn nc content ending weight out ctl reliable + body_writer bw bout space
  for nc :: "'c net_conn" and content ending weight out ctl reliable and bw :: "'b writer" and bout space
begin

lemma readBody_spec:
  assumes "good c"
  shows "\<exists>r c' b'. readBody nc bw sid fin n c b = Some (r, c', b') \<and> sameClient c c' \<and> good c' \<and> talked c c'
    \<and> (\<forall>m. r = Inr m \<longrightarrow> (\<exists>datas. onlyRead c c' \<and> parses (ending (cl_conn c)) (pend c) datas (pend c')
        \<and> completes sid fin datas \<and> m = n + int (length (payloads datas)) \<and> bout b' = bout b @ payloads datas))"
  using assms
proof (induction "length (pend c)" arbitrary: c n fin b rule: less_induct)
  case less
  note unfold = readBody.simps [of nc bw sid _ n c b]
  obtain res later where parse: "parseFrame (ending (cl_conn c)) (pend c) = (res, later)" by (metis surj_pair)
  from clReadFrame_spec [OF less.prems parse] obtain r c1 where rd: "clReadFrame nc c = Some (r, c1)" "sameClient c c1" "good c1"
    "case res of Inr f \<Rightarrow> r = Inr f \<and> pend c1 = later \<and> onlyRead c c1 | Inl err \<Rightarrow> r = Inl (readErr err)" "talked c c1" by blast
  consider (fin) fin | (err) e where "\<not> fin" "r = Inl e"
    | (frame) d where "\<not> fin" "r = Inr d" "res = Inr d" "pend c1 = later" "onlyRead c c1"
    using rd(4) by (cases res) auto
  then show ?case
  proof cases
    case fin
    then show ?thesis using less.prems by (auto simp: unfold sameClient_def onlyRead_def completes_def talked_silent intro!: exI [of _ "[]"])
  next
    case err
    then show ?thesis using rd by (simp add: unfold)
  next
    case (frame d)
    from expect_spec [OF rd(3), of d TypeData sid] obtain e c2 where ex: "expect nc d TypeData sid c1 = Some (e, c2)" "sameClient c1 c2"
      "good c2" "e = None \<longrightarrow> c2 = c1" "e = None \<longleftrightarrow> dataFor sid d" "talked c1 c2" by (auto simp: dataFor_def type_defs)
    obtain k we b1 where wr: "bw (fr_payload d) b = ((k, we), b1)" by (metis surj_pair)
    show ?thesis
    proof (cases "e = None \<and> we = None")
      case False
      with frame rd ex wr onlyRead_talked [OF frame(5) ex(6)] show ?thesis
        by (cases e; cases we) (auto simp: unfold intro: sameClient_trans)
    next
      case True
      have "length (pend c1) < length (pend c)" using parse_Inr_shorter [OF parse [unfolded frame(3)]] frame(4) by simp
      from less.hyps [OF this rd(3), of "endsStream d" "n + int (length (fr_payload d))" b1] obtain r' c' b' where
        IH: "readBody nc bw sid (endsStream d) (n + int (length (fr_payload d))) c1 b1 = Some (r', c', b')" "sameClient c1 c'" "good c'"
        "\<forall>m. r' = Inr m \<longrightarrow> (\<exists>datas. onlyRead c1 c' \<and> parses (ending (cl_conn c1)) (pend c1) datas (pend c')
          \<and> completes sid (endsStream d) datas \<and> m = n + int (length (fr_payload d)) + int (length (payloads datas))
          \<and> bout b' = bout b1 @ payloads datas)" "talked c1 c'" by blast
      have run: "readBody nc bw sid fin n c b = Some (r', c', b')"
        using frame(1,2) rd(1) ex wr True IH(1) by (simp add: unfold endsStream_def)
      have "\<exists>datas. onlyRead c c' \<and> parses (ending (cl_conn c)) (pend c) datas (pend c') \<and> completes sid fin datas
          \<and> m = n + int (length (payloads datas)) \<and> bout b' = bout b @ payloads datas" if "r' = Inr m" for m
      proof -
        from IH(4) that obtain datas where "onlyRead c1 c'" "parses (ending (cl_conn c1)) (pend c1) datas (pend c')"
          "completes sid (endsStream d) datas" "m = n + int (length (fr_payload d)) + int (length (payloads datas))"
          "bout b' = bout b1 @ payloads datas" by blast
        moreover have "bout b1 = bout b @ fr_payload d" using write_ok wr True by blast
        moreover have "ending (cl_conn c1) = ending (cl_conn c)" using frame(5) by (simp add: onlyRead_def)
        ultimately show ?thesis using frame ex True parse onlyRead_trans
          by (intro exI [of _ "d # datas"]) (auto simp: completes_Cons)
      qed
      then show ?thesis using run IH(3) sameClient_trans [OF rd(2) IH(2)] onlyRead_talked [OF frame(5) IH(5)] by blast
    qed
  qed
qed

lemma readBody_complete:
  assumes "good c" "parses (ending (cl_conn c)) (pend c) datas later" "completes sid fin datas" "space b"
  shows "\<exists>c' b'. readBody nc bw sid fin n c b = Some (Inr (n + int (length (payloads datas))), c', b')
    \<and> onlyRead c c' \<and> pend c' = later \<and> bout b' = bout b @ payloads datas \<and> space b'"
  using assms
proof (induction datas arbitrary: c fin n b)
  case Nil
  then show ?case by (simp add: readBody.simps completes_def onlyRead_def sameClient_def split: if_splits)
next
  case (Cons d ds)
  from Cons.prems(2) obtain bs1 where parse: "parseFrame (ending (cl_conn c)) (pend c) = (Inr d, bs1)"
    "parses (ending (cl_conn c)) bs1 ds later" by (auto split: prod.splits sum.splits)
  from clReadFrame_spec [OF Cons.prems(1) parse(1)] obtain c1 where rd: "clReadFrame nc c = Some (Inr d, c1)" "good c1"
    "pend c1 = bs1" "onlyRead c c1" by auto
  from Cons.prems(3) have d: "\<not> fin" "dataFor sid d" "completes sid (endsStream d) ds" by (auto simp: completes_Cons)
  from expect_spec [OF rd(2), of d TypeData sid] d(2) have ex: "expect nc d TypeData sid c1 = Some (None, c1)"
    by (auto simp: dataFor_def type_defs)
  obtain k b1 where wr: "bw (fr_payload d) b = ((k, None), b1)" "space b1"
    using write_space [OF Cons.prems(4)] by (metis surj_pair)
  have "parses (ending (cl_conn c1)) (pend c1) ds later" using parse(2) rd(3,4) by (simp add: onlyRead_def)
  from Cons.IH [OF rd(2) this d(3) wr(2), of "n + int (length (fr_payload d))"] obtain c' b' where
    "readBody nc bw sid (endsStream d) (n + int (length (fr_payload d))) c1 b1 =
       Some (Inr (n + int (length (fr_payload d)) + int (length (payloads ds))), c', b')"
    "onlyRead c1 c'" "pend c' = later" "bout b' = bout b1 @ payloads ds" "space b'" by blast
  then show ?case using rd d(1) ex wr write_ok [OF wr(1)] onlyRead_trans [OF rd(4)]
    by (simp add: readBody.simps [of nc bw sid _ n c b] endsStream_def)
qed

lemma readResponse_spec:
  assumes "good c"
  shows "\<exists>r c' b'. readResponse nc bw sid c b = Some (r, c', b') \<and> sameClient c c' \<and> good c' \<and> talked c c'
    \<and> (\<forall>res. r = Inr res \<longrightarrow> onlyRead c c'
        \<and> (\<exists>body. received (ending (cl_conn c)) (pend c) sid res body (pend c') \<and> bout b' = bout b @ body))"
proof -
  obtain pres later where parse: "parseFrame (ending (cl_conn c)) (pend c) = (pres, later)" by (metis surj_pair)
  from clReadFrame_spec [OF assms parse] obtain r c1 where rd: "clReadFrame nc c = Some (r, c1)" "sameClient c c1" "good c1"
    "case pres of Inr f \<Rightarrow> r = Inr f \<and> pend c1 = later \<and> onlyRead c c1 | Inl err \<Rightarrow> r = Inl (readErr err)" "talked c c1" by blast
  show ?thesis
  proof (cases pres)
    case (Inl err)
    then show ?thesis using rd by (simp add: readResponse_def)
  next
    case (Inr f)
    then have f: "r = Inr f" "pend c1 = later" "onlyRead c c1" using rd(4) by auto
    from expect_spec [OF rd(3), of f TypeResponse sid] obtain e c2 where ex: "expect nc f TypeResponse sid c1 = Some (e, c2)"
      "sameClient c1 c2" "good c2" "e = None \<longrightarrow> c2 = c1" "e = None \<longleftrightarrow> fr_type f = TypeResponse \<and> fr_stream f = sid"
      "talked c1 c2" by (auto simp: type_defs)
    show ?thesis
    proof (cases "e = None \<and> (\<exists>resp. decodeResponse (fr_payload f) = Inr resp)")
      case False
      with rd f ex onlyRead_talked [OF f(3) ex(6)] show ?thesis
        by (cases e; cases "decodeResponse (fr_payload f)") (auto simp: readResponse_def intro: sameClient_trans)
    next
      case True
      then obtain resp where dec: "decodeResponse (fr_payload f) = Inr resp" and e: "e = None" by blast
      from readBody_spec [OF rd(3), of sid "endsStream f" 0 b] obtain rb c' b' where
        rb: "readBody nc bw sid (endsStream f) 0 c1 b = Some (rb, c', b')" "sameClient c1 c'" "good c'"
        "\<forall>m. rb = Inr m \<longrightarrow> (\<exists>datas. onlyRead c1 c' \<and> parses (ending (cl_conn c1)) (pend c1) datas (pend c')
          \<and> completes sid (endsStream f) datas \<and> m = 0 + int (length (payloads datas)) \<and> bout b' = bout b @ payloads datas)" "talked c1 c'" by blast
      have run: "readResponse nc bw sid c b = (case rb of Inl x \<Rightarrow> Some (Inl x, c', b') | Inr n \<Rightarrow>
          (case checkLength (rs_headers resp) n of Some x \<Rightarrow> Some (Inl x, c', b')
           | None \<Rightarrow> Some (Inr \<lparr>re_status = rs_status resp, re_headers = rs_headers resp, re_bodyBytes = n\<rparr>, c', b')))"
        using rd(1) f(1) ex(1,4) e dec rb(1) by (simp add: readResponse_def endsStream_def split: sum.splits)
      have same: "sameClient c c'" using rd(2) rb(2) by (rule sameClient_trans)
      have talk: "talked c c'" using f(3) rb(5) by (rule onlyRead_talked)
      show ?thesis
      proof (cases "\<exists>n. rb = Inr n \<and> checkLength (rs_headers resp) n = None")
        case False
        then show ?thesis using run same talk rb(3) by (auto split: sum.splits option.splits)
      next
        case True
        then obtain n where n: "rb = Inr n" "checkLength (rs_headers resp) n = None" by blast
        from rb(4) n(1) obtain datas where d: "onlyRead c1 c'" "parses (ending (cl_conn c1)) (pend c1) datas (pend c')"
          "completes sid (endsStream f) datas" "n = int (length (payloads datas))" "bout b' = bout b @ payloads datas" by auto
        have "parses (ending (cl_conn c)) (pend c) (f # datas) (pend c')"
          using d(2) f parse Inr by (simp add: onlyRead_def)
        then have "received (ending (cl_conn c)) (pend c) sid \<lparr>re_status = rs_status resp, re_headers = rs_headers resp,
            re_bodyBytes = n\<rparr> (payloads datas) (pend c')"
          unfolding received_def using d n dec ex e
          by (intro exI [of _ f] exI [of _ datas] exI [of _ resp]) (simp add: responseShape_completes)
        then show ?thesis using run n same talk rb(3) d(5) onlyRead_trans [OF f(3) d(1)] by auto
      qed
    qed
  qed
qed

lemma readResponse_complete:
  assumes "good c" "received (ending (cl_conn c)) (pend c) sid res body later" "space b"
  shows "\<exists>c' b'. readResponse nc bw sid c b = Some (Inr res, c', b') \<and> onlyRead c c' \<and> pend c' = later
    \<and> bout b' = bout b @ body \<and> space b'"
proof -
  from assms(2) obtain head datas resp where r: "parses (ending (cl_conn c)) (pend c) (head # datas) later"
    "responseShape sid head datas" "decodeResponse (fr_payload head) = Inr resp" "body = payloads datas"
    "res = \<lparr>re_status = rs_status resp, re_headers = rs_headers resp, re_bodyBytes = int (length body)\<rparr>"
    "checkLength (rs_headers resp) (int (length body)) = None" unfolding received_def by blast
  from r(1) obtain bs1 where parse: "parseFrame (ending (cl_conn c)) (pend c) = (Inr head, bs1)"
    "parses (ending (cl_conn c)) bs1 datas later" by (auto split: prod.splits sum.splits)
  from clReadFrame_spec [OF assms(1) parse(1)] obtain c1 where rd: "clReadFrame nc c = Some (Inr head, c1)" "good c1"
    "pend c1 = bs1" "onlyRead c c1" by auto
  from expect_spec [OF rd(2), of head TypeResponse sid] r(2) have ex: "expect nc head TypeResponse sid c1 = Some (None, c1)"
    by (auto simp: responseShape_def type_defs)
  have "parses (ending (cl_conn c1)) (pend c1) datas later" "completes sid (endsStream head) datas"
    using parse(2) rd(3,4) r(2) by (simp_all add: onlyRead_def responseShape_completes)
  from readBody_complete [OF rd(2) this assms(3), of 0] obtain c' b' where
    "readBody nc bw sid (endsStream head) 0 c1 b = Some (Inr (int (length (payloads datas))), c', b')"
    "onlyRead c1 c'" "pend c' = later" "bout b' = bout b @ payloads datas" "space b'" by auto
  then show ?thesis using rd(1) ex r onlyRead_trans [OF rd(4)] by (simp add: readResponse_def endsStream_def)
qed

text \<open>A response broken off by an ERROR frame: the client returns that error and answers nothing.\<close>

lemma expect_error: "fr_type g = TypeError \<Longrightarrow> expect nc g want sid c = Some (Some (remoteError g), c)"
  by (simp add: expect_def)

lemma readBody_error:
  assumes "good c" "parses (ending (cl_conn c)) (pend c) (datas @ [g]) later"
    "list_all (\<lambda>d. dataFor sid d \<and> \<not> endsStream d) datas" "fr_type g = TypeError" "space b"
  shows "\<exists>c' b'. readBody nc bw sid False n c b = Some (Inl (remoteError g), c', b') \<and> onlyRead c c'"
  using assms
proof (induction datas arbitrary: c n b)
  case Nil
  from Nil.prems(2) have "parseFrame (ending (cl_conn c)) (pend c) = (Inr g, later)" by (auto split: prod.splits sum.splits)
  from clReadFrame_spec [OF Nil.prems(1) this] obtain c1 where "clReadFrame nc c = Some (Inr g, c1)" "onlyRead c c1" by auto
  then show ?case by (simp add: readBody.simps [of nc bw sid _ n c b] expect_error [OF Nil.prems(4)])
next
  case (Cons d ds)
  from Cons.prems(2) obtain bs1 where parse: "parseFrame (ending (cl_conn c)) (pend c) = (Inr d, bs1)"
    "parses (ending (cl_conn c)) bs1 (ds @ [g]) later" by (auto split: prod.splits sum.splits)
  from clReadFrame_spec [OF Cons.prems(1) parse(1)] obtain c1 where rd: "clReadFrame nc c = Some (Inr d, c1)" "good c1"
    "pend c1 = bs1" "onlyRead c c1" by auto
  from expect_spec [OF rd(2), of d TypeData sid] Cons.prems(3) have ex: "expect nc d TypeData sid c1 = Some (None, c1)"
    by (auto simp: dataFor_def type_defs)
  obtain k b1 where wr: "bw (fr_payload d) b = ((k, None), b1)" "space b1"
    using write_space [OF Cons.prems(5)] by (metis surj_pair)
  have "parses (ending (cl_conn c1)) (pend c1) (ds @ [g]) later" using parse(2) rd(3,4) by (simp add: onlyRead_def)
  with Cons.IH [OF rd(2) this _ Cons.prems(4) wr(2), of "n + int (length (fr_payload d))"] Cons.prems(3) obtain c' b' where
    "readBody nc bw sid False (n + int (length (fr_payload d))) c1 b1 = Some (Inl (remoteError g), c', b')" "onlyRead c1 c'" by auto
  then show ?case using rd(1) ex wr Cons.prems(3) onlyRead_trans [OF rd(4)]
    by (simp add: readBody.simps [of nc bw sid _ n c b] endsStream_def)
qed

lemma readResponse_error:
  assumes "good c" "parses (ending (cl_conn c)) (pend c) (head # datas @ [g]) later"
    "fr_type head = TypeResponse" "fr_stream head = sid" "\<not> endsStream head" "decodeResponse (fr_payload head) = Inr resp"
    "list_all (\<lambda>d. dataFor sid d \<and> \<not> endsStream d) datas" "fr_type g = TypeError" "space b"
  shows "\<exists>c' b'. readResponse nc bw sid c b = Some (Inl (remoteError g), c', b') \<and> onlyRead c c'"
proof -
  from assms(2) obtain bs1 where parse: "parseFrame (ending (cl_conn c)) (pend c) = (Inr head, bs1)"
    "parses (ending (cl_conn c)) bs1 (datas @ [g]) later" by (auto split: prod.splits sum.splits)
  from clReadFrame_spec [OF assms(1) parse(1)] obtain c1 where rd: "clReadFrame nc c = Some (Inr head, c1)" "good c1"
    "pend c1 = bs1" "onlyRead c c1" by auto
  from expect_spec [OF rd(2), of head TypeResponse sid] assms(3,4) have ex: "expect nc head TypeResponse sid c1 = Some (None, c1)"
    by (auto simp: type_defs)
  have "parses (ending (cl_conn c1)) (pend c1) (datas @ [g]) later" using parse(2) rd(3,4) by (simp add: onlyRead_def)
  from readBody_error [OF rd(2) this assms(7-9), of 0] obtain c' b' where
    "readBody nc bw sid False 0 c1 b = Some (Inl (remoteError g), c', b')" "onlyRead c1 c'" by blast
  then show ?thesis using rd(1) ex assms(5,6) onlyRead_trans [OF rd(4)] by (simp add: readResponse_def endsStream_def)
qed

text \<open>
  Every outcome of \<^verbatim>\<open>Get\<close> on a client that is still usable: the request was not even built, the
  exchange failed and the client is broken for good, or it succeeded.
\<close>

lemma clientGet_spec:
  assumes "good c" "cl_next c \<noteq> 0" "\<not> cl_broken c" "\<not> cl_exhausted c"
  shows "\<exists>r c' b'. clientGet nc bw path hs c b = Some (r, c', b') \<and> tookId c c' \<and>
    ((\<exists>e. r = Inl (CannotBuild e) \<and> encodeRequest \<lparr>rq_method = MethodGet, rq_path = path, rq_headers = hs\<rparr> = Inl e
         \<and> cl_br c' = cl_br c \<and> \<not> cl_broken c' \<and> b' = b)
     \<or> (\<exists>e k x. r = Inl e \<and> cl_broken c' \<and> ct_closed (ctl (cl_conn c'))
         \<and> encodeRequest \<lparr>rq_method = MethodGet, rq_path = path, rq_headers = hs\<rparr> = Inr (fr_payload (requestFrame (cl_next c) path hs))
         \<and> out (cl_conn c') = out (cl_conn c) @ take k (frameBytes (requestFrame (cl_next c) path hs)) @ x \<and> complaint x
         \<and> (reliable (cl_conn c) \<or> x \<noteq> [] \<longrightarrow> k = length (frameBytes (requestFrame (cl_next c) path hs))))
     \<or> (\<exists>res body. r = Inr res \<and> \<not> cl_broken c' \<and> good c'
         \<and> encodeRequest \<lparr>rq_method = MethodGet, rq_path = path, rq_headers = hs\<rparr> = Inr (fr_payload (requestFrame (cl_next c) path hs))
         \<and> out (cl_conn c') = out (cl_conn c) @ frameBytes (requestFrame (cl_next c) path hs)
         \<and> received (ending (cl_conn c)) (pend c) (cl_next c) res body (pend c') \<and> bout b' = bout b @ body))"
proof -
  let ?sid = "cl_next c" and ?req = "\<lparr>rq_method = MethodGet, rq_path = path, rq_headers = hs\<rparr>"
  let ?c1 = "if ?sid = 0xFFFFFFFF then c\<lparr>cl_exhausted := True\<rparr> else c\<lparr>cl_next := ?sid + 1\<rparr>"
  have c1: "cl_br ?c1 = cl_br c" "cl_conn ?c1 = cl_conn c" "\<not> cl_broken ?c1" "tookId c ?c1"
    using assms(3,4) by (auto simp: cl_conn_def tookId_def)
  have took: "tookId c c'" if "sameClient ?c1 c'" for c' using that c1(4) by (auto simp: tookId_def sameClient_def split: if_splits)
  have failed: "tookId c (clFail nc c') \<and> cl_broken (clFail nc c') \<and> ct_closed (ctl (cl_conn (clFail nc c')))
      \<and> out (cl_conn (clFail nc c')) = out (cl_conn c')" if "sameClient ?c1 c'" for c'
    using took [OF that] close_law by (auto simp: tookId_def clFail_def onClConn_def cl_conn_def)
  let ?wire = "frameBytes (requestFrame ?sid path hs)"
  note unfold = clientGet_def Let_def
  show ?thesis
  proof (cases "encodeRequest ?req")
    case (Inl e)
    then show ?thesis using assms(3,4) c1 by (simp add: unfold)
  next
    case (Inr p)
    note wf = requestFrame_wf [OF Inr assms(2)]
    have f: "\<lparr>fr_type = TypeRequest, fr_flags = FlagEndStream, fr_stream = ?sid, fr_payload = p\<rparr> = requestFrame ?sid path hs"
      using wf(2) by (simp add: requestFrame_def)
    from clWrite_spec [OF wf(1), of ?c1] assms(1) obtain e c2 k where w: "clWrite nc (requestFrame ?sid path hs) ?c1 = (e, c2)"
      "sameClient ?c1 c2" "good c2" "pend c2 = pend c" "ending (cl_conn c2) = ending (cl_conn c)"
      "out (cl_conn c2) = out (cl_conn c) @ take k (frameBytes (requestFrame ?sid path hs))"
      "e = None \<longrightarrow> k = length (frameBytes (requestFrame ?sid path hs))" "reliable (cl_conn c) \<longrightarrow> e = None" unfolding c1(1,2) by blast
    note built = Inr [unfolded wf(2)]
    show ?thesis
    proof (cases e)
      case (Some x)
      then have run: "clientGet nc bw path hs c b = Some (Inl (SendingRequest x), clFail nc c2, b)"
        using assms(3,4) Inr f w(1) by (simp add: unfold)
      have "out (cl_conn (clFail nc c2)) = out (cl_conn c) @ take k ?wire @ []" using failed [OF w(2)] w(6) by simp
      then show ?thesis using run Some failed [OF w(2)] w(8) built complaint_Nil by blast
    next
      case None
      from readResponse_spec [OF w(3), of ?sid b] obtain r c3 b' where r: "readResponse nc bw ?sid c2 b = Some (r, c3, b')"
        "sameClient c2 c3" "good c3" "\<forall>res. r = Inr res \<longrightarrow> onlyRead c2 c3
          \<and> (\<exists>body. received (ending (cl_conn c2)) (pend c2) ?sid res body (pend c3) \<and> bout b' = bout b @ body)" "talked c2 c3" by blast
      note same = sameClient_trans [OF w(2) r(2)]
      have run: "clientGet nc bw path hs c b = Some (r, case r of Inl _ \<Rightarrow> clFail nc c3 | Inr _ \<Rightarrow> c3, b')"
        using assms(3,4) Inr f w(1) None r(1) by (simp add: unfold split: sum.splits)
      show ?thesis
      proof (cases r)
        case (Inl e)
        from r(5) obtain x where x: "complaint x" "out (cl_conn c3) = out (cl_conn c2) @ x" unfolding talked_def by blast
        then have "out (cl_conn (clFail nc c3)) = out (cl_conn c) @ take k ?wire @ x" using failed [OF same] w(6) by simp
        moreover have "k = length ?wire" using w(7) None by simp
        ultimately show ?thesis using run [unfolded Inl sum.case] failed [OF same] x(1) built by blast
      next
        case ok: (Inr res)
        then obtain body where "onlyRead c2 c3" "received (ending (cl_conn c)) (pend c) ?sid res body (pend c3)"
          "bout b' = bout b @ body" using r(4) w(4,5) by auto
        moreover from same c1(3) have "\<not> cl_broken c3" by (simp add: sameClient_def)
        ultimately show ?thesis using run ok took [OF same] r(3) w(6,7) None built by (auto simp: onlyRead_def)
      qed
    qed
  qed
qed

text \<open>On a reliable connection the request goes out whole, and the rest is \<^verbatim>\<open>readResponse\<close>.\<close>

lemma clientGet_reads:
  assumes "good c" "cl_next c \<noteq> 0" "\<not> cl_broken c" "\<not> cl_exhausted c" "reliable (cl_conn c)"
    "encodeRequest \<lparr>rq_method = MethodGet, rq_path = path, rq_headers = hs\<rparr> = Inr p"
  obtains c2 where "good c2" "pend c2 = pend c" "ending (cl_conn c2) = ending (cl_conn c)"
    "out (cl_conn c2) = out (cl_conn c) @ frameBytes (requestFrame (cl_next c) path hs)"
    "\<And>r c3 b'. readResponse nc bw (cl_next c) c2 b = Some (r, c3, b') \<Longrightarrow>
       clientGet nc bw path hs c b = Some (r, case r of Inl _ \<Rightarrow> clFail nc c3 | Inr _ \<Rightarrow> c3, b')"
proof -
  let ?sid = "cl_next c"
  let ?c1 = "if ?sid = 0xFFFFFFFF then c\<lparr>cl_exhausted := True\<rparr> else c\<lparr>cl_next := ?sid + 1\<rparr>"
  have c1: "cl_br ?c1 = cl_br c" "cl_conn ?c1 = cl_conn c" by (simp_all add: cl_conn_def)
  note wf = requestFrame_wf [OF assms(6,2)]
  have f: "\<lparr>fr_type = TypeRequest, fr_flags = FlagEndStream, fr_stream = ?sid, fr_payload = p\<rparr> = requestFrame ?sid path hs"
    using wf(2) by (simp add: requestFrame_def)
  from clWrite_spec [OF wf(1), of ?c1] assms(1,5) obtain c2 where w: "clWrite nc (requestFrame ?sid path hs) ?c1 = (None, c2)"
    "good c2" "pend c2 = pend c" "ending (cl_conn c2) = ending (cl_conn c)"
    "out (cl_conn c2) = out (cl_conn c) @ frameBytes (requestFrame ?sid path hs)" unfolding c1 by fastforce
  have "clientGet nc bw path hs c b = Some (r, case r of Inl _ \<Rightarrow> clFail nc c3 | Inr _ \<Rightarrow> c3, b')"
    if "readResponse nc bw ?sid c2 b = Some (r, c3, b')" for r c3 b'
    using assms(3,4,6) f w(1) that by (simp add: clientGet_def Let_def split: sum.splits)
  with w(2-5) show ?thesis by (rule that)
qed

lemma clientGet_complete:
  assumes "good c" "cl_next c \<noteq> 0" "\<not> cl_broken c" "\<not> cl_exhausted c" "reliable (cl_conn c)" "space b"
    "encodeRequest \<lparr>rq_method = MethodGet, rq_path = path, rq_headers = hs\<rparr> = Inr p"
    "received (ending (cl_conn c)) (pend c) (cl_next c) res body later"
  shows "\<exists>c' b'. clientGet nc bw path hs c b = Some (Inr res, c', b') \<and> pend c' = later \<and> bout b' = bout b @ body
    \<and> out (cl_conn c') = out (cl_conn c) @ frameBytes (requestFrame (cl_next c) path hs)"
proof -
  from clientGet_reads [OF assms(1-5,7), of b] obtain c2 where w: "good c2" "pend c2 = pend c" "ending (cl_conn c2) = ending (cl_conn c)"
    "out (cl_conn c2) = out (cl_conn c) @ frameBytes (requestFrame (cl_next c) path hs)"
    and run: "\<And>r c3 b'. readResponse nc bw (cl_next c) c2 b = Some (r, c3, b') \<Longrightarrow>
       clientGet nc bw path hs c b = Some (r, case r of Inl _ \<Rightarrow> clFail nc c3 | Inr _ \<Rightarrow> c3, b')" by blast
  from readResponse_complete [OF w(1) _ assms(6), of "cl_next c" res body later] assms(8) w(2,3) obtain c3 b' where
    r: "readResponse nc bw (cl_next c) c2 b = Some (Inr res, c3, b')" "onlyRead c2 c3" "pend c3 = later" "bout b' = bout b @ body" by auto
  with run [OF r(1)] w(4) show ?thesis by (simp add: onlyRead_def)
qed

lemma clientGet_error:
  assumes "good c" "cl_next c \<noteq> 0" "\<not> cl_broken c" "\<not> cl_exhausted c" "reliable (cl_conn c)" "space b"
    "encodeRequest \<lparr>rq_method = MethodGet, rq_path = path, rq_headers = hs\<rparr> = Inr p"
    "parses (ending (cl_conn c)) (pend c) (head # datas @ [g]) later"
    "fr_type head = TypeResponse" "fr_stream head = cl_next c" "\<not> endsStream head" "decodeResponse (fr_payload head) = Inr resp"
    "list_all (\<lambda>d. dataFor (cl_next c) d \<and> \<not> endsStream d) datas" "fr_type g = TypeError"
  shows "\<exists>c' b'. clientGet nc bw path hs c b = Some (Inl (remoteError g), c', b')
    \<and> out (cl_conn c') = out (cl_conn c) @ frameBytes (requestFrame (cl_next c) path hs)"
proof -
  from clientGet_reads [OF assms(1-5,7), of b] obtain c2 where w: "good c2" "pend c2 = pend c" "ending (cl_conn c2) = ending (cl_conn c)"
    "out (cl_conn c2) = out (cl_conn c) @ frameBytes (requestFrame (cl_next c) path hs)"
    and run: "\<And>r c3 b'. readResponse nc bw (cl_next c) c2 b = Some (r, c3, b') \<Longrightarrow>
       clientGet nc bw path hs c b = Some (r, case r of Inl _ \<Rightarrow> clFail nc c3 | Inr _ \<Rightarrow> c3, b')" by blast
  from readResponse_error [OF w(1) _ assms(9-14,6)] assms(8) w(2,3) obtain c3 b' where
    r: "readResponse nc bw (cl_next c) c2 b = Some (Inl (remoteError g), c3, b')" "onlyRead c2 c3" by (metis (no_types))
  moreover have "out (cl_conn (clFail nc c3)) = out (cl_conn c3)" using close_law by (simp add: clFail_def onClConn_def cl_conn_def)
  ultimately show ?thesis using run [OF r(1)] w(4) by (simp add: onlyRead_def)
qed

end

interpretation tcpc: client_conn tcp_net_conn tcp_content tcp_ending tcp_weight tcp_out tcp_ctl tcp_reliable
    outWrite of_data "\<lambda>b. of_room b = None"
  by unfold_locales

subsection \<open>Frames on a byte stream\<close>

lemma parses_wire:
  "list_all (\<lambda>f. known (fr_type f) \<and> encodable f) fs \<Longrightarrow> parses e (wireOf fs @ later) fs later"
  by (induction fs) (auto simp: parse_frameBytes)

text \<open>A stream that ends inside the last of some frames parses to fewer of them.\<close>

lemma parses_cut:
  assumes "list_all (\<lambda>f. known (fr_type f) \<and> encodable f) gs" "k < length (wireOf gs)"
    "parses EOF (take k (wireOf gs)) fs later"
  shows "\<exists>n < length gs. fs = take n gs"
  using assms
proof (induction gs arbitrary: k fs)
  case (Cons g gs)
  show ?case
  proof (cases fs)
    case (Cons f fs')
    have wf: "known (fr_type g)" "encodable g" using Cons.prems(1) by auto
    show ?thesis
    proof (cases "k < length (frameBytes g)")
      case True
      have "\<nexists>f later. parseFrame EOF (take k (frameBytes g)) = (Inr f, later)"
      proof (cases "k = 0")
        case False
        then show ?thesis using parse_truncated [OF wf(2,1) _ True] by simp
      qed (simp add: parseFrame.simps [of _ "[]"])
      then show ?thesis using Cons.prems(3) Cons True by (auto split: prod.splits sum.splits)
    next
      case False
      then have "take k (wireOf (g # gs)) = frameBytes g @ take (k - length (frameBytes g)) (wireOf gs)" by simp
      then have p: "f = g" "parses EOF (take (k - length (frameBytes g)) (wireOf gs)) fs' later"
        using Cons.prems(3) Cons parse_frameBytes [OF wf(2,1)] by auto
      have "k - length (frameBytes g) < length (wireOf gs)" "list_all (\<lambda>f. known (fr_type f) \<and> encodable f) gs"
        using Cons.prems(1,2) False by auto
      from Cons.IH [OF this(2,1) p(2)] obtain n where "n < length gs" "fs' = take n gs" by blast
      then show ?thesis using Cons p(1) by (intro exI [of _ "Suc n"]) simp
    qed
  qed simp
qed simp

text \<open>A response cut off anywhere is never received.\<close>

lemma received_cut:
  assumes "responseShape sid head datas" "list_all (\<lambda>f. known (fr_type f) \<and> encodable f) (head # datas)"
    "k < length (wireOf (head # datas))"
  shows "\<not> received EOF (take k (wireOf (head # datas))) sid' res body later"
proof
  assume "received EOF (take k (wireOf (head # datas))) sid' res body later"
  then obtain h ds where p: "parses EOF (take k (wireOf (head # datas))) (h # ds) later" "responseShape sid' h ds"
    unfolding received_def by blast
  from parses_cut [OF assms(2,3) p(1)] obtain n where n: "n < length (head # datas)" "h # ds = take n (head # datas)" by blast
  have "endsStream (last (h # ds))" using p(2) by (simp add: responseShape_def)
  moreover have "last (h # ds) \<in> set (butlast (head # datas))"
  proof -
    have "take n (head # datas) = take n (butlast (head # datas))" using n(1) by (simp add: take_butlast del: butlast.simps)
    moreover have "take n (head # datas) \<noteq> []" using n(2) by (metis list.distinct(1))
    ultimately show ?thesis by (metis in_set_takeD last_in_set n(2))
  qed
  ultimately show False using assms(1) by (auto simp: responseShape_def list_all_iff)
qed

end
