(* ===== verification/Client_Props.thy ===== *)
theory Client_Props
  imports Client_Spec
begin

text \<open>
  The properties of the client, over TCP and writing the body to a file. They are the facts of
  \<open>client_conn\<close> at the interpretation \<open>tcpc\<close>.
\<close>

text \<open>The invariant of a client: an unbroken one has a usable stream id and a consistent buffer.\<close>

definition clientOk :: "tcp client \<Rightarrow> bool" where
  "clientOk c \<longleftrightarrow> cl_broken c \<or> cl_next c \<noteq> 0 \<and>
     (bf_err (cl_br c) \<noteq> None \<longrightarrow> bf_err (cl_br c) = Some (tcp_ending (cl_conn c)) \<and> tcp_content (cl_conn c) = [])"

lemma clientOk_good: "clientOk c \<longleftrightarrow> cl_broken c \<or> cl_next c \<noteq> 0 \<and> tcp.sock.bok (cl_br c)"
  by (auto simp: clientOk_def tcp.sock.bok_def cl_conn_def)

lemma newClient_simps [simp]:
  "clientOk (newClient conn)" "cl_conn (newClient conn) = conn" "cl_br (newClient conn) = bufioNew conn" "cl_next (newClient conn) = 1"
  "\<not> cl_broken (newClient conn)" "\<not> cl_exhausted (newClient conn)"
  by (simp_all add: clientOk_def newClient_def cl_conn_def bufioNew_def)

lemma unat_next: "x \<noteq> 0xFFFFFFFF \<Longrightarrow> unat (x + 1 :: u32) = Suc (unat x)"
proof -
  assume "x \<noteq> 0xFFFFFFFF"
  moreover have "(0xFFFFFFFF :: u32) = - 1" by simp
  ultimately have "1 + x \<noteq> 0" by (metis add_eq_0_iff)
  from unatSuc [OF this] show ?thesis by (simp add: add.commute)
qed

lemma tookId_next: "tookId c c' \<Longrightarrow> cl_next c = 0xFFFFFFFF \<and> cl_exhausted c' \<or> unat (cl_next c') = Suc (unat (cl_next c))"
  by (auto simp: tookId_def unat_next split: if_splits)

lemma tookId_nonzero: "tookId c c' \<Longrightarrow> cl_next c \<noteq> 0 \<Longrightarrow> cl_next c' \<noteq> 0"
  by (metis tookId_def unat_next nat.distinct(1) unat_0)

subsection \<open>Lengths\<close>

lemma digits_not_sign: "list_all isDigit v \<Longrightarrow> v \<noteq> [] \<Longrightarrow> hd v \<noteq> chr CHR ''-'' \<and> hd v \<noteq> chr CHR ''+''"
  by (cases v) (auto simp: isDigit_def)

lemma parseInt_digits:
  "list_all isDigit v \<Longrightarrow> v \<noteq> [] \<Longrightarrow> parseInt v = (if int (digitsValue v) \<le> 2 ^ 63 - 1 then Some (int (digitsValue v)) else None)"
  using digits_not_sign [of v] by (auto simp: parseInt_def Let_def)

lemma not_digit_ex: "list_ex (\<lambda>b. b < 48 \<or> 57 < b) v \<longleftrightarrow> \<not> list_all isDigit v"
  by (auto simp: list_ex_iff list_all_iff isDigit_def not_less not_le)

definition lengthOk :: "int \<Rightarrow> byte list \<Rightarrow> bool" where
  "lengthOk n v \<longleftrightarrow> v \<noteq> [] \<and> length v \<le> 19 \<and> list_all isDigit v \<and> int (digitsValue v) = n \<and> n < 2 ^ 63"

lemma checkLength_Cons:
  "checkLength (h # hs) n = None \<longleftrightarrow>
     (hd_name h = HeaderContentLength \<longrightarrow> lengthOk n (hd_value h)) \<and> checkLength hs n = None"
  by (cases "list_all isDigit (hd_value h)") (auto simp: lengthOk_def not_digit_ex parseInt_digits)

lemma checkLength_None:
  "checkLength hs n = None \<longleftrightarrow> (\<forall>h \<in> set hs. hd_name h = HeaderContentLength \<longrightarrow> lengthOk n (hd_value h))"
proof (induction hs)
  case (Cons h hs)
  then show ?case using checkLength_Cons [of h hs n] by (auto simp del: checkLength.simps)
qed simp

subsection \<open>One call of \<open>Get\<close>\<close>

lemma get_broken: "cl_broken c \<Longrightarrow> clientGet nc bw path hs c b = Some (Inl ErrBroken, c, b)"
  by (simp add: clientGet_def)

lemma get_exhausted: "\<not> cl_broken c \<Longrightarrow> cl_exhausted c \<Longrightarrow> clientGet nc bw path hs c b = Some (Inl IdsUsedUp, clFail nc c, b)"
  by (simp add: clientGet_def)

text \<open>
  What a call sent once its request was built: the request, or the beginning of it when writing
  failed, and after a whole request at most one ERROR frame on stream 0, or the beginning of one.
\<close>

definition asked :: "byte list \<Rightarrow> header list \<Rightarrow> tcp client \<Rightarrow> tcp client \<Rightarrow> bool" where
  "asked path hs c c' \<longleftrightarrow>
     encodeRequest \<lparr>rq_method = MethodGet, rq_path = path, rq_headers = hs\<rparr> = Inr (fr_payload (requestFrame (cl_next c) path hs))
     \<and> (\<exists>k x. tcp_out (cl_conn c') = tcp_out (cl_conn c) @ take k (frameBytes (requestFrame (cl_next c) path hs)) @ x \<and> complaint x
         \<and> (tcp_reliable (cl_conn c) \<or> x \<noteq> [] \<longrightarrow> k = length (frameBytes (requestFrame (cl_next c) path hs))))"

lemma asked_whole:
  assumes "encodeRequest \<lparr>rq_method = MethodGet, rq_path = path, rq_headers = hs\<rparr> = Inr (fr_payload (requestFrame (cl_next c) path hs))"
    "tcp_out (cl_conn c') = tcp_out (cl_conn c) @ frameBytes (requestFrame (cl_next c) path hs)"
  shows "asked path hs c c'"
  unfolding asked_def using assms complaint_Nil
  by (intro conjI exI [of _ "length (frameBytes (requestFrame (cl_next c) path hs))"] exI [of _ "[]"]) auto

lemma asked_sent:
  assumes "asked path hs c c'"
  shows "case encodeRequest \<lparr>rq_method = MethodGet, rq_path = path, rq_headers = hs\<rparr> of
      Inl _ \<Rightarrow> tcp_out (cl_conn c') = tcp_out (cl_conn c)
    | Inr p \<Rightarrow> \<exists>sent x. tcp_out (cl_conn c') = tcp_out (cl_conn c) @ sent @ x
        \<and> (let f = \<lparr>fr_type = TypeRequest, fr_flags = FlagEndStream, fr_stream = cl_next c, fr_payload = p\<rparr> in
            sent = frameBytes f \<or> x = [] \<and> \<not> tcp_reliable (cl_conn c) \<and> (\<exists>k. sent = take k (frameBytes f)))
        \<and> (\<exists>g m. fr_type g = TypeError \<and> fr_stream g = 0 \<and> x = take m (frameBytes g))"
proof -
  let ?f = "requestFrame (cl_next c) path hs"
  have f: "\<lparr>fr_type = TypeRequest, fr_flags = FlagEndStream, fr_stream = cl_next c, fr_payload = fr_payload ?f\<rparr> = ?f"
    by (simp add: requestFrame_def)
  from assms obtain k x where enc: "encodeRequest \<lparr>rq_method = MethodGet, rq_path = path, rq_headers = hs\<rparr> = Inr (fr_payload ?f)"
    and sent: "tcp_out (cl_conn c') = tcp_out (cl_conn c) @ take k (frameBytes ?f) @ x" and "complaint x"
    and whole: "tcp_reliable (cl_conn c) \<or> x \<noteq> [] \<longrightarrow> k = length (frameBytes ?f)" unfolding asked_def by blast
  from \<open>complaint x\<close> obtain g m where g: "fr_type g = TypeError" "fr_stream g = 0" "x = take m (frameBytes g)"
    unfolding complaint_def by blast
  have "take k (frameBytes ?f) = frameBytes ?f \<or> x = [] \<and> \<not> tcp_reliable (cl_conn c) \<and> (\<exists>k'. take k (frameBytes ?f) = take k' (frameBytes ?f))"
    using whole by (cases "tcp_reliable (cl_conn c) \<or> x \<noteq> []") auto
  then show ?thesis unfolding enc sum.case Let_def f
    by (intro exI [of _ "take k (frameBytes ?f)"] exI [of _ x] conjI sent exI [of _ g] exI [of _ m] g)
qed

text \<open>The outcomes of a call on any client, over TCP.\<close>

lemma get_outcome:
  assumes "clientOk c"
  obtains (unusable) e c' where "clientGet tcp_net_conn outWrite path hs c b = Some (Inl e, c', b)"
      "cl_broken c \<or> cl_exhausted c" "cl_broken c'" "tcp_out (cl_conn c') = tcp_out (cl_conn c)"
    | (unbuilt) e c' where "clientGet tcp_net_conn outWrite path hs c b = Some (Inl (CannotBuild e), c', b)"
      "\<not> cl_broken c" "\<not> cl_exhausted c" "tookId c c'" "cl_br c' = cl_br c" "\<not> cl_broken c'"
      "encodeRequest \<lparr>rq_method = MethodGet, rq_path = path, rq_headers = hs\<rparr> = Inl e"
    | (failed) e c' b' where "clientGet tcp_net_conn outWrite path hs c b = Some (Inl e, c', b')"
      "\<not> cl_broken c" "\<not> cl_exhausted c" "tookId c c'" "cl_broken c'" "ct_closed (tcp_ctl (cl_conn c'))"
      "asked path hs c c'"
    | (finished) res body c' b' where "clientGet tcp_net_conn outWrite path hs c b = Some (Inr res, c', b')"
      "\<not> cl_broken c" "\<not> cl_exhausted c" "tookId c c'" "\<not> cl_broken c'" "tcp.sock.bok (cl_br c')"
      "tcp_out (cl_conn c') = tcp_out (cl_conn c) @ frameBytes (requestFrame (cl_next c) path hs)"
      "received (tcp_ending (cl_conn c)) (tcp_pending (cl_br c)) (cl_next c) res body (tcp_pending (cl_br c'))"
      "of_data b' = of_data b @ body" "asked path hs c c'"
proof -
  consider "cl_broken c" | "\<not> cl_broken c" "cl_exhausted c" | (use) "\<not> cl_broken c" "\<not> cl_exhausted c" by blast
  then show ?thesis
  proof cases
    case 1
    with unusable get_broken show ?thesis by metis
  next
    case 2
    show ?thesis
      by (rule unusable [OF get_exhausted [OF 2]]) (use 2 in \<open>simp_all add: clFail_def onClConn_def cl_conn_def tcp_net_conn_def\<close>)
  next
    case use
    with assms have "tcp.sock.bok (cl_br c)" "cl_next c \<noteq> 0" by (auto simp: clientOk_good)
    from tcpc.clientGet_spec [OF this use, of path hs b, unfolded tcp_bcontent] obtain r c' b' where
      run: "clientGet tcp_net_conn outWrite path hs c b = Some (r, c', b')" and took: "tookId c c'" and
      cases: "(\<exists>e. r = Inl (CannotBuild e) \<and> encodeRequest \<lparr>rq_method = MethodGet, rq_path = path, rq_headers = hs\<rparr> = Inl e
           \<and> cl_br c' = cl_br c \<and> \<not> cl_broken c' \<and> b' = b)
       \<or> (\<exists>e k x. r = Inl e \<and> cl_broken c' \<and> ct_closed (tcp_ctl (cl_conn c'))
         \<and> encodeRequest \<lparr>rq_method = MethodGet, rq_path = path, rq_headers = hs\<rparr> = Inr (fr_payload (requestFrame (cl_next c) path hs))
         \<and> tcp_out (cl_conn c') = tcp_out (cl_conn c) @ take k (frameBytes (requestFrame (cl_next c) path hs)) @ x \<and> complaint x
         \<and> (tcp_reliable (cl_conn c) \<or> x \<noteq> [] \<longrightarrow> k = length (frameBytes (requestFrame (cl_next c) path hs))))
       \<or> (\<exists>res body. r = Inr res \<and> \<not> cl_broken c' \<and> tcp.sock.bok (cl_br c')
         \<and> encodeRequest \<lparr>rq_method = MethodGet, rq_path = path, rq_headers = hs\<rparr> = Inr (fr_payload (requestFrame (cl_next c) path hs))
         \<and> tcp_out (cl_conn c') = tcp_out (cl_conn c) @ frameBytes (requestFrame (cl_next c) path hs)
         \<and> received (tcp_ending (cl_conn c)) (tcp_pending (cl_br c)) (cl_next c) res body (tcp_pending (cl_br c')) \<and> of_data b' = of_data b @ body)"
      by (elim exE conjE)
    from cases show ?thesis
    proof (elim disjE exE conjE)
      fix e k x
      assume "r = Inl e" "cl_broken c'" "ct_closed (tcp_ctl (cl_conn c'))"
        "encodeRequest \<lparr>rq_method = MethodGet, rq_path = path, rq_headers = hs\<rparr> = Inr (fr_payload (requestFrame (cl_next c) path hs))"
        "tcp_out (cl_conn c') = tcp_out (cl_conn c) @ take k (frameBytes (requestFrame (cl_next c) path hs)) @ x" "complaint x"
        "tcp_reliable (cl_conn c) \<or> x \<noteq> [] \<longrightarrow> k = length (frameBytes (requestFrame (cl_next c) path hs))"
      moreover from this(4-7) have "asked path hs c c'" unfolding asked_def by (intro conjI exI)
      ultimately show ?thesis using failed [OF run [unfolded \<open>r = Inl e\<close>] use took] by blast
    qed (use use run took in \<open>auto intro: unbuilt finished asked_whole\<close>)
  qed
qed

text \<open>A two-byte response on stream 1.\<close>

definition demoHead :: frame where
  "demoHead = \<lparr>fr_type = TypeResponse, fr_flags = 0, fr_stream = 1,
     fr_payload = responseBytes \<lparr>rs_status = 200, rs_headers = [NewHeader HeaderContentLength (str ''2'')]\<rparr>\<rparr>"

definition demoData :: frame where
  "demoData = \<lparr>fr_type = TypeData, fr_flags = FlagEndStream, fr_stream = 1, fr_payload = [65, 66]\<rparr>"

definition demoResult :: result where
  "demoResult = \<lparr>re_status = 200, re_headers = [NewHeader HeaderContentLength (str ''2'')], re_bodyBytes = 2\<rparr>"

lemma demo_decodes: "decodeResponse (fr_payload demoHead) = Inr \<lparr>rs_status = 200, rs_headers = [NewHeader HeaderContentLength (str ''2'')]\<rparr>"
  using decodeResponse_bytes [of "\<lparr>rs_status = 200, rs_headers = [NewHeader HeaderContentLength (str ''2'')]\<rparr>"]
  by (simp add: demoHead_def responseOk_def validStatus_def headerOk_def NewHeader_def tableIDs_unfold)

lemma demo_frames: "list_all (\<lambda>f. known (fr_type f) \<and> encodable f) [demoHead, demoData]"
  by (simp add: demoHead_def demoData_def known_def encodable_def type_defs responseBytes_def headerBlock_def toWire_def
      NewHeader_def tableIDs_unfold)

lemma demo_shape: "responseShape 1 demoHead [demoData]"
  by (simp add: responseShape_def endsStream_def Has_def demoHead_def demoData_def FlagEndStream_def)

lemma demo_length: "checkLength [NewHeader HeaderContentLength (str ''2'')] 2 = None"
  unfolding checkLength_None by (simp add: lengthOk_def NewHeader_def isDigit_def digitsValue_def)

lemma demo_received: "received e (wireOf [demoHead, demoData] @ later) 1 demoResult [65, 66] later"
  unfolding received_def
  using parses_wire [OF demo_frames] demo_shape demo_decodes demo_length
  by (intro exI [of _ demoHead] exI [of _ "[demoData]"] exI)
    (auto simp: demoData_def demoResult_def simp del: parses.simps wireOf_simps)

lemma demo_request: "encodeRequest \<lparr>rq_method = MethodGet, rq_path = str ''/a'', rq_headers = []\<rparr> =
    Inr (requestBytes \<lparr>rq_method = MethodGet, rq_path = str ''/a'', rq_headers = []\<rparr>)"
  by (simp add: encodeRequest_Inr requestOk_def validUTF8_def requestBytes_def headerBlock_def)

abbreviation emptyFile :: out_file where
  "emptyFile \<equiv> \<lparr>of_data = [], of_room = None\<rparr>"

subsection \<open>Properties\<close>

text \<open>
  C23. The client returns from every call, keeps its invariant and never reuses a stream id. Whatever the
  server sends, a call of \<^verbatim>\<open>Get\<close> on a usable client moves the id on by one, or after the last one marks
  the ids as used up. What it sends is its request as a REQUEST frame with END_STREAM on the stream it
  was at, so no two requests share an id (of the frame only a beginning when writing it failed), and after a whole request
  at most one ERROR frame on stream 0, or the beginning of one. A request that cannot be built sends
  nothing, and a client that is broken or out of ids sends nothing more.
\<close>
theorem get_ids_advance:
  assumes "clientOk c"
  shows "\<exists>r c' b'. clientGet tcp_net_conn outWrite path hs c b = Some (r, c', b') \<and> clientOk c' \<and>
    (if cl_broken c \<or> cl_exhausted c then cl_broken c' \<and> tcp_out (cl_conn c') = tcp_out (cl_conn c)
     else (cl_next c = 0xFFFFFFFF \<and> cl_exhausted c' \<or> unat (cl_next c') = Suc (unat (cl_next c))) \<and>
       (case encodeRequest \<lparr>rq_method = MethodGet, rq_path = path, rq_headers = hs\<rparr> of
          Inl _ \<Rightarrow> tcp_out (cl_conn c') = tcp_out (cl_conn c)
        | Inr p \<Rightarrow> \<exists>sent x. tcp_out (cl_conn c') = tcp_out (cl_conn c) @ sent @ x
            \<and> (let f = \<lparr>fr_type = TypeRequest, fr_flags = FlagEndStream, fr_stream = cl_next c, fr_payload = p\<rparr> in
                sent = frameBytes f \<or> x = [] \<and> \<not> tcp_reliable (cl_conn c) \<and> (\<exists>k. sent = take k (frameBytes f)))
            \<and> (\<exists>g m. fr_type g = TypeError \<and> fr_stream g = 0 \<and> x = take m (frameBytes g))))"
  using assms
proof (cases rule: get_outcome [of c path hs b])
  case (unusable e c')
  then show ?thesis by (simp add: clientOk_def)
next
  case (unbuilt e c')
  then show ?thesis using assms tookId_next [OF unbuilt(4)] tookId_nonzero [OF unbuilt(4)] by (auto simp: clientOk_good cl_conn_def)
next
  case (failed e c' b')
  then show ?thesis using tookId_next asked_sent [OF failed(7)] by (auto simp: clientOk_def)
next
  case (finished res body c' b')
  then show ?thesis using assms tookId_next [OF finished(4)] tookId_nonzero [OF finished(4)] asked_sent [OF finished(10)]
    by (auto simp: clientOk_good)
qed

theorem get_ids_advance_witness:
  "\<exists>r c' b' x. clientGet tcp_net_conn outWrite (str ''/a'') [] (newClient (tcp_open [[0, 0], [0]] EOF None)) emptyFile = Some (r, c', b')
    \<and> clientOk c' \<and> unat (cl_next c') = Suc (Suc 0)
    \<and> tcp_out (cl_conn c') = frameBytes \<lparr>fr_type = TypeRequest, fr_flags = FlagEndStream, fr_stream = 1,
        fr_payload = requestBytes \<lparr>rq_method = MethodGet, rq_path = str ''/a'', rq_headers = []\<rparr>\<rparr> @ x"
proof -
  let ?c = "newClient (tcp_open [[0, 0], [0]] EOF None)"
  have "tcp_reliable (cl_conn ?c)" "tcp_out (cl_conn ?c) = []" by simp_all
  then show ?thesis
    using get_ids_advance [of ?c "str ''/a''" "[]" emptyFile] unfolding demo_request sum.case Let_def
    by (auto simp del: str_Cons)
qed

text \<open>
  C3. Success means everything arrived. When \<^verbatim>\<open>Get\<close> returns a result, the bytes the server sent begin,
  after any frames of unknown types, with one readable RESPONSE on the stream of the request and the
  DATA frames that complete it, END_STREAM on the last and only there; the body written is their
  payloads in order, the count is its length, and every content-length header, however many there
  are, names exactly that length. The client sent one request, and reads on where the response ended.
\<close>
theorem get_success_complete:
  assumes "clientOk c" and "clientGet tcp_net_conn outWrite path hs c b = Some (Inr res, c', b')"
  shows "\<exists>head datas resp. parses (tcp_ending (cl_conn c)) (tcp_pending (cl_br c)) (head # datas) (tcp_pending (cl_br c'))
    \<and> responseShape (cl_next c) head datas \<and> decodeResponse (fr_payload head) = Inr resp
    \<and> of_data b' = of_data b @ payloads datas
    \<and> res = \<lparr>re_status = rs_status resp, re_headers = rs_headers resp, re_bodyBytes = int (length (payloads datas))\<rparr>
    \<and> (\<forall>h \<in> set (rs_headers resp). hd_name h = HeaderContentLength \<longrightarrow> lengthOk (int (length (payloads datas))) (hd_value h))
    \<and> tcp_out (cl_conn c') = tcp_out (cl_conn c) @ frameBytes (requestFrame (cl_next c) path hs)"
  using assms(1)
proof (cases rule: get_outcome [of c path hs b])
  case (finished res1 body c1 b1)
  with assms(2) have eq: "res1 = res" "c1 = c'" "b1 = b'" by auto
  from finished(8) obtain head datas resp where "parses (tcp_ending (cl_conn c)) (tcp_pending (cl_br c)) (head # datas) (tcp_pending (cl_br c1))"
    "responseShape (cl_next c) head datas" "decodeResponse (fr_payload head) = Inr resp" "body = payloads datas"
    "res1 = \<lparr>re_status = rs_status resp, re_headers = rs_headers resp, re_bodyBytes = int (length body)\<rparr>"
    "checkLength (rs_headers resp) (int (length body)) = None" unfolding received_def by blast
  then show ?thesis using finished(7,9) eq unfolding checkLength_None by blast
qed (use assms(2) in simp_all)

lemma demo_get:
  assumes "concat chunks = wireOf [demoHead, demoData] @ later"
  shows "\<exists>c' b'. clientGet tcp_net_conn outWrite (str ''/a'') [] (newClient (tcp_open chunks EOF None)) emptyFile =
      Some (Inr demoResult, c', b') \<and> tcp_pending (cl_br c') = later \<and> of_data b' = [65, 66]"
  using tcpc.clientGet_complete [OF _ _ _ _ _ _ demo_request, of "newClient (tcp_open chunks EOF None)" emptyFile demoResult "[65, 66]" later]
    demo_received [of EOF later] assms
  by (auto simp: tcp_bcontent simp del: str_Cons wireOf_simps)

theorem get_success_complete_witness:
  "\<exists>head datas resp later. parses EOF (wireOf [demoHead, demoData]) (head # datas) later \<and> responseShape 1 head datas
    \<and> decodeResponse (fr_payload head) = Inr resp \<and> [65, 66] = payloads datas
    \<and> (\<forall>h \<in> set (rs_headers resp). hd_name h = HeaderContentLength \<longrightarrow> lengthOk (int (length (payloads datas))) (hd_value h))"
proof -
  obtain c' b' where g: "clientGet tcp_net_conn outWrite (str ''/a'') [] (newClient (tcp_open [wireOf [demoHead, demoData]] EOF None)) emptyFile =
      Some (Inr demoResult, c', b')" "of_data b' = [65, 66]"
    using demo_get [of "[wireOf [demoHead, demoData]]" "[]"] by auto
  from get_success_complete [OF _ g(1)] g(2) show ?thesis by (simp del: str_Cons wireOf_simps parses.simps) blast
qed

text \<open>
  C22. Every complete response is delivered. When the server's bytes begin with a RESPONSE on the right
  stream and the DATA frames that complete it, whose content-length headers (if any) are right, \<^verbatim>\<open>Get\<close>
  returns exactly that status, those headers and that body, however the bytes are cut into pieces,
  and leaves the bytes after it for the next call.
\<close>
theorem get_delivers:
  assumes "clientOk c" and "\<not> cl_broken c" and "\<not> cl_exhausted c" and "tcp_reliable (cl_conn c)" and "of_room b = None"
    and "encodeRequest \<lparr>rq_method = MethodGet, rq_path = path, rq_headers = hs\<rparr> = Inr p"
    and "tcp_pending (cl_br c) = wireOf (head # datas) @ later"
    and "list_all (\<lambda>f. known (fr_type f) \<and> encodable f) (head # datas)" and "responseShape (cl_next c) head datas"
    and "decodeResponse (fr_payload head) = Inr resp"
    and "\<forall>h \<in> set (rs_headers resp). hd_name h = HeaderContentLength \<longrightarrow> lengthOk (int (length (payloads datas))) (hd_value h)"
  shows "\<exists>c' b'. clientGet tcp_net_conn outWrite path hs c b =
      Some (Inr \<lparr>re_status = rs_status resp, re_headers = rs_headers resp, re_bodyBytes = int (length (payloads datas))\<rparr>, c', b')
    \<and> tcp_pending (cl_br c') = later \<and> of_data b' = of_data b @ payloads datas"
proof -
  have "received (tcp_ending (cl_conn c)) (tcp_pending (cl_br c)) (cl_next c)
      \<lparr>re_status = rs_status resp, re_headers = rs_headers resp, re_bodyBytes = int (length (payloads datas))\<rparr> (payloads datas) later"
    unfolding received_def assms(7) using parses_wire [OF assms(8)] assms(9-11) checkLength_None by blast
  then show ?thesis
    using tcpc.clientGet_complete [OF _ _ assms(2-6)] assms(1,2) unfolding clientOk_good tcp_bcontent by blast
qed

theorem get_delivers_witness:
  "\<exists>c' b'. clientGet tcp_net_conn outWrite (str ''/a'') []
      (newClient (tcp_open [take 3 (wireOf [demoHead, demoData]), drop 3 (wireOf [demoHead, demoData]), [7]] EOF None)) emptyFile =
      Some (Inr demoResult, c', b') \<and> tcp_pending (cl_br c') = [7] \<and> of_data b' = [65, 66]"
proof -
  let ?w = "wireOf [demoHead, demoData]"
  let ?c = "newClient (tcp_open [take 3 ?w, drop 3 ?w, [7]] EOF None)"
  have "tcp_pending (cl_br ?c) = ?w @ [7]" by (simp del: wireOf_simps)
  moreover have "payloads [demoData] = [65, 66]" by (simp add: demoData_def)
  moreover from this demo_length [unfolded checkLength_None] have "\<forall>h \<in> set (rs_headers \<lparr>rs_status = 200, rs_headers = [NewHeader HeaderContentLength (str ''2'')]\<rparr>).
      hd_name h = HeaderContentLength \<longrightarrow> lengthOk (int (length (payloads [demoData]))) (hd_value h)" by simp
  ultimately show ?thesis
    using get_delivers [OF _ _ _ _ _ demo_request _ demo_frames _ demo_decodes, of ?c emptyFile "[7]"] demo_shape
    by (simp add: demoResult_def del: str_Cons wireOf_simps)
qed

text \<open>
  C7. A response that is cut off is never a success. Wherever the connection ends before the last byte of a
  response, inside a frame or between two, and whatever lengths were announced, \<^verbatim>\<open>Get\<close> returns an
  error and the client is broken and its connection closed.
\<close>
theorem get_truncated_fails:
  assumes "responseShape sid head datas" and "list_all (\<lambda>f. known (fr_type f) \<and> encodable f) (head # datas)"
    and "k < length (wireOf (head # datas))" and "concat chunks = take k (wireOf (head # datas))"
    and "encodeRequest \<lparr>rq_method = MethodGet, rq_path = path, rq_headers = hs\<rparr> = Inr p"
  shows "\<exists>e c' b'. clientGet tcp_net_conn outWrite path hs (newClient (tcp_open chunks EOF budget)) b = Some (Inl e, c', b')
    \<and> cl_broken c' \<and> ct_closed (tcp_ctl (cl_conn c'))"
  using newClient_simps(1) [of "tcp_open chunks EOF budget"]
proof (cases rule: get_outcome [of "newClient (tcp_open chunks EOF budget)" path hs b])
  case (unbuilt e c')
  then show ?thesis using assms(5) by simp
next
  case (finished res body c' b')
  then show ?thesis using received_cut [OF assms(1-3)] assms(4) by simp
qed auto

theorem get_truncated_fails_witness:
  "\<exists>e c' b'. clientGet tcp_net_conn outWrite (str ''/a'') [] (newClient (tcp_open [wireOf [demoHead]] EOF None)) emptyFile = Some (Inl e, c', b')
    \<and> cl_broken c' \<and> ct_closed (tcp_ctl (cl_conn c'))"
  by (rule get_truncated_fails [OF demo_shape demo_frames _ _ demo_request, of "length (frameBytes demoHead)"]) simp_all

text \<open>
  C24. A failure is final. When \<^verbatim>\<open>Get\<close> returns an error, either the request could not be built, and then
  the connection was not touched and stays usable, or the client is broken for good: every later
  call returns \<^verbatim>\<open>ErrBroken\<close> at once, without touching the connection or the body.
\<close>
theorem get_failure_final:
  assumes "clientOk c" and "clientGet tcp_net_conn outWrite path hs c b = Some (Inl e, c', b')"
  shows "(\<exists>pe. e = CannotBuild pe \<and> cl_br c' = cl_br c \<and> \<not> cl_broken c' \<and> b' = b)
    \<or> (\<forall>path' hs' b2. clientGet tcp_net_conn outWrite path' hs' c' b2 = Some (Inl ErrBroken, c', b2))"
  using assms(1)
proof (cases rule: get_outcome [of c path hs b])
  case (unusable e1 c1)
  then show ?thesis using assms(2) get_broken by auto
next
  case (failed e1 c1 b1)
  then show ?thesis using assms(2) get_broken by auto
qed (use assms(2) in auto)

theorem get_failure_final_witness:
  "\<exists>e c' b'. clientGet tcp_net_conn outWrite (str ''/a'') [] (newClient (tcp_open [] EOF (Some 0))) emptyFile = Some (Inl e, c', b')
    \<and> clientGet tcp_net_conn outWrite (str ''/b'') [] c' emptyFile = Some (Inl ErrBroken, c', emptyFile)"
proof -
  let ?c = "newClient (tcp_open [] EOF (Some 0))"
  have run: "\<exists>e c'. clientGet tcp_net_conn outWrite (str ''/a'') [] ?c emptyFile = Some (Inl (SendingRequest e), c', emptyFile)"
    using demo_request
    by (simp add: clientGet_def Let_def newClient_def clWrite_def writeFrame_def encodeFrame_def writeAll.simps putUint32_def
        tcp_write_def tcp_open_def tcp_net_conn_def cl_conn_def bufioNew_def needsStream_def type_defs requestBytes_def headerBlock_def)
  then obtain e c' where run: "clientGet tcp_net_conn outWrite (str ''/a'') [] ?c emptyFile = Some (Inl (SendingRequest e), c', emptyFile)" by blast
  from get_failure_final [OF _ this] run show ?thesis by fastforce
qed

text \<open>
  C25. Announced lengths are enforced exactly. A response of \<open>n\<close> body bytes passes \<^verbatim>\<open>checkLength\<close> if and only
  if every content-length header it has is one to nineteen decimal digits, and nothing else, whose
  value is \<open>n\<close> and fits a signed 64-bit integer; a response without one always passes.
\<close>
theorem checkLength_exact:
  "checkLength hs n = None \<longleftrightarrow>
     (\<forall>h \<in> set hs. hd_name h = HeaderContentLength \<longrightarrow>
        hd_value h \<noteq> [] \<and> length (hd_value h) \<le> 19 \<and> list_all isDigit (hd_value h)
        \<and> int (digitsValue (hd_value h)) = n \<and> n < 2 ^ 63)"
  unfolding checkLength_None lengthOk_def ..

theorem checkLength_exact_witness:
  "checkLength [NewHeader HeaderContentLength (str ''007'')] 7 = None
   \<and> checkLength [NewHeader HeaderContentLength (str ''+7'')] 7 \<noteq> None"
  unfolding checkLength_exact by (simp add: NewHeader_def isDigit_def digitsValue_def)

end
