(* ===== verification/Wire_Tap.thy ===== *)
theory Wire_Tap
  imports Frame Go_Strings
begin

text \<open>
  \<^verbatim>\<open>internal/wire\<close>: the tap behind \<^verbatim>\<open>bcurl -v\<close>. It watches the bytes of a connection in both
  directions, cuts them into frames and prints each as a hexdump.

  A tap is its output so far, the two framers and the frame counter. The output is a writer that
  takes everything (the code ignores its errors), so it is modelled by the bytes written. A tapped
  connection is again a dictionary of operations, on the pair of the connection and the tap;
  the locale \<open>tapped\<close> shows that it keeps the contract \<open>net_conn\<close> whenever the connection does.
\<close>

subsection \<open>Formatting (\<open>fmt\<close>)\<close>

definition hexDigit :: "nat \<Rightarrow> byte" where
  "hexDigit n = (if n < 10 then 48 + word_of_nat n else 55 + word_of_nat n)"

text \<open>\<^verbatim>\<open>%02X\<close> of a byte, \<^verbatim>\<open>%08X\<close> of an offset, \<^verbatim>\<open>% X\<close> of a byte slice, \<^verbatim>\<open>%d\<close> of a number that is not negative.\<close>

definition hex2 :: "byte \<Rightarrow> byte list" where
  "hex2 b = [hexDigit (unat b div 16), hexDigit (unat b mod 16)]"

fun hexDigits :: "nat \<Rightarrow> byte list" where
  "hexDigits n = (if n < 16 then [hexDigit n] else hexDigits (n div 16) @ [hexDigit (n mod 16)])"

declare hexDigits.simps [simp del]

definition hex8 :: "nat \<Rightarrow> byte list" where
  "hex8 n = replicate (8 - length (hexDigits n)) 48 @ hexDigits n"

definition hexSpaced :: "byte list \<Rightarrow> byte list" where
  "hexSpaced bs = joinByte 32 (map hex2 bs)"

definition newline :: "byte list" where "newline = [10]"

subsection \<open>\<open>tap.go\<close>: printing\<close>

definition rawPreview :: nat where "rawPreview = 256"

definition typeName :: "byte \<Rightarrow> byte list" where
  "typeName t =
     (if t = TypeRequest then str ''REQUEST''
      else if t = TypeResponse then str ''RESPONSE''
      else if t = TypeData then str ''DATA''
      else if t = TypeError then str ''ERROR''
      else str ''unknown(0x'' @ hex2 t @ str '')'')"

definition flagNames :: "byte \<Rightarrow> byte list" where
  "flagNames flags =
     (if flags = 0 then str ''none''
      else joinByte (chr CHR ''|'')
        ((if flags AND FlagEndStream \<noteq> 0 then [str ''END_STREAM''] else [])
         @ (if flags AND NOT FlagEndStream \<noteq> 0 then [str ''0x'' @ hex2 (flags AND NOT FlagEndStream)] else [])))"

text \<open>One row of the dump: sixteen columns with a gap in the middle, then the printable characters.\<close>

definition hexColumn :: "byte list \<Rightarrow> nat \<Rightarrow> byte list" where
  "hexColumn row i = (if i = 8 then [32] else []) @ (if i < length row then hex2 (row ! i) @ [32] else [32, 32, 32])"

definition hexRow :: "byte list \<Rightarrow> byte list" where
  "hexRow row = concat (map (hexColumn row) [0..<16])"

definition textRow :: "byte list \<Rightarrow> byte list" where
  "textRow row = map (\<lambda>c. if c \<ge> 0x20 \<and> c < 0x7F then c else chr CHR ''.'') row"

definition dumpRow :: "byte list \<Rightarrow> nat \<Rightarrow> byte list \<Rightarrow> byte list" where
  "dumpRow indent off row = indent @ hex8 off @ [32, 32] @ hexRow row @ [32, 124] @ textRow row @ [124, 10]"

function writeRowsFrom :: "byte list \<Rightarrow> nat \<Rightarrow> byte list \<Rightarrow> byte list" where
  "writeRowsFrom indent off b =
     (if b = [] then [] else dumpRow indent off (take 16 b) @ writeRowsFrom indent (off + 16) (drop 16 b))"
  by pat_completeness auto
termination
  by (relation "measure (\<lambda>(indent, off, b). length b)") auto

declare writeRowsFrom.simps [simp del]

definition writeRows :: "byte list \<Rightarrow> byte list \<Rightarrow> byte list" where
  "writeRows indent b = writeRowsFrom indent 0 b"

record framer =
  fm_arrow :: "byte list"
  fm_buf :: "byte list"
  fm_broken :: bool

text \<open>What the framers share of their tap: the frame counter and the output.\<close>

record tap_out =
  tp_seq :: nat
  tp_out :: "byte list"

definition emit :: "byte list \<Rightarrow> tap_out \<Rightarrow> tap_out" where
  "emit bs t = t\<lparr>tp_out := tp_out t @ bs\<rparr>"

definition frameText :: "byte list \<Rightarrow> nat \<Rightarrow> byte list \<Rightarrow> byte list" where
  "frameText arrow n b =
     (let hdr = take HeaderSize b; payload = drop HeaderSize b in
      arrow @ str '' frame '' @ decDigits n @ str ''  '' @ typeName (hdr ! 4) @ str ''  stream=''
        @ decDigits (unat (beUint32 (drop 8 hdr))) @ str ''  flags='' @ flagNames (hdr ! 5) @ str ''  length=''
        @ decDigits (length payload) @ newline
      @ str ''    header   '' @ hexSpaced hdr @ newline
      @ (if length payload > 0 then str ''    payload'' @ newline @ writeRows (str ''      '') payload else []))"

definition printFrame :: "framer \<Rightarrow> byte list \<Rightarrow> tap_out \<Rightarrow> tap_out" where
  "printFrame f b t = emit (frameText (fm_arrow f) (Suc (tp_seq t)) b) (t\<lparr>tp_seq := Suc (tp_seq t)\<rparr>)"

definition printRaw :: "framer \<Rightarrow> byte list \<Rightarrow> byte list \<Rightarrow> tap_out \<Rightarrow> tap_out" where
  "printRaw f why b t =
     (let shown = (if length b > rawPreview then take rawPreview b else b) in
      emit (fm_arrow f @ str '' '' @ why @ str '' ('' @ decDigits (length b) @ str '' bytes)'' @ newline
        @ writeRows (str ''      '') shown
        @ (if length shown < length b
           then str ''      ... '' @ decDigits (length b - length shown) @ str '' more bytes not shown'' @ newline else [])) t)"

subsection \<open>\<open>tap.go\<close>: framing\<close>

text \<open>The loop of \<^verbatim>\<open>framer.feed\<close>, after the new bytes were appended.\<close>

function feedLoop :: "framer \<Rightarrow> tap_out \<Rightarrow> framer \<times> tap_out" where
  "feedLoop f t =
     (if length (fm_buf f) < HeaderSize then (f, t)
      else if unat (beUint32 (fm_buf f)) > MaxPayload
      then (f\<lparr>fm_broken := True, fm_buf := []\<rparr>,
            printRaw f (str ''not a valid frame (length field says '' @ decDigits (unat (beUint32 (fm_buf f))) @ str '' bytes)'') (fm_buf f) t)
      else let n = HeaderSize + unat (beUint32 (fm_buf f)) in
        if length (fm_buf f) < n then (f, t)
        else feedLoop (f\<lparr>fm_buf := drop n (fm_buf f)\<rparr>) (printFrame f (take n (fm_buf f)) t))"
  by pat_completeness auto
termination
  by (relation "measure (\<lambda>(f, t). length (fm_buf f))") (auto simp: Let_def)

declare feedLoop.simps [simp del]

definition feed :: "byte list \<Rightarrow> framer \<Rightarrow> tap_out \<Rightarrow> framer \<times> tap_out" where
  "feed b f t =
     (if fm_broken f then (f, printRaw f (str ''bytes after an unreadable frame'') b t)
      else feedLoop (f\<lparr>fm_buf := fm_buf f @ b\<rparr>) t)"

definition flush :: "framer \<Rightarrow> tap_out \<Rightarrow> framer \<times> tap_out" where
  "flush f t =
     (if length (fm_buf f) > 0
      then (f\<lparr>fm_buf := []\<rparr>, printRaw f (str ''incomplete frame at end of connection'') (fm_buf f) t)
      else (f, t))"

record tap =
  tap_sent :: framer
  tap_recv :: framer
  tap_io :: tap_out

definition NewTap :: "byte list \<Rightarrow> tap" where
  "NewTap out = \<lparr>tap_sent = \<lparr>fm_arrow = str ''-->'', fm_buf = [], fm_broken = False\<rparr>,
     tap_recv = \<lparr>fm_arrow = str ''<--'', fm_buf = [], fm_broken = False\<rparr>, tap_io = \<lparr>tp_seq = 0, tp_out = out\<rparr>\<rparr>"

definition feedSent :: "byte list \<Rightarrow> tap \<Rightarrow> tap" where
  "feedSent b t = (case feed b (tap_sent t) (tap_io t) of (f, i) \<Rightarrow> t\<lparr>tap_sent := f, tap_io := i\<rparr>)"

definition feedRecv :: "byte list \<Rightarrow> tap \<Rightarrow> tap" where
  "feedRecv b t = (case feed b (tap_recv t) (tap_io t) of (f, i) \<Rightarrow> t\<lparr>tap_recv := f, tap_io := i\<rparr>)"

definition tapFlush :: "tap \<Rightarrow> tap" where
  "tapFlush t =
     (case flush (tap_sent t) (tap_io t) of (f, i) \<Rightarrow>
      (case flush (tap_recv t) i of (g, j) \<Rightarrow> t\<lparr>tap_sent := f, tap_recv := g, tap_io := j\<rparr>))"

subsection \<open>\<open>tap.go\<close>: the tapped connection\<close>

definition tapRead :: "'c net_conn \<Rightarrow> ('c \<times> tap) reader" where
  "tapRead nc n s =
     (case s of (c, t) \<Rightarrow>
       (case nc_read nc n c of ((bs, e), c') \<Rightarrow> ((bs, e), (c', if length bs > 0 then feedRecv bs t else t))))"

definition tapWrite :: "'c net_conn \<Rightarrow> ('c \<times> tap) writer" where
  "tapWrite nc b s =
     (case s of (c, t) \<Rightarrow>
       (case nc_write nc b c of ((n, e), c') \<Rightarrow> ((n, e), (c', if n > 0 then feedSent (take (nat n) b) t else t))))"

definition tapCloseWrite :: "'c net_conn \<Rightarrow> 'c \<times> tap \<Rightarrow> 'c \<times> tap" where
  "tapCloseWrite nc s = (case s of (c, t) \<Rightarrow> ((case nc_closeWrite nc of Some f \<Rightarrow> f c | None \<Rightarrow> c), t))"

text \<open>\<^verbatim>\<open>Wrap\<close>: reading, writing and half-closing are its own, the rest is the embedded connection's.\<close>

definition tapWrap :: "'c net_conn \<Rightarrow> ('c \<times> tap) net_conn" where
  "tapWrap nc = \<lparr>nc_read = tapRead nc, nc_write = tapWrite nc, nc_close = apfst (nc_close nc),
     nc_closeWrite = Some (tapCloseWrite nc), nc_setReadDeadline = (\<lambda>d. apfst (nc_setReadDeadline nc d)),
     nc_setWriteDeadline = (\<lambda>d. apfst (nc_setWriteDeadline nc d))\<rparr>"

subsection \<open>A tapped connection is a connection\<close>

text \<open>
  A tapped connection always has \<^verbatim>\<open>CloseWrite\<close>, so the contract needs the connection underneath to
  have it too.
\<close>

locale tapped = net_conn nc content ending weight out ctl reliable
  for nc :: "'c net_conn" and content ending weight out ctl reliable +
  assumes half_close: "nc_closeWrite nc \<noteq> None"
begin

lemma tapRead_fst: "tapRead nc n s = ((bs, e), s') \<Longrightarrow> nc_read nc n (fst s) = ((bs, e), fst s')"
  by (auto simp: tapRead_def split: prod.splits)

lemma tapWrite_fst: "tapWrite nc b s = ((k, e), s') \<Longrightarrow> nc_write nc b (fst s) = ((k, e), fst s')"
  by (auto simp: tapWrite_def split: prod.splits)

lemma tap_reader:
  "io_reader (tapRead nc) (\<lambda>s. content (fst s)) (\<lambda>s. ending (fst s)) (\<lambda>s. weight (fst s))
     (\<lambda>s. (out (fst s), ctl (fst s), reliable (fst s))) (\<lambda>_. True)"
proof
  fix s :: "'c \<times> tap" and n bs e s'
  assume "tapRead nc n s = ((bs, e), s')"
  note rd = tapRead_fst [OF this]
  show "content (fst s) = bs @ content (fst s')" "length bs \<le> n" "ending (fst s') = ending (fst s)"
    "(out (fst s'), ctl (fst s'), reliable (fst s')) = (out (fst s), ctl (fst s), reliable (fst s))"
    using sock.read_content [OF TrueI rd] sock.read_bound [OF TrueI rd] sock.read_ending [OF TrueI rd] sock.read_rest [OF TrueI rd]
    by auto
  show "weight (fst s') < weight (fst s)" if "0 < n" "e = None \<or> bs \<noteq> []"
    using sock.read_progress [OF TrueI that(1) rd that(2)] .
next
  fix s :: "'c \<times> tap" and n bs x s'
  assume "tapRead nc n s = ((bs, Some x), s')"
  from sock.read_error [OF TrueI tapRead_fst [OF this]] show "x = ending (fst s) \<and> content (fst s') = []" .
qed simp

lemma tap_writer: "io_writer (tapWrite nc) (\<lambda>s. out (fst s))"
  using wside.write_count wside.write_out by unfold_locales (blast dest: tapWrite_fst)+

end

sublocale tapped \<subseteq> tapc: net_conn "tapWrap nc" "\<lambda>s. content (fst s)" "\<lambda>s. ending (fst s)" "\<lambda>s. weight (fst s)"
    "\<lambda>s. out (fst s)" "\<lambda>s. ctl (fst s)" "\<lambda>s. reliable (fst s)"
proof (intro net_conn.intro)
  show "io_reader (nc_read (tapWrap nc)) (\<lambda>s. content (fst s)) (\<lambda>s. ending (fst s)) (\<lambda>s. weight (fst s))
     (\<lambda>s. (out (fst s), ctl (fst s), reliable (fst s))) (\<lambda>_. True)"
    using tap_reader by (simp add: tapWrap_def)
  show "io_writer (nc_write (tapWrap nc)) (\<lambda>s. out (fst s))" using tap_writer by (simp add: tapWrap_def)
qed (use write_frame write_reliable setRead_law setWrite_law close_law half_close closeWrite_law in
    \<open>auto simp: tapWrap_def tapCloseWrite_def apfst_def map_prod_def dest!: tapWrite_fst split: prod.splits\<close>)

interpretation tcpt: tapped tcp_net_conn tcp_content tcp_ending tcp_weight tcp_out tcp_ctl tcp_reliable
  by unfold_locales (simp add: tcp_net_conn_def)

end
