(* ===== verification/Conn_Sim.thy ===== *)
theory Conn_Sim
  imports Client
begin

text \<open>
  Simulation between connections: when every operation on one connection is, seen through a
  projection of its state, the operation on another, then everything the client does on the first
  is what it does on the second. The tap of \<open>Wire_Tap\<close> is such a pair.

  The loops are partial, so the statements are about runs that return; the proofs are by fixpoint
  induction on the run of the first connection.
\<close>

subsection \<open>Readers\<close>

locale reader_sim =
  fixes rd1 :: "'a reader" and rd2 :: "'b reader" and pr :: "'a \<Rightarrow> 'b"
  assumes read_sim: "rd1 n s = (x, s') \<Longrightarrow> rd2 n (pr s) = (x, pr s')"
begin

lemma readFullLoop_sim:
  assumes "readFullLoop rd1 n acc r = Some y"
  shows "readFullLoop rd2 n acc (pr r) = Some (fst y, pr (snd y))"
proof -
  have "rd1 = rd1 \<longrightarrow> readFullLoop rd2 n acc (pr r) = Some (fst y, pr (snd y))"
  proof (rule readFullLoop.raw_induct [where P = "\<lambda>rd n acc r y. rd = rd1 \<longrightarrow>
      readFullLoop rd2 n acc (pr r) = Some (fst y, pr (snd y))", OF _ assms], intro impI)
    fix loop n acc r and y :: "(byte list \<times> io_err option) \<times> 'a" and rd :: "'a reader"
    assume IH: "\<And>rd n acc r y. loop rd n acc r = Some y \<Longrightarrow> rd = rd1 \<longrightarrow> readFullLoop rd2 n acc (pr r) = Some (fst y, pr (snd y))"
      and run: "(if n \<le> length acc then Some ((acc, None), r)
        else case rd (n - length acc) r of
             ((bs, None), r') \<Rightarrow> loop rd n (acc @ bs) r'
             | ((bs, Some x), r') \<Rightarrow>
                 if n \<le> length (acc @ bs) then Some ((acc @ bs, None), r')
                 else Some ((acc @ bs, Some (if acc @ bs \<noteq> [] \<and> x = EOF then UnexpectedEOF else x)), r')) = Some y"
      and rd: "rd = rd1"
    obtain bs e r' where r: "rd1 (n - length acc) r = ((bs, e), r')" by (metis surj_pair)
    from read_sim [OF this] run IH [of rd1] rd r show "readFullLoop rd2 n acc (pr r) = Some (fst y, pr (snd y))"
      by (auto simp: readFullLoop.simps [of rd2 n acc] split: if_splits option.splits)
  qed
  then show ?thesis by simp
qed

lemma readFull_sim: "readFull rd1 n r = Some y \<Longrightarrow> readFull rd2 n (pr r) = Some (fst y, pr (snd y))"
  by (simp add: readFull_def readFullLoop_sim)

lemma discardReadFrom_sim:
  assumes "discardReadFrom rd1 w r = Some y"
  shows "discardReadFrom rd2 w (pr r) = Some (fst y, pr (snd y))"
proof -
  have "rd1 = rd1 \<longrightarrow> discardReadFrom rd2 w (pr r) = Some (fst y, pr (snd y))"
  proof (rule discardReadFrom.raw_induct [where P = "\<lambda>rd w r y. rd = rd1 \<longrightarrow>
      discardReadFrom rd2 w (pr r) = Some (fst y, pr (snd y))", OF _ assms], intro impI)
    fix loop w r and y :: "(nat \<times> io_err option) \<times> 'a" and rd :: "'a reader"
    assume IH: "\<And>rd w r y. loop rd w r = Some y \<Longrightarrow> rd = rd1 \<longrightarrow> discardReadFrom rd2 w (pr r) = Some (fst y, pr (snd y))"
      and run: "(case rd 8192 r of
             ((bs, None), r') \<Rightarrow> loop rd (w + length bs) r'
             | ((bs, Some x), r') \<Rightarrow> Some ((w + length bs, if x = EOF then None else Some x), r')) = Some y"
      and rd: "rd = rd1"
    obtain bs e r' where r: "rd1 8192 r = ((bs, e), r')" by (metis surj_pair)
    from read_sim [OF this] run IH [of rd1] rd r show "discardReadFrom rd2 w (pr r) = Some (fst y, pr (snd y))"
      by (auto simp: discardReadFrom.simps [of rd2 w] split: option.splits)
  qed
  then show ?thesis by simp
qed

end

text \<open>Limiting and buffering keep a simulation.\<close>

lemma limit_sim: "reader_sim rd1 rd2 pr \<Longrightarrow> reader_sim (limitRead rd1) (limitRead rd2) (map_prod id pr)"
  by (auto simp: reader_sim_def limitRead_def split: prod.splits if_splits)

definition bufMap :: "('a \<Rightarrow> 'b) \<Rightarrow> 'a bufio \<Rightarrow> 'b bufio" where
  "bufMap pr b = \<lparr>bf_buf = bf_buf b, bf_err = bf_err b, bf_rd = pr (bf_rd b)\<rparr>"

lemma bufMap_simps [simp]:
  "bf_buf (bufMap pr b) = bf_buf b" "bf_err (bufMap pr b) = bf_err b" "bf_rd (bufMap pr b) = pr (bf_rd b)"
  "bufMap pr (b\<lparr>bf_buf := x\<rparr>) = (bufMap pr b)\<lparr>bf_buf := x\<rparr>" "bufMap pr (b\<lparr>bf_err := y\<rparr>) = (bufMap pr b)\<lparr>bf_err := y\<rparr>"
  "bufMap pr (b\<lparr>bf_rd := u\<rparr>) = (bufMap pr b)\<lparr>bf_rd := pr u\<rparr>"
  by (simp_all add: bufMap_def)

lemma bufio_sim: "reader_sim rd1 rd2 pr \<Longrightarrow> reader_sim (bufioRead rd1) (bufioRead rd2) (bufMap pr)"
  unfolding reader_sim_def bufioRead_def by (auto split: prod.splits if_splits)

context reader_sim
begin

lemma copyDiscard_sim: "copyDiscard rd1 lim r = Some y \<Longrightarrow> copyDiscard rd2 lim (pr r) = Some (fst y, pr (snd y))"
  using reader_sim.discardReadFrom_sim [OF limit_sim [OF reader_sim_axioms], of 0 "(lim, r)"]
  by (auto simp: copyDiscard_def split: option.splits prod.splits)

lemma copyN_sim: "copyN rd1 n r = Some y \<Longrightarrow> copyN rd2 n (pr r) = Some (fst y, pr (snd y))"
  using copyDiscard_sim [of n r] by (auto simp: copyN_def split: option.splits prod.splits)

lemma readFrame_sim:
  assumes "readFrame rd1 r = Some y"
  shows "readFrame rd2 (pr r) = Some (fst y, pr (snd y))"
proof -
  have "rd1 = rd1 \<longrightarrow> readFrame rd2 (pr r) = Some (fst y, pr (snd y))"
  proof (rule readFrame.raw_induct [where P = "\<lambda>rd r y. rd = rd1 \<longrightarrow>
      readFrame rd2 (pr r) = Some (fst y, pr (snd y))", OF _ assms], intro impI, goal_cases)
    case (1 loop rd r y)
    from 1(2,3) obtain hdr e1 r1 where h: "readFull rd1 HeaderSize r = Some ((hdr, e1), r1)"
      by (auto split: option.splits prod.splits)
    note h2 = readFull_sim [OF h, simplified fst_conv snd_conv]
    note sims = readFull_sim [of _ r1] copyN_sim [of _ r1]
    show ?case
    proof (cases "e1 \<noteq> None \<or> MaxPayload < unat (beUint32 hdr)")
      case True
      then show ?thesis using 1(2,3) h h2 by (cases e1) (auto simp: readFrame.simps [of rd2 "pr r"])
    next
      case False
      let ?n = "unat (beUint32 hdr)"
      show ?thesis
      proof (cases "known (hdr ! 4)")
        case True
        with False 1(2,3) h obtain p e2 r2 where p: "readFull rd1 ?n r1 = Some ((p, e2), r2)" by (auto split: option.splits prod.splits)
        with False True 1(2,3) h h2 sims(1) [OF p] show ?thesis
          by (auto simp: readFrame.simps [of rd2 "pr r"] split: option.splits if_splits)
      next
        case unknown: False
        with False 1(2,3) h obtain e2 r2 where p: "copyN rd1 ?n r1 = Some (e2, r2)" by (auto split: option.splits prod.splits)
        with False unknown 1 h h2 sims(2) [OF p] show ?thesis
          by (auto simp: readFrame.simps [of rd2 "pr r"] split: option.splits)
      qed
    qed
  qed
  then show ?thesis by simp
qed

end

subsection \<open>Connections\<close>

locale conn_sim =
  fixes nc1 :: "'a net_conn" and nc2 :: "'b net_conn" and pr :: "'a \<Rightarrow> 'b"
  assumes read_sim: "nc_read nc1 n s = (x, s') \<Longrightarrow> nc_read nc2 n (pr s) = (x, pr s')"
    and write_sim: "nc_write nc1 b s = (y, s') \<Longrightarrow> nc_write nc2 b (pr s) = (y, pr s')"
    and close_sim: "pr (nc_close nc1 s) = nc_close nc2 (pr s)"
    and halfClose_sim: "pr (halfClose nc1 s) = halfClose nc2 (pr s)"
    and setRead_sim: "pr (nc_setReadDeadline nc1 d s) = nc_setReadDeadline nc2 d (pr s)"
    and setWrite_sim: "pr (nc_setWriteDeadline nc1 d s) = nc_setWriteDeadline nc2 d (pr s)"

sublocale conn_sim \<subseteq> bs: reader_sim "bufioRead (nc_read nc1)" "bufioRead (nc_read nc2)" "bufMap pr"
  by (rule bufio_sim) (simp add: reader_sim_def read_sim)

definition clientMap :: "('a \<Rightarrow> 'b) \<Rightarrow> 'a client \<Rightarrow> 'b client" where
  "clientMap pr c = \<lparr>cl_timeout = cl_timeout c, cl_br = bufMap pr (cl_br c), cl_next = cl_next c,
     cl_exhausted = cl_exhausted c, cl_broken = cl_broken c\<rparr>"

lemma clientMap_simps [simp]:
  "cl_timeout (clientMap pr c) = cl_timeout c" "cl_br (clientMap pr c) = bufMap pr (cl_br c)" "cl_next (clientMap pr c) = cl_next c"
  "cl_exhausted (clientMap pr c) = cl_exhausted c" "cl_broken (clientMap pr c) = cl_broken c" "cl_conn (clientMap pr c) = pr (cl_conn c)"
  "clientMap pr (c\<lparr>cl_br := b\<rparr>) = (clientMap pr c)\<lparr>cl_br := bufMap pr b\<rparr>" "clientMap pr (c\<lparr>cl_next := n\<rparr>) = (clientMap pr c)\<lparr>cl_next := n\<rparr>"
  "clientMap pr (c\<lparr>cl_exhausted := True\<rparr>) = (clientMap pr c)\<lparr>cl_exhausted := True\<rparr>"
  "clientMap pr (c\<lparr>cl_broken := True\<rparr>) = (clientMap pr c)\<lparr>cl_broken := True\<rparr>"
  by (simp_all add: clientMap_def cl_conn_def)

lemma clientMap_onClConn: "(\<And>s. pr (f s) = g (pr s)) \<Longrightarrow> clientMap pr (onClConn f c) = onClConn g (clientMap pr c)"
  by (simp add: onClConn_def)

context conn_sim
begin

lemma writeAll_sim: "writeAll (nc_write nc1) b s = (e, s') \<Longrightarrow> writeAll (nc_write nc2) b (pr s) = (e, pr s')"
proof (induction "length b" arbitrary: b s rule: less_induct)
  case less
  obtain n x s1 where w: "nc_write nc1 b s = ((n, x), s1)" by (metis surj_pair)
  from write_sim [OF this] less w show ?case
    by (auto simp: writeAll.simps [of _ b] split: if_splits option.splits)
qed

lemma clWrite_sim: "clWrite nc1 f c = (e, c') \<Longrightarrow> clWrite nc2 f (clientMap pr c) = (e, clientMap pr c')"
  using writeAll_sim by (fastforce simp: clWrite_def writeFrame_def setWrite_sim [symmetric] onClConn_def split: sum.splits prod.splits)

lemma clFail_sim: "clFail nc2 (clientMap pr c) = clientMap pr (clFail nc1 c)"
  using clientMap_onClConn [of pr "nc_close nc1" "nc_close nc2" "c\<lparr>cl_broken := True\<rparr>"] close_sim by (simp add: clFail_def)

lemma halfClose_fun: "(case nc_closeWrite nc of Some f \<Rightarrow> f | None \<Rightarrow> (\<lambda>x. x)) = halfClose nc"
  by (auto simp: halfClose_def fun_eq_iff split: option.splits)

lemmas conn_maps = clientMap_onClConn [of pr "halfClose nc1" "halfClose nc2", OF halfClose_sim]
  clientMap_onClConn [of pr "nc_setReadDeadline nc1 d" "nc_setReadDeadline nc2 d" for d, OF setRead_sim]

lemma sendError_sim:
  assumes "sendError nc1 code msg c = Some c'"
  shows "sendError nc2 code msg (clientMap pr c) = Some (clientMap pr c')"
proof (cases "encodeConnError \<lparr>ce_code = code, ce_message = msg\<rparr>")
  case (Inr payload)
  let ?f = "\<lparr>fr_type = TypeError, fr_flags = 0, fr_stream = 0, fr_payload = payload\<rparr>"
  obtain e c1 where w: "clWrite nc1 ?f c = (e, c1)" by (metis surj_pair)
  let ?c3 = "onClConn (nc_setReadDeadline nc1 clientDrainTime) (onClConn (halfClose nc1) c1)"
  show ?thesis
  proof (cases e)
    case None
    with assms Inr w obtain y where y: "copyDiscard (bufioRead (nc_read nc1)) clientDrainBytes (cl_br ?c3) = Some y" "c' = ?c3\<lparr>cl_br := snd y\<rparr>"
      by (auto simp: sendError_def Let_def halfClose_fun split: option.splits prod.splits)
    have "bufMap pr (cl_br ?c3) = cl_br (onClConn (nc_setReadDeadline nc2 clientDrainTime) (onClConn (halfClose nc2) (clientMap pr c1)))"
      using conn_maps clientMap_simps(2) by metis
    with bs.copyDiscard_sim [OF y(1)] y(2) Inr clWrite_sim [OF w] None show ?thesis
      by (simp add: sendError_def Let_def halfClose_fun conn_maps)
  qed (use assms Inr w clWrite_sim [OF w] in \<open>simp add: sendError_def\<close>)
qed (use assms in \<open>simp add: sendError_def\<close>)

lemma clReadFrame_sim:
  assumes "clReadFrame nc1 c = Some (r, c')"
  shows "clReadFrame nc2 (clientMap pr c) = Some (r, clientMap pr c')"
proof -
  let ?c1 = "onClConn (nc_setReadDeadline nc1 (cl_timeout c)) c"
  from assms obtain res br where rd: "readFrame (bufioRead (nc_read nc1)) (cl_br ?c1) = Some (res, br)"
    by (auto simp: clReadFrame_def Let_def split: option.splits)
  have c1: "onClConn (nc_setReadDeadline nc2 (cl_timeout c)) (clientMap pr c) = clientMap pr ?c1" by (simp add: conn_maps)
  note rd2 = bs.readFrame_sim [OF rd, simplified]
  show ?thesis
  proof (cases res)
    case (Inl err)
    note send = sendError_sim [of _ _ "?c1\<lparr>cl_br := br\<rparr>"]
    from Inl assms rd rd2 show ?thesis
      by (cases err) (auto simp: clReadFrame_def Let_def c1 dest!: send split: io_err.splits if_splits)
  next
    case (Inr f)
    with assms rd rd2 show ?thesis by (auto simp: clReadFrame_def Let_def c1)
  qed
qed

lemma expect_sim: "expect nc1 f want sid c = Some (e, c') \<Longrightarrow> expect nc2 f want sid (clientMap pr c) = Some (e, clientMap pr c')"
  by (auto simp: expect_def dest!: sendError_sim split: if_splits)

lemma readBody_sim:
  assumes "readBody nc1 bw sid fin n c b = Some (r, c', b')"
  shows "readBody nc2 bw sid fin n (clientMap pr c) b = Some (r, clientMap pr c', b')"
proof -
  let ?out = "\<lambda>y :: (client_err + int) \<times> 'a client \<times> 'd. (fst y, clientMap pr (fst (snd y)), snd (snd y))"
  have "nc1 = nc1 \<longrightarrow> readBody nc2 bw sid fin n (clientMap pr c) b = Some (?out (r, c', b'))"
  proof (rule readBody.raw_induct [where P = "\<lambda>nc bw sid fin n c b y. nc = nc1 \<longrightarrow>
      readBody nc2 bw sid fin n (clientMap pr c) b = Some (?out y)", OF _ assms], intro impI, goal_cases)
    case (1 loop nc bw sid fin n c b y)
    show ?case
    proof (cases fin)
      case False
      with 1(2,3) obtain rf c1 where rf: "clReadFrame nc1 c = Some (rf, c1)" by (auto split: option.splits)
      show ?thesis
      proof (cases rf)
        case (Inl e)
        with 1(2,3) False rf clReadFrame_sim [OF rf] show ?thesis by (auto simp: readBody.simps [of nc2])
      next
        case (Inr d)
        with 1(2,3) False rf obtain e c2 where ex: "expect nc1 d TypeData sid c1 = Some (e, c2)" by (auto split: option.splits)
        obtain k we b1 where w: "bw (fr_payload d) b = ((k, we), b1)" by (metis surj_pair)
        note IH = 1(1) [of nc1 bw sid "Has (fr_flags d) FlagEndStream" "n + int (length (fr_payload d))" c2 b1, THEN mp, OF _ refl]
        show ?thesis using 1(2,3) False rf Inr ex w IH clReadFrame_sim [OF rf] expect_sim [OF ex]
          by (cases e; cases we) (auto simp: readBody.simps [of nc2 bw sid False n "clientMap pr c" b])
      qed
    qed (use 1(2) in \<open>auto simp: readBody.simps [of nc2]\<close>)
  qed
  then show ?thesis by simp
qed

lemma readResponse_sim:
  assumes "readResponse nc1 bw sid c b = Some (r, c', b')"
  shows "readResponse nc2 bw sid (clientMap pr c) b = Some (r, clientMap pr c', b')"
proof -
  from assms obtain rf c1 where rf: "clReadFrame nc1 c = Some (rf, c1)"
    by (auto simp: readResponse_def split: option.splits)
  note rf2 = clReadFrame_sim [OF this]
  show ?thesis
  proof (cases rf)
    case (Inl e)
    with assms rf rf2 show ?thesis by (simp add: readResponse_def)
  next
    case (Inr f)
    with assms rf obtain e c2 where ex: "expect nc1 f TypeResponse sid c1 = Some (e, c2)"
      by (auto simp: readResponse_def split: option.splits)
    note ex2 = expect_sim [OF this]
    show ?thesis
    proof (cases e)
      case None
      show ?thesis
      proof (cases "decodeResponse (fr_payload f)")
        case (Inr resp)
        with assms rf \<open>rf = Inr f\<close> ex None obtain n c3 b1
          where rb: "readBody nc1 bw sid (Has (fr_flags f) FlagEndStream) 0 c2 b = Some (n, c3, b1)"
          by (auto simp: readResponse_def split: option.splits)
        from assms rf rf2 \<open>rf = Inr f\<close> ex ex2 None Inr rb readBody_sim [OF rb] show ?thesis
          by (cases n) (simp_all add: readResponse_def split: option.splits)
      qed (use assms rf rf2 Inr ex ex2 None in \<open>simp add: readResponse_def\<close>)
    qed (use assms rf rf2 Inr ex ex2 in \<open>simp add: readResponse_def\<close>)
  qed
qed

lemma sentRequest_sim:
  assumes "(case readResponse nc1 bw sid c b of None \<Rightarrow> None
     | Some (Inl e, c3, b1) \<Rightarrow> Some (Inl e, clFail nc1 c3, b1)
     | Some (Inr res, c3, b1) \<Rightarrow> Some (Inr res, c3, b1)) = Some (r, c', b')"
  shows "(case readResponse nc2 bw sid (clientMap pr c) b of None \<Rightarrow> None
     | Some (Inl e, c3, b1) \<Rightarrow> Some (Inl e, clFail nc2 c3, b1)
     | Some (Inr res, c3, b1) \<Rightarrow> Some (Inr res, c3, b1)) = Some (r, clientMap pr c', b')"
proof -
  from assms obtain r1 c1 b1 where rr: "readResponse nc1 bw sid c b = Some (r1, c1, b1)"
    by (auto split: option.splits)
  from assms rr readResponse_sim [OF rr] show ?thesis by (cases r1) (auto simp: clFail_sim)
qed

lemma clientGet_sim:
  assumes "clientGet nc1 bw path hs c b = Some (r, c', b')"
  shows "clientGet nc2 bw path hs (clientMap pr c) b = Some (r, clientMap pr c', b')"
proof (cases "cl_broken c \<or> cl_exhausted c")
  case False
  define c1 where "c1 = (if cl_next c = 0xFFFFFFFF then c\<lparr>cl_exhausted := True\<rparr> else c\<lparr>cl_next := cl_next c + 1\<rparr>)"
  have c1: "clientMap pr c1 = (if cl_next c = 0xFFFFFFFF then (clientMap pr c)\<lparr>cl_exhausted := True\<rparr>
      else (clientMap pr c)\<lparr>cl_next := cl_next c + 1\<rparr>)"
    by (simp add: c1_def)
  show ?thesis
  proof (cases "encodeRequest \<lparr>rq_method = MethodGet, rq_path = path, rq_headers = hs\<rparr>")
    case (Inl e)
    with assms False show ?thesis by (auto simp: clientGet_def Let_def c1 [symmetric] c1_def [symmetric])
  next
    case (Inr payload)
    obtain e c2 where w: "clWrite nc1 \<lparr>fr_type = TypeRequest, fr_flags = FlagEndStream, fr_stream = cl_next c, fr_payload = payload\<rparr> c1 = (e, c2)"
      by (metis surj_pair)
    from assms False Inr w clWrite_sim [OF w] show ?thesis
      by (cases e) (simp_all add: clientGet_def Let_def c1 [symmetric] c1_def [symmetric] clFail_sim sentRequest_sim)
  qed
qed (use assms in \<open>auto simp: clientGet_def clFail_sim\<close>)

end

end
