(* ===== verification/Wire_Props.thy ===== *)
theory Wire_Props
  imports Wire_Tap Conn_Sim Client_Props
begin

text \<open>
  What the tap shows is what crossed the connection: frames are found whatever the pieces, the dump
  can be read back, and tapping a connection does not change what its user gets.
\<close>

subsection \<open>Framing does not depend on the pieces\<close>

definition feedAll :: "byte list list \<Rightarrow> framer \<Rightarrow> tap_out \<Rightarrow> framer \<times> tap_out" where
  "feedAll chunks f t = foldl (\<lambda>(f, t) b. feed b f t) (f, t) chunks"

text \<open>What the tap prints for a run of frames, numbered from \<open>n\<close> on.\<close>

fun framesText :: "byte list \<Rightarrow> nat \<Rightarrow> byte list list \<Rightarrow> byte list" where
  "framesText arrow n [] = []"
| "framesText arrow n (b # bs) = frameText arrow n b @ framesText arrow (Suc n) bs"

lemma framesText_append: "framesText arrow n (as @ bs) = framesText arrow n as @ framesText arrow (n + length as) bs"
  by (induction as arbitrary: n) simp_all

lemma feedLoop_frames:
  assumes "list_all rawFrame frames" "partialFrame later"
  shows "feedLoop (f\<lparr>fm_buf := concat frames @ later\<rparr>) t =
    (f\<lparr>fm_buf := later\<rparr>, \<lparr>tp_seq = tp_seq t + length frames, tp_out = tp_out t @ framesText (fm_arrow f) (Suc (tp_seq t)) frames\<rparr>)"
  using assms(1)
proof (induction frames arbitrary: t)
  case Nil
  then show ?case using assms(2) by (auto simp: feedLoop.simps [of "f\<lparr>fm_buf := later\<rparr>"] partialFrame_def Let_def)
next
  case (Cons b bs)
  then have b: "12 \<le> length b" "unat (beUint32 b) \<le> 16384" "length b = 12 + unat (beUint32 b)"
    by (auto simp: rawFrame_def)
  have be: "beUint32 (b @ concat bs @ later) = beUint32 b" by (rule be_prefix) (use b(1) in simp)
  have "feedLoop (f\<lparr>fm_buf := concat (b # bs) @ later\<rparr>) t =
      feedLoop (f\<lparr>fm_buf := concat bs @ later\<rparr>) (printFrame (f\<lparr>fm_buf := concat (b # bs) @ later\<rparr>) b t)"
    using b by (simp add: feedLoop.simps [of "f\<lparr>fm_buf := b @ concat bs @ later\<rparr>"] be Let_def)
  also have "\<dots> = (f\<lparr>fm_buf := later\<rparr>, \<lparr>tp_seq = tp_seq t + length (b # bs),
      tp_out = tp_out t @ framesText (fm_arrow f) (Suc (tp_seq t)) (b # bs)\<rparr>)"
    using Cons by (simp add: printFrame_def emit_def)
  finally show ?case .
qed

lemma partial_prefix:
  assumes "p @ q = b" "partialFrame b \<or> rawFrame b \<and> length p < length b"
  shows "partialFrame p"
proof (cases "length p < 12")
  case False
  then have "beUint32 b = beUint32 p" using be_prefix [of p q] assms(1) by simp
  then show ?thesis using False assms by (auto simp: partialFrame_def rawFrame_def)
qed (simp add: partialFrame_def)

lemma append_split: "b @ x = p @ q \<Longrightarrow> length b \<le> length p \<Longrightarrow> \<exists>p'. p = b @ p' \<and> p' @ q = x"
  unfolding append_eq_append_conv2 by (elim exE disjE) auto

lemma prefix_frames:
  assumes "p @ q = concat frames @ later" "list_all rawFrame frames" "partialFrame later"
  obtains fs r gs where "frames = fs @ gs" "p = concat fs @ r" "partialFrame r" "r @ q = concat gs @ later"
  using assms(1,2)
proof (induction frames arbitrary: p thesis)
  case Nil
  then show ?case using partial_prefix [of p q later] assms(3) by (intro Nil.prems(1) [of "[]" "[]" p]) auto
next
  case (Cons b bs)
  show ?case
  proof (cases "length p < length b")
    case True
    then obtain q' where "b = p @ q'" using Cons.prems(2) by (auto simp: append_eq_append_conv2)
    then have "partialFrame p" using partial_prefix [of p q' b] True Cons.prems(3) by auto
    then show ?thesis using Cons.prems(2) by (intro Cons.prems(1) [of "[]" "b # bs" p]) auto
  next
    case False
    then obtain p' where p: "p = b @ p'" "p' @ q = concat bs @ later"
      using append_split [of b "concat bs @ later" p q] Cons.prems(2) by auto
    from Cons.IH [OF _ p(2)] Cons.prems(3) obtain fs r gs where
      "bs = fs @ gs" "p' = concat fs @ r" "partialFrame r" "r @ q = concat gs @ later" by auto
    then show ?thesis using p(1) by (intro Cons.prems(1) [of "b # fs" gs r]) auto
  qed
qed

lemma feedAll_frames:
  assumes "list_all rawFrame frames" "partialFrame later" "concat chunks = concat frames @ later"
    "fm_buf f = []" "\<not> fm_broken f"
  shows "feedAll chunks f t = (f\<lparr>fm_buf := later\<rparr>,
    \<lparr>tp_seq = tp_seq t + length frames, tp_out = tp_out t @ framesText (fm_arrow f) (Suc (tp_seq t)) frames\<rparr>)"
  using assms(1-3)
proof (induction chunks arbitrary: frames later rule: rev_induct)
  case Nil
  have "frames = []" using Nil by (cases frames) (auto simp: rawFrame_def)
  then show ?case using Nil assms(4) by (simp add: feedAll_def)
next
  case (snoc c cs)
  then have "concat cs @ c = concat frames @ later" by simp
  then obtain fs r gs where d: "frames = fs @ gs" "concat cs = concat fs @ r" "partialFrame r" "r @ c = concat gs @ later"
    by (rule prefix_frames [OF _ snoc.prems(1,2)])
  have "feedAll (cs @ [c]) f t = (case feedAll cs f t of (f1, t1) \<Rightarrow> feed c f1 t1)" by (simp add: feedAll_def split: prod.splits)
  also have "\<dots> = feed c (f\<lparr>fm_buf := r\<rparr>)
      \<lparr>tp_seq = tp_seq t + length fs, tp_out = tp_out t @ framesText (fm_arrow f) (Suc (tp_seq t)) fs\<rparr>"
    using snoc.IH [of fs r] d snoc.prems(1) by simp
  also have "\<dots> = (f\<lparr>fm_buf := later\<rparr>, \<lparr>tp_seq = tp_seq t + length frames,
      tp_out = tp_out t @ framesText (fm_arrow f) (Suc (tp_seq t)) frames\<rparr>)"
    using feedLoop_frames [of gs later f] snoc.prems(1,2) d assms(5) by (simp add: feed_def framesText_append)
  finally show ?case .
qed

subsection \<open>Reading the dump back\<close>

definition hexVal :: "byte \<Rightarrow> byte" where
  "hexVal c = (if c < 65 then c - 48 else c - 55)"

fun unhex :: "byte list \<Rightarrow> byte list" where
  "unhex (x # y # xs) = (if x = 32 then unhex (y # xs) else (16 * hexVal x + hexVal y) # unhex xs)"
| "unhex _ = []"

text \<open>The bytes a dump shows: the 49 hex columns of each line, after the indent and the offset.\<close>

definition undump :: "byte list \<Rightarrow> byte list" where
  "undump s = concat (map (\<lambda>line. unhex (take 49 (drop 16 line))) (splitByte 10 s))"

lemma unat_mod16: "unat (b :: byte) div 16 < 16" "unat b mod 16 < 16"
  using unat_byte_bound [of b] by auto

lemma hexDigit_simps: "n < 16 \<Longrightarrow> hexDigit n \<noteq> 32 \<and> hexDigit n \<noteq> 10 \<and> hexVal (hexDigit n) = word_of_nat n"
proof -
  assume "n < 16"
  then have "n \<in> {0..<16}" by simp
  then show ?thesis by (simp add: hexDigit_def hexVal_def atLeastLessThan_nat_numeral) auto
qed

lemma unhex_space [simp]: "unhex (32 # xs) = unhex xs"
  by (cases xs) simp_all

lemma unhex_hex2 [simp]: "unhex (hex2 b @ xs) = b # unhex xs"
proof -
  have "16 * (word_of_nat (unat b div 16) :: byte) + word_of_nat (unat b mod 16) = word_of_nat (16 * (unat b div 16) + unat b mod 16)"
    by (simp only: of_nat_add of_nat_mult of_nat_numeral)
  then show ?thesis using hexDigit_simps [OF unat_mod16(1)] hexDigit_simps [OF unat_mod16(2)] by (simp add: hex2_def)
qed

lemma hex2_no_newline: "10 \<notin> set (hex2 b)" "length (hex2 b) = 2"
  using hexDigit_simps unat_mod16 by (auto simp: hex2_def)

lemma unhex_column: "unhex (hexColumn row i @ xs) = (if i < length row then row ! i # unhex xs else unhex xs)"
  by (simp add: hexColumn_def)

lemma unhex_columns: "i \<le> 16 \<Longrightarrow> length row \<le> 16 \<Longrightarrow> unhex (concat (map (hexColumn row) [i..<16])) = drop i row"
proof (induction "16 - i" arbitrary: i)
  case (Suc n)
  then have "[i..<16] = i # [Suc i..<16]" by (simp add: upt_rec)
  with Suc show ?case by (simp add: unhex_column Cons_nth_drop_Suc)
qed simp

lemma length_hexColumn: "length (hexColumn row i) = (if i = 8 then 4 else 3)"
  by (simp add: hexColumn_def hex2_no_newline)

lemma length_hexRow: "length (hexRow row) = 49"
  by (simp add: hexRow_def length_concat length_hexColumn comp_def upt_rec)

lemma hexDigits_length: "n < 16 ^ k \<Longrightarrow> 0 < k \<Longrightarrow> length (hexDigits n) \<le> k"
proof (induction k arbitrary: n)
  case (Suc k)
  show ?case
  proof (cases "n < 16")
    case False
    with Suc.prems have "n div 16 < 16 ^ k" "0 < k" by (auto simp: less_mult_imp_div_less intro: gr0I)
    with Suc.IH [of "n div 16"] False show ?thesis by (subst hexDigits.simps) simp
  qed (simp add: hexDigits.simps)
qed simp

lemma hexDigits_no_newline: "10 \<notin> set (hexDigits n)"
proof (induction n rule: hexDigits.induct)
  case (1 n)
  then show ?case using hexDigit_simps [of n] hexDigit_simps [of "n mod 16"] by (subst hexDigits.simps) auto
qed

lemma hex8_facts: "n < 16 ^ 8 \<Longrightarrow> length (hex8 n) = 8" "10 \<notin> set (hex8 n)"
  using hexDigits_length [of n 8] hexDigits_no_newline [of n] by (auto simp: hex8_def)

lemma hexRow_no_newline: "10 \<notin> set (hexRow row)"
  using hex2_no_newline by (auto simp: hexRow_def hexColumn_def split: if_splits)

lemma textRow_no_newline: "10 \<notin> set (textRow row)"
  by (auto simp: textRow_def)

lemma undump_rows:
  assumes "length indent = 6" "10 \<notin> set indent" "off + length b \<le> 16 ^ 8"
  shows "undump (writeRowsFrom indent off b) = b"
  using assms(3)
proof (induction "length b" arbitrary: off b rule: less_induct)
  case less
  show ?case
  proof (cases "b = []")
    case False
    let ?line = "indent @ hex8 off @ [32, 32] @ hexRow (take 16 b) @ [32, 124] @ textRow (take 16 b) @ [124]"
    have "off < 16 ^ 8" using less.prems False by (cases b) auto
    then have len: "length (hex8 off) = 8" by (rule hex8_facts)
    have nl: "10 \<notin> set ?line" using assms(2) hex8_facts(2) hexRow_no_newline textRow_no_newline by auto
    have "unhex (take 49 (drop 16 ?line)) = take 16 b"
      using assms(1) len length_hexRow [of "take 16 b"] unhex_columns [of 0 "take 16 b"] by (simp add: hexRow_def)
    moreover have "writeRowsFrom indent off b = ?line @ 10 # writeRowsFrom indent (off + 16) (drop 16 b)"
      using False by (simp add: writeRowsFrom.simps [of indent off b] dumpRow_def)
    moreover have "undump (writeRowsFrom indent (off + 16) (drop 16 b)) = drop 16 b"
    proof (cases "length b \<le> 16")
      case False
      then show ?thesis using less.hyps [of "drop 16 b" "off + 16"] less.prems by simp
    qed (simp add: writeRowsFrom.simps undump_def)
    ultimately show ?thesis using splitByte_append [OF nl] by (simp add: undump_def)
  qed (simp add: writeRowsFrom.simps undump_def)
qed

lemma unhex_hexSpaced: "unhex (hexSpaced bs) = bs"
proof (induction bs)
  case (Cons b bs)
  then show ?case using unhex_hex2 [of b "[]"] by (cases bs) (simp_all add: hexSpaced_def)
qed (simp add: hexSpaced_def)

text \<open>The text a frame's bytes should be shown as: a line with the facts of the header, the header in hex, and the payload in rows.\<close>

definition frameTitle :: "byte list \<Rightarrow> nat \<Rightarrow> byte list \<Rightarrow> byte list" where
  "frameTitle arrow n b =
     arrow @ str '' frame '' @ decDigits n @ str ''  ''
     @ (if b ! 4 = 1 then str ''REQUEST'' else if b ! 4 = 2 then str ''RESPONSE'' else if b ! 4 = 3 then str ''DATA''
        else if b ! 4 = 4 then str ''ERROR'' else str ''unknown(0x'' @ hex2 (b ! 4) @ str '')'')
     @ str ''  stream='' @ decDigits (unat (beUint32 (drop 8 b)))
     @ str ''  flags='' @ (if b ! 5 = 0 then str ''none'' else if b ! 5 = 1 then str ''END_STREAM''
        else if even (b ! 5) then str ''0x'' @ hex2 (b ! 5) else str ''END_STREAM|0x'' @ hex2 (b ! 5 - 1))
     @ str ''  length='' @ decDigits (length b - 12)"

definition showsFrame :: "byte list \<Rightarrow> nat \<Rightarrow> byte list \<Rightarrow> byte list \<Rightarrow> bool" where
  "showsFrame arrow n b printed \<longleftrightarrow> (\<exists>hdr rows. printed = frameTitle arrow n b @ newline @ str ''    header   '' @ hdr @ newline
     @ (if length b = 12 then [] else str ''    payload'' @ newline @ rows)
     \<and> unhex hdr = take 12 b \<and> undump rows = drop 12 b)"

lemma flag_low: "(f :: byte) AND 1 = 0 \<longleftrightarrow> even f"
  by (simp add: and_one_eq even_iff_mod_2_eq_zero)

lemma flag_rest: "(f :: byte) AND NOT 1 = (if even f then f else f - 1)"
proof -
  have "f AND NOT 1 = unset_bit 0 f" by (simp add: unset_bit_eq_and_not)
  also have "\<dots> = f - f mod 2" by (simp add: unset_bit_0 minus_mod_eq_mult_div)
  finally show ?thesis by (simp add: even_iff_mod_2_eq_zero odd_iff_mod_2_eq_one)
qed

lemma flagNames_spec: "flagNames f = (if f = 0 then str ''none'' else if f = 1 then str ''END_STREAM''
    else if even f then str ''0x'' @ hex2 f else str ''END_STREAM|0x'' @ hex2 (f - 1))"
  unfolding flagNames_def FlagEndStream_def flag_rest by (simp add: flag_low)

lemma typeName_spec: "typeName t = (if t = 1 then str ''REQUEST'' else if t = 2 then str ''RESPONSE'' else if t = 3 then str ''DATA''
    else if t = 4 then str ''ERROR'' else str ''unknown(0x'' @ hex2 t @ str '')'')"
  unfolding typeName_def type_defs by (rule refl)

lemma undump_writeRows: "length b \<le> 16 ^ 8 \<Longrightarrow> undump (writeRows (str ''      '') b) = b"
  using undump_rows [of "str ''      ''" 0 b] by (simp add: writeRows_def)

lemma frameText_shows:
  assumes "rawFrame b"
  shows "showsFrame arrow n b (frameText arrow n b)"
proof -
  have b: "12 \<le> length b" "length b \<le> 16396" using assms by (auto simp: rawFrame_def)
  have hdr: "take 12 b ! 4 = b ! 4" "take 12 b ! 5 = b ! 5" "beUint32 (drop 8 (take 12 b)) = beUint32 (drop 8 b)"
    using b(1) be_prefix [of "take 4 (drop 8 b)" "drop 4 (drop 8 b)", unfolded append_take_drop_id] by (simp_all add: drop_take)
  have "frameText arrow n b = frameTitle arrow n b @ newline @ str ''    header   '' @ hexSpaced (take 12 b) @ newline
     @ (if length b = 12 then [] else str ''    payload'' @ newline @ writeRows (str ''      '') (drop 12 b))"
    unfolding frameText_def frameTitle_def Let_def HeaderSize_def hdr typeName_spec flagNames_spec using b(1) by (simp del: str_Cons)
  then show ?thesis unfolding showsFrame_def using unhex_hexSpaced undump_writeRows [of "drop 12 b"] b(2) by fastforce
qed

lemma framesText_shows:
  assumes "list_all rawFrame frames"
  shows "\<exists>txts. framesText arrow n frames = concat txts \<and> length txts = length frames
    \<and> (\<forall>i < length frames. showsFrame arrow (n + i) (frames ! i) (txts ! i))"
  using assms
proof (induction frames arbitrary: n)
  case (Cons b bs)
  from Cons.IH [of "Suc n"] Cons.prems obtain txts where "framesText arrow (Suc n) bs = concat txts" "length txts = length bs"
    "\<forall>i < length bs. showsFrame arrow (Suc n + i) (bs ! i) (txts ! i)" unfolding list.pred_inject by blast
  then show ?case using frameText_shows [of b arrow n] Cons.prems
    by (intro exI [of _ "frameText arrow n b # txts"]) (auto simp: nth_Cons split: nat.splits)
qed simp

subsection \<open>A tapped client is a client\<close>

interpretation tap_sim: conn_sim "tapWrap tcp_net_conn" tcp_net_conn fst
  by unfold_locales
    (auto simp: tapWrap_def halfClose_def tapCloseWrite_def dest: tcpt.tapRead_fst tcpt.tapWrite_fst split: prod.splits option.splits)

interpretation tapcl: client_conn "tapWrap tcp_net_conn" "\<lambda>s. tcp_content (fst s)" "\<lambda>s. tcp_ending (fst s)" "\<lambda>s. tcp_weight (fst s)"
    "\<lambda>s. tcp_out (fst s)" "\<lambda>s. tcp_ctl (fst s)" "\<lambda>s. tcp_reliable (fst s)" outWrite of_data "\<lambda>b. of_room b = None"
  by unfold_locales

lemma tapped_get_returns:
  assumes "clientOk (clientMap fst c)"
  shows "\<exists>r c' b'. clientGet (tapWrap tcp_net_conn) outWrite path hs c b = Some (r, c', b')"
proof -
  consider "cl_broken c" | "\<not> cl_broken c" "cl_exhausted c" | (usable) "\<not> cl_broken c" "\<not> cl_exhausted c" by blast
  then show ?thesis
  proof cases
    case usable
    with assms have "tcpt.tapc.sock.bok (cl_br c)" "cl_next c \<noteq> 0" by (auto simp: clientOk_def tcpt.tapc.sock.bok_def cl_conn_def)
    from tapcl.clientGet_spec [OF this usable] show ?thesis by blast
  qed (auto simp: get_broken get_exhausted)
qed

subsection \<open>Properties\<close>

text \<open>
  C38. The tap shows every frame, whole and in order, however the bytes were cut. When the bytes of one
  direction are some frames of any types followed by an incomplete one, then after any sequence of
  reads or writes that carried them the tap has printed one text for each of these frames, and holds the rest. The
  text of a frame names the direction, its number, counted on from the tap's counter, its type, stream, flags
  and length, and its hex columns read back are the frame's header and payload, byte for byte. Flushing
  prints the rest as an incomplete frame with its length, the hex columns reading back as its first 256 bytes and a note of how
  many are not shown, and nothing if there is no rest.
\<close>
theorem tap_prints_frames:
  assumes "list_all rawFrame frames" and "partialFrame later" and "concat chunks = concat frames @ later"
    and "fm_buf f = []" and "\<not> fm_broken f"
  shows "\<exists>g u txts rows. feedAll chunks f t = (g, u) \<and> \<not> fm_broken g \<and> fm_buf g = later \<and> tp_seq u = tp_seq t + length frames
    \<and> tp_out u = tp_out t @ concat txts \<and> length txts = length frames
    \<and> (\<forall>i < length frames. showsFrame (fm_arrow f) (tp_seq t + 1 + i) (frames ! i) (txts ! i))
    \<and> flush g u = (f, if later = [] then u else u\<lparr>tp_out := tp_out u @ fm_arrow f
        @ str '' incomplete frame at end of connection ('' @ decDigits (length later) @ str '' bytes)'' @ newline @ rows
        @ (if length later \<le> 256 then [] else str ''      ... '' @ decDigits (length later - 256) @ str '' more bytes not shown'' @ newline)\<rparr>)
    \<and> undump rows = take 256 later"
proof -
  obtain txts where txts: "framesText (fm_arrow f) (Suc (tp_seq t)) frames = concat txts" "length txts = length frames"
    "\<forall>i < length frames. showsFrame (fm_arrow f) (Suc (tp_seq t) + i) (frames ! i) (txts ! i)"
    using framesText_shows [OF assms(1)] by blast
  let ?rows = "writeRows (str ''      '') (take 256 later)"
  let ?g = "f\<lparr>fm_buf := later\<rparr>" and ?u = "\<lparr>tp_seq = tp_seq t + length frames, tp_out = tp_out t @ concat txts\<rparr>"
  have run: "feedAll chunks f t = (?g, ?u)" using feedAll_frames [OF assms, of t] txts(1) by simp
  have rows: "undump ?rows = take 256 later" by (rule undump_writeRows) simp
  have fl: "flush ?g ?u = (f, if later = [] then ?u else ?u\<lparr>tp_out := tp_out ?u @ fm_arrow f
        @ str '' incomplete frame at end of connection ('' @ decDigits (length later) @ str '' bytes)'' @ newline @ ?rows
        @ (if length later \<le> 256 then [] else str ''      ... '' @ decDigits (length later - 256) @ str '' more bytes not shown'' @ newline)\<rparr>)"
    using assms(4) by (cases f) (simp add: flush_def printRaw_def emit_def rawPreview_def)
  show ?thesis
    by (intro exI [of _ ?g] exI [of _ ?u] exI [of _ txts] exI [of _ ?rows] conjI run rows fl txts(2))
      (use assms(5) txts(3) in simp_all)
qed

theorem tap_prints_frames_witness:
  "\<exists>g u printed. feedAll [take 5 (frameBytes demoData), drop 5 (frameBytes demoData) @ [0, 0]] (tap_sent (NewTap [])) (tap_io (NewTap [])) = (g, u)
    \<and> fm_buf g = [0, 0] \<and> tp_out u = printed \<and> showsFrame (str ''-->'') 1 (frameBytes demoData) printed"
proof -
  let ?f = "tap_sent (NewTap [])" and ?t = "tap_io (NewTap [])" and ?chunks = "[take 5 (frameBytes demoData), drop 5 (frameBytes demoData) @ [0, 0]]"
  have new: "fm_buf ?f = []" "\<not> fm_broken ?f" "fm_arrow ?f = str ''-->''" "tp_seq ?t = 0" "tp_out ?t = []" by (simp_all add: NewTap_def)
  have "list_all rawFrame [frameBytes demoData]" using frame_rawFrame [of demoData] demo_frames by simp
  from tap_prints_frames [OF this _ _ new(1,2), of "[0, 0]" ?chunks ?t, unfolded new(3-5)] obtain g u txts where
    run: "feedAll ?chunks ?f ?t = (g, u)" "fm_buf g = [0, 0]" "tp_out u = [] @ concat txts" "length txts = length [frameBytes demoData]"
    and shown: "\<forall>i < length [frameBytes demoData]. showsFrame (str ''-->'') (0 + 1 + i) ([frameBytes demoData] ! i) (txts ! i)"
    by (auto simp: partialFrame_def simp del: str_Cons)
  from run(4) obtain printed where "txts = [printed]" by (cases txts) auto
  with run shown show ?thesis by (intro exI) (auto simp del: str_Cons)
qed

text \<open>
  C39. A dump can be read back: the hex columns of the rows \<^verbatim>\<open>writeRows\<close> prints, read in order, are the
  bytes it was given, for everything the eight-digit offset column can number.
\<close>
theorem dump_roundtrip:
  assumes "length b \<le> 16 ^ 8"
  shows "undump (writeRows (str ''      '') b) = b"
  by (rule undump_writeRows [OF assms])

theorem dump_roundtrip_witness:
  "undump (writeRows (str ''      '') [1, 2, 255]) = [1, 2, 255]"
  by (rule dump_roundtrip) simp

text \<open>
  C13. Watching changes nothing. A client on a tapped connection returns from every call of \<^verbatim>\<open>Get\<close> with the
  same result or error, the same body written and, but for what the tap has printed, in the same
  state as a client on the bare connection: the same bytes sent, read and left to read, the same
  deadlines, closed or not.
\<close>
theorem tap_transparent:
  assumes "clientOk (clientMap fst c)"
  shows "\<exists>r c' b'. clientGet (tapWrap tcp_net_conn) outWrite path hs c b = Some (r, c', b')
    \<and> clientGet tcp_net_conn outWrite path hs (clientMap fst c) b = Some (r, clientMap fst c', b')"
proof -
  from tapped_get_returns [OF assms] obtain r c' b' where run: "clientGet (tapWrap tcp_net_conn) outWrite path hs c b = Some (r, c', b')"
    by blast
  with tap_sim.clientGet_sim [OF run] show ?thesis by blast
qed

theorem tap_transparent_witness:
  "\<exists>r c' b'. clientGet (tapWrap tcp_net_conn) outWrite (str ''/a'') [] (newClient (tcp_open [[0], [0, 1]] EOF None, NewTap [])) emptyFile = Some (r, c', b')
    \<and> clientGet tcp_net_conn outWrite (str ''/a'') [] (newClient (tcp_open [[0], [0, 1]] EOF None)) emptyFile = Some (r, clientMap fst c', b')"
proof -
  have "clientMap fst (newClient (tcp_open [[0], [0, 1]] EOF None, NewTap [])) = newClient (tcp_open [[0], [0, 1]] EOF None)"
    by (simp add: clientMap_def newClient_def bufMap_def bufioNew_def)
  with tap_transparent [of "newClient (tcp_open [[0], [0, 1]] EOF None, NewTap [])" "str ''/a''" "[]" emptyFile] show ?thesis
    by (simp del: str_Cons)
qed

end
