(* ===== verification/Chaos.thy ===== *)
theory Chaos
  imports Frame
begin

text \<open>
  \<^verbatim>\<open>internal/chaos\<close>: the proxy between a client and a server that delivers the server's frames in
  small pieces and puts frames of unknown types between them.

  Both connections are values of the dictionary \<open>net_conn\<close>. The pump keeps the connection to the
  client, its generator and the statistics. A generator of \<^verbatim>\<open>math/rand\<close> is the sequence of its draws,
  which may be any sequence; how a seed gives one is the parameter \<open>newRand\<close> of \<open>relay\<close>. Pauses
  (\<^verbatim>\<open>Delay\<close>) do not change what is sent and are left out.
\<close>

subsection \<open>Generators (\<open>math/rand\<close>)\<close>

record rng =
  rg_draw :: "nat \<Rightarrow> nat"
  rg_pos :: nat

text \<open>\<^verbatim>\<open>Intn(n)\<close> for positive \<open>n\<close>, and \<^verbatim>\<open>Read\<close> into a slice of \<open>n\<close> bytes.\<close>

definition Intn :: "nat \<Rightarrow> rng \<Rightarrow> nat \<times> rng" where
  "Intn n g = (rg_draw g (rg_pos g) mod n, g\<lparr>rg_pos := Suc (rg_pos g)\<rparr>)"

definition rngRead :: "nat \<Rightarrow> rng \<Rightarrow> byte list \<times> rng" where
  "rngRead n g = (map (\<lambda>i. word_of_nat (rg_draw g (rg_pos g + i))) [0..<n], g\<lparr>rg_pos := rg_pos g + n\<rparr>)"

lemma Intn_bound: "Intn n g = (k, g') \<Longrightarrow> 0 < n \<Longrightarrow> k < n"
  by (auto simp: Intn_def)

lemma length_rngRead: "rngRead n g = (bs, g') \<Longrightarrow> length bs = n"
  by (auto simp: rngRead_def)

subsection \<open>State\<close>

record chaos_opts =
  op_chunk :: int
  op_delay :: int
  op_noise :: bool
  op_seed :: i64
  op_logf :: bool

record stats =
  st_frames :: nat
  st_injected :: nat
  st_writes :: nat

record 'c pump =
  pm_out :: 'c
  pm_rng :: rng
  pm_st :: stats

datatype chaos_log = CannotReach io_err | Connected | Relayed nat nat nat

subsection \<open>Writing\<close>

text \<open>The state of \<^verbatim>\<open>writeChunked\<close> is the writer, the generator and the counter behind \<^verbatim>\<open>writes\<close>.\<close>

definition chunkSize :: "int \<Rightarrow> nat \<Rightarrow> rng \<Rightarrow> nat \<times> rng" where
  "chunkSize mx len g = (if mx > 0 then (case Intn (nat mx) g of (k, g') \<Rightarrow> (min len (1 + k), g')) else (len, g))"

lemma chunkSize_bounds: "chunkSize mx len g = (n, g') \<Longrightarrow> 0 < len \<Longrightarrow> 0 < n \<and> n \<le> len \<and> (0 < mx \<longrightarrow> n \<le> nat mx) \<and> (mx \<le> 0 \<longrightarrow> n = len)"
  using Intn_bound [of "nat mx" g] by (force simp: chunkSize_def split: if_splits prod.splits)

function writeChunked :: "'w writer \<Rightarrow> byte list \<Rightarrow> int \<Rightarrow> 'w \<times> rng \<times> nat \<Rightarrow> io_err option \<times> 'w \<times> rng \<times> nat" where
  "writeChunked wr b mx s =
     (case s of (w, g, writes) \<Rightarrow>
       if b = [] then (None, w, g, writes)
       else (case chunkSize mx (length b) g of (n, g1) \<Rightarrow>
         (case wr (take n b) w of ((_, e), w1) \<Rightarrow>
           (case e of
              Some x \<Rightarrow> (Some x, w1, g1, writes)
            | None \<Rightarrow> writeChunked wr (drop n b) mx (w1, g1, writes + 1)))))"
  by pat_completeness auto
termination
  by (relation "measure (\<lambda>(wr, b, mx, s). length b)") (auto dest!: chunkSize_bounds [OF sym])

declare writeChunked.simps [simp del]

definition pumpSend :: "'c net_conn \<Rightarrow> chaos_opts \<Rightarrow> byte list \<Rightarrow> 'c pump \<Rightarrow> io_err option \<times> 'c pump" where
  "pumpSend nc opt b p =
     (case writeChunked (nc_write nc) b (op_chunk opt) (pm_out p, pm_rng p, st_writes (pm_st p)) of (e, w, g, n) \<Rightarrow>
       (e, p\<lparr>pm_out := w, pm_rng := g, pm_st := (pm_st p)\<lparr>st_writes := n\<rparr>\<rparr>))"

definition unknownTypes :: "byte list" where
  "unknownTypes = [0x05, 0x06, 0x0A, 0x7E, 0x80, 0xFE, 0xFF]"

text \<open>The frame \<^verbatim>\<open>inject\<close> makes up, as header and payload, with the draws in the order of the code.\<close>

definition noiseFrame :: "rng \<Rightarrow> (byte list \<times> byte list) \<times> rng" where
  "noiseFrame g0 =
     (case Intn 65 g0 of (len, g1) \<Rightarrow>
      (case rngRead len g1 of (payload, g2) \<Rightarrow>
       (case Intn (length unknownTypes) g2 of (t, g3) \<Rightarrow>
        (case Intn 256 g3 of (flags, g4) \<Rightarrow>
         (case Intn 65536 g4 of (reserved, g5) \<Rightarrow>
          (case Intn 3 g5 of (stream, g6) \<Rightarrow>
            ((putUint32 (word_of_nat (length payload)) @ [unknownTypes ! t, word_of_nat flags]
                @ putUint16 (word_of_nat reserved) @ putUint32 (word_of_nat stream), payload), g6)))))))"

definition inject :: "'c net_conn \<Rightarrow> chaos_opts \<Rightarrow> 'c pump \<Rightarrow> io_err option \<times> 'c pump" where
  "inject nc opt p =
     (case noiseFrame (pm_rng p) of ((hdr, payload), g) \<Rightarrow>
       pumpSend nc opt (hdr @ payload)
         (p\<lparr>pm_rng := g, pm_st := (pm_st p)\<lparr>st_injected := st_injected (pm_st p) + 1\<rparr>\<rparr>))"

subsection \<open>The pump\<close>

partial_function (option) copyRaw ::
  "'r reader \<Rightarrow> 'c net_conn \<Rightarrow> chaos_opts \<Rightarrow> 'r \<Rightarrow> 'c pump \<Rightarrow> ('r \<times> 'c pump) option" where
  "copyRaw rd nc opt r p =
     (case rd 4096 r of ((bs, e), r1) \<Rightarrow>
       (case (if length bs > 0 then pumpSend nc opt bs p else (None, p)) of (we, p1) \<Rightarrow>
         if we \<noteq> None then Some (r1, p1)
         else if e \<noteq> None then Some (r1, p1)
         else copyRaw rd nc opt r1 p1))"

text \<open>
  \<^verbatim>\<open>run\<close>. A body that ends early is forwarded with the whole buffer, as \<^verbatim>\<open>append(hdr, body...)\<close> does:
  the bytes that did not arrive are the zeros \<^verbatim>\<open>make\<close> put there.
\<close>

partial_function (option) pumpRun ::
  "'r reader \<Rightarrow> 'c net_conn \<Rightarrow> chaos_opts \<Rightarrow> 'r \<Rightarrow> 'c pump \<Rightarrow> ('r \<times> 'c pump) option" where
  "pumpRun rd nc opt r p =
     (case readFull rd HeaderSize r of
        None \<Rightarrow> None
      | Some ((hdr, e1), r1) \<Rightarrow>
        if e1 \<noteq> None then Some (r1, p)
        else if unat (beUint32 hdr) > MaxPayload then
          (case pumpSend nc opt hdr p of (we, p1) \<Rightarrow> if we = None then copyRaw rd nc opt r1 p1 else Some (r1, p1))
        else
          (case readFull rd (unat (beUint32 hdr)) r1 of
             None \<Rightarrow> None
           | Some ((bs, e2), r2) \<Rightarrow>
             let body = bs @ replicate (unat (beUint32 hdr) - length bs) 0 in
             if e2 \<noteq> None then Some (r2, snd (pumpSend nc opt (hdr @ body) p))
             else
               (case (if op_noise opt then inject nc opt p else (None, p)) of (we1, p1) \<Rightarrow>
                 if we1 \<noteq> None then Some (r2, p1)
                 else
                   (case pumpSend nc opt (hdr @ body) (p1\<lparr>pm_st := (pm_st p1)\<lparr>st_frames := st_frames (pm_st p1) + 1\<rparr>\<rparr>) of (we2, p2) \<Rightarrow>
                     if we2 \<noteq> None then Some (r2, p2)
                     else
                       (case (if op_noise opt \<and> hdr ! 5 AND FlagEndStream \<noteq> 0 then inject nc opt p2 else (None, p2)) of (we3, p3) \<Rightarrow>
                         if we3 \<noteq> None then Some (r2, p3) else pumpRun rd nc opt r2 p3)))))"

subsection \<open>A relayed connection\<close>

text \<open>\<^verbatim>\<open>io.Copy\<close> between two connections: read up to 32 KiB, write what came, stop at the first error.\<close>

partial_function (option) copyConn :: "'c net_conn \<Rightarrow> 'c \<Rightarrow> 'c \<Rightarrow> ('c \<times> 'c) option" where
  "copyConn nc src dst =
     (case nc_read nc 32768 src of ((bs, e), src1) \<Rightarrow>
       if bs = [] then (if e \<noteq> None then Some (src1, dst) else copyConn nc src1 dst)
       else (case nc_write nc bs dst of ((n, we), dst1) \<Rightarrow>
         if we \<noteq> None \<or> n \<noteq> int (length bs) then Some (src1, dst1)
         else if e \<noteq> None then Some (src1, dst1)
         else copyConn nc src1 dst1))"

definition chaosLogf :: "chaos_opts \<Rightarrow> chaos_log \<Rightarrow> chaos_log list" where
  "chaosLogf opt l = (if op_logf opt then [l] else [])"

text \<open>The two goroutines of \<^verbatim>\<open>relay\<close>, on the pair of the connection to the client and the one to the server.\<close>

definition relayRequests :: "'c net_conn \<Rightarrow> 'c \<times> 'c \<Rightarrow> ('c \<times> 'c) option" where
  "relayRequests nc cs =
     (case copyConn nc (fst cs) (snd cs) of
        None \<Rightarrow> None
      | Some (client, server) \<Rightarrow> Some (client, halfClose nc server))"

definition relayAnswers :: "'c net_conn \<Rightarrow> chaos_opts \<Rightarrow> rng \<Rightarrow> 'c \<times> 'c \<Rightarrow> (chaos_log list \<times> 'c \<times> 'c) option" where
  "relayAnswers nc opt g cs =
     (case pumpRun (nc_read nc) nc opt (snd cs)
         \<lparr>pm_out = fst cs, pm_rng = g, pm_st = \<lparr>st_frames = 0, st_injected = 0, st_writes = 0\<rparr>\<rparr> of
        None \<Rightarrow> None
      | Some (server, p) \<Rightarrow>
          Some (chaosLogf opt (Relayed (st_frames (pm_st p)) (st_injected (pm_st p)) (st_writes (pm_st p))),
                halfClose nc (pm_out p), server))"

text \<open>
  \<^verbatim>\<open>relay\<close>, given what dialling the target returned. The goroutines use opposite halves of the two
  connections, one reading what the other never reads and writing what the other never writes;
  \<open>first\<close> says which of them is scheduled first. The deferred calls close the server's connection and then the client's.
\<close>

definition relay ::
  "'c net_conn \<Rightarrow> (i64 \<Rightarrow> rng) \<Rightarrow> bool \<Rightarrow> chaos_opts \<Rightarrow> i64 \<Rightarrow> io_err + 'c \<Rightarrow> 'c \<Rightarrow> (chaos_log list \<times> 'c \<times> 'c option) option" where
  "relay nc newRand first opt seed dialled client =
     (case dialled of
        Inl e \<Rightarrow> Some (chaosLogf opt (CannotReach e), nc_close nc client, None)
      | Inr server \<Rightarrow>
        (case (if first
               then (case relayRequests nc (client, server) of None \<Rightarrow> None | Some cs \<Rightarrow> relayAnswers nc opt (newRand seed) cs)
               else (case relayAnswers nc opt (newRand seed) (client, server) of None \<Rightarrow> None
                     | Some (l, cs) \<Rightarrow> (case relayRequests nc cs of None \<Rightarrow> None | Some cs1 \<Rightarrow> Some (l, cs1)))) of
           None \<Rightarrow> None
         | Some (l, c, s) \<Rightarrow> Some (chaosLogf opt Connected @ l, nc_close nc c, Some (nc_close nc s))))"

subsection \<open>Accepting\<close>

text \<open>
  An error of \<^verbatim>\<open>Accept\<close>: a \<^verbatim>\<open>net.OpError\<close> with the text of the error inside it, if there is one, or any other error.
\<close>

datatype accept_err = OpError "byte list option" | OtherError nat

definition isClosedErr :: "accept_err \<Rightarrow> bool" where
  "isClosedErr e = (case e of OpError (Some msg) \<Rightarrow> msg = str ''use of closed network connection'' | _ \<Rightarrow> False)"

text \<open>
  \<^verbatim>\<open>Serve\<close> on the results of \<^verbatim>\<open>Accept\<close>, in order: the relays it starts, with their seeds, and what it
  returns, or \<open>None\<close> while it is waiting for the next connection. The counter is an \<^verbatim>\<open>int64\<close>, so seeds wrap.
\<close>

fun chaosServe :: "chaos_opts \<Rightarrow> i64 \<Rightarrow> (accept_err + 'c) list \<Rightarrow> ('c \<times> i64) list \<times> accept_err option option" where
  "chaosServe opt n [] = ([], None)"
| "chaosServe opt n (Inl e # rs) = ([], Some (if isClosedErr e then None else Some e))"
| "chaosServe opt n (Inr client # rs) =
     (case chaosServe opt (n + 1) rs of (started, res) \<Rightarrow> ((client, op_seed opt + (n + 1)) # started, res))"

end
