(* ===== verification/Chaos_Props.thy ===== *)
theory Chaos_Props
  imports Chaos Client_Props
begin

text \<open>
  What a client behind the chaos proxy receives. \<open>disturbed\<close> describes the bytes the pump may make of
  a run of frames and \<open>tailOut\<close> what it makes of the bytes after the last whole frame; the lemmas in
  \<open>net_conn\<close> show that the pump writes nothing else, over any pair of connections that keep the contract.
\<close>

subsection \<open>Noise\<close>

definition noise :: "bool \<Rightarrow> byte list \<Rightarrow> bool" where
  "noise on b \<longleftrightarrow> (\<exists>ns. (\<forall>(h, q) \<in> set ns. unknownFrame h q) \<and> b = concat (map (\<lambda>(h, q). h @ q) ns) \<and> (\<not> on \<longrightarrow> ns = []))"

lemma noise_Nil [simp, intro]: "noise on []"
  unfolding noise_def by (intro exI [of _ "[]"]) simp

lemma noise_off [simp]: "noise False b \<longleftrightarrow> b = []"
  by (auto simp: noise_def)

lemma noise_frame: "unknownFrame h q \<Longrightarrow> noise True (h @ q)"
  unfolding noise_def by (intro exI [of _ "[(h, q)]"]) auto

lemma noise_append: "noise on a \<Longrightarrow> noise on b \<Longrightarrow> noise on (a @ b)"
  unfolding noise_def by (elim exE conjE, rule_tac x = "ns @ nsa" in exI) auto

lemma parse_noise: "noise on b \<Longrightarrow> parseFrame e (b @ later) = parseFrame e later"
  unfolding noise_def by (elim exE conjE) (simp add: parse_skip_all)

lemma unknownTypes_unknown: "t < length unknownTypes \<Longrightarrow> \<not> known (unknownTypes ! t)"
  by (auto simp: unknownTypes_def known_def type_defs less_Suc_eq)

lemma noiseFrame_unknown: "noiseFrame g = ((h, q), g') \<Longrightarrow> unknownFrame h q"
proof -
  assume n: "noiseFrame g = ((h, q), g')"
  obtain len g1 where 1: "Intn 65 g = (len, g1)" by (metis surj_pair)
  obtain q' g2 where 2: "rngRead len g1 = (q', g2)" by (metis surj_pair)
  obtain t g3 where 3: "Intn (length unknownTypes) g2 = (t, g3)" by (metis surj_pair)
  obtain flags g4 where 4: "Intn 256 g3 = (flags, g4)" by (metis surj_pair)
  obtain reserved g5 where 5: "Intn 65536 g4 = (reserved, g5)" by (metis surj_pair)
  obtain stream g6 where 6: "Intn 3 g5 = (stream, g6)" by (metis surj_pair)
  from n have "q = q'" and h: "h = putUint32 (word_of_nat (length q)) @ [unknownTypes ! t, word_of_nat flags]
      @ putUint16 (word_of_nat reserved) @ putUint32 (word_of_nat stream)"
    by (auto simp: noiseFrame_def 1 2 3 4 5 6)
  moreover have "length q' < 65" using length_rngRead [OF 2] Intn_bound [OF 1] by simp
  moreover have "t < length unknownTypes" using Intn_bound [OF 3] by (simp add: unknownTypes_def)
  ultimately show ?thesis using unknownTypes_unknown [of t] by (simp add: unknownFrame_def nth_append)
qed

subsection \<open>Byte streams as frames\<close>

definition oversizeHead :: "byte list \<Rightarrow> bool" where
  "oversizeHead b \<longleftrightarrow> HeaderSize \<le> length b \<and> MaxPayload < unat (beUint32 b)"

lemma split_frames: "\<exists>frames later. bs = concat frames @ later \<and> list_all rawFrame frames \<and> (partialFrame later \<or> oversizeHead later)"
proof (induction "length bs" arbitrary: bs rule: less_induct)
  case less
  show ?case
  proof (cases "partialFrame bs \<or> oversizeHead bs")
    case True
    then show ?thesis by (intro exI [of _ "[]"] exI [of _ bs]) simp
  next
    case False
    let ?n = "12 + unat (beUint32 bs)"
    from False have n: "12 \<le> length bs" "unat (beUint32 bs) \<le> 16384" "?n \<le> length bs"
      by (auto simp: partialFrame_def oversizeHead_def)
    have "beUint32 (take ?n bs) = beUint32 bs" using be_prefix [of "take ?n bs" "drop ?n bs"] n by simp
    then have "rawFrame (take ?n bs)" using n by (simp add: rawFrame_def)
    moreover have "length (drop ?n bs) < length bs" using n by simp
    from less [OF this] obtain frames later where d: "drop ?n bs = concat frames @ later" "list_all rawFrame frames"
      "partialFrame later \<or> oversizeHead later" by blast
    moreover have "bs = concat (take ?n bs # frames) @ later" using d(1) by (metis append_assoc append_take_drop_id concat.simps(2))
    ultimately show ?thesis by (intro exI [of _ "take ?n bs # frames"] exI [of _ later]) simp
  qed
qed

text \<open>What repeated calls of \<^verbatim>\<open>frame.Read\<close> return: the frames, then the error that ends them.\<close>

function readAll :: "io_err \<Rightarrow> byte list \<Rightarrow> frame list \<times> frame_err" where
  "readAll e bs =
     (case parseFrame e bs of
        (Inl x, _) \<Rightarrow> ([], x)
      | (Inr f, later) \<Rightarrow> (case readAll e later of (fs, x) \<Rightarrow> (f # fs, x)))"
  by pat_completeness auto
termination
  by (relation "measure (\<lambda>(e, bs). length bs)") (auto dest!: parse_Inr_shorter [OF sym])

declare readAll.simps [simp del]

lemma readAll_noise: "noise on b \<Longrightarrow> readAll e (b @ later) = readAll e later"
  by (simp add: readAll.simps [of e "b @ later"] readAll.simps [of e later] parse_noise)

lemma readAll_cong: 
  assumes "rawFrame f" "readAll e a = readAll e b"
  shows "readAll e (f @ a) = readAll e (f @ b)"
proof -
  let ?n = "unat (beUint32 f)"
  from assms(1) have f: "length f = 12 + ?n" "?n \<le> 16384" by (auto simp: rawFrame_def)
  then have be: "beUint32 (take 12 f) = beUint32 f" using be_prefix [of "take 12 f" "drop 12 f"] by simp
  have "parseFrame e (f @ x) = (if \<not> known (take 12 f ! 4) then parseFrame e x
      else if needsStream (take 12 f ! 4) \<and> beUint32 (drop 8 (take 12 f)) = 0 then (Inl ErrStreamZero, x)
      else (Inr (mkFrame (take 12 f) (drop 12 f)), x))" for x
    using f be by (subst parseFrame.simps) (simp add: Let_def)
  with assms(2) show ?thesis
    by (simp add: readAll.simps [of e "f @ a"] readAll.simps [of e "f @ b"] readAll.simps [of e a] readAll.simps [of e b])
qed

subsection \<open>What the pump makes of a stream\<close>

inductive disturbed :: "bool \<Rightarrow> byte list list \<Rightarrow> byte list \<Rightarrow> bool" for on where
  disturbed_Nil: "disturbed on [] []"
| disturbed_Cons: "noise on pre \<Longrightarrow> noise on post \<Longrightarrow> disturbed on fs out \<Longrightarrow> disturbed on (f # fs) (pre @ f @ post @ out)"

lemma disturbed_off: "disturbed False fs out \<Longrightarrow> out = concat fs"
  by (induction rule: disturbed.induct) auto

lemma disturbed_readAll:
  "disturbed on fs out \<Longrightarrow> list_all rawFrame fs \<Longrightarrow> readAll e (out @ later) = readAll e (concat fs @ later)"
  by (induction rule: disturbed.induct) (auto simp: readAll_noise intro: readAll_cong)

definition tailOut :: "byte list \<Rightarrow> byte list" where
  "tailOut b = (if length b < HeaderSize then [] else if MaxPayload < unat (beUint32 b) then b
     else b @ replicate (HeaderSize + unat (beUint32 b) - length b) 0)"

context net_conn
begin

text \<open>What sending \<open>b\<close> does to a connection that takes it.\<close>

definition sent :: "byte list \<Rightarrow> 'c \<Rightarrow> 'c \<Rightarrow> bool" where
  "sent b w w' \<longleftrightarrow> out w' = out w @ b \<and> content w' = content w \<and> ending w' = ending w \<and> ctl w' = ctl w \<and> reliable w'"

lemma sent_trans: "sent a w w1 \<Longrightarrow> sent b w1 w2 \<Longrightarrow> sent (a @ b) w w2"
  by (simp add: sent_def)

lemma sent_refl: "reliable w \<Longrightarrow> sent [] w w"
  by (simp add: sent_def)

lemma sent_reliable: "sent b w w' \<Longrightarrow> reliable w'"
  by (simp add: sent_def)

lemma write_sent: "reliable w \<Longrightarrow> nc_write nc b w = ((k, e), w') \<Longrightarrow> e = None \<and> k = int (length b) \<and> sent b w w'"
  using write_reliable [of w b k e w'] write_frame [of b w k e w'] wside.write_out [of b w k e w'] by (simp add: sent_def)

lemma writeChunked_sent:
  assumes "reliable w"
  shows "\<exists>w' g' n'. writeChunked (nc_write nc) b mx (w, g, n) = (None, w', g', n') \<and> sent b w w'"
  using assms
proof (induction "length b" arbitrary: b w g n rule: less_induct)
  case less
  show ?case
  proof (cases "b = []")
    case False
    obtain k g1 where k: "chunkSize mx (length b) g = (k, g1)" by fastforce
    obtain c e w1 where w: "nc_write nc (take k b) w = ((c, e), w1)" by (metis surj_pair)
    note s = write_sent [OF less.prems w]
    have "length (drop k b) < length b" using chunkSize_bounds [OF k] False by auto
    from less.hyps [OF this, of w1 g1 "n + 1"] s obtain w' g' n' where
      "writeChunked (nc_write nc) (drop k b) mx (w1, g1, n + 1) = (None, w', g', n')" "sent (drop k b) w1 w'"
      using sent_reliable by blast
    then show ?thesis using False k w s sent_trans [of "take k b" w w1 "drop k b" w']
      by (simp add: writeChunked.simps [of _ b])
  qed (use less.prems in \<open>simp add: writeChunked.simps sent_refl\<close>)
qed

lemma pumpSend_sent:
  assumes "reliable (pm_out p)"
  obtains p' where "pumpSend nc opt b p = (None, p')" "sent b (pm_out p) (pm_out p')"
  using writeChunked_sent [OF assms, of b "op_chunk opt" "pm_rng p" "st_writes (pm_st p)"] by (auto simp: pumpSend_def)

lemma inject_sent:
  assumes "reliable (pm_out p)"
  obtains p' b where "inject nc opt p = (None, p')" "sent b (pm_out p) (pm_out p')" "noise True b"
proof -
  obtain h q g where n: "noiseFrame (pm_rng p) = ((h, q), g)" by (metis surj_pair)
  let ?p = "p\<lparr>pm_rng := g, pm_st := (pm_st p)\<lparr>st_injected := st_injected (pm_st p) + 1\<rparr>\<rparr>"
  obtain p' where "pumpSend nc opt (h @ q) ?p = (None, p')" "sent (h @ q) (pm_out ?p) (pm_out p')"
    using pumpSend_sent [of ?p] assms by auto
  then show ?thesis using that n noise_frame [OF noiseFrame_unknown [OF n]] by (simp add: inject_def)
qed

lemma maybe_inject_sent:
  assumes "reliable (pm_out p)" "on \<longrightarrow> op_noise opt"
  obtains p' b where "(if on then inject nc opt p else (None, p)) = (None, p')" "sent b (pm_out p) (pm_out p')" "noise (op_noise opt) b"
proof (cases on)
  case True
  obtain p' b where "inject nc opt p = (None, p')" "sent b (pm_out p) (pm_out p')" "noise True b"
    by (rule inject_sent [OF assms(1)])
  with that [of p' b] True assms(2) show ?thesis by simp
next
  case False
  with that [of p "[]"] sent_refl [OF assms(1)] show ?thesis by simp
qed

lemma copyRaw_sent:
  assumes "reliable (pm_out p)"
  shows "\<exists>r' p'. copyRaw (nc_read nc) nc opt r p = Some (r', p') \<and> sent (content r) (pm_out p) (pm_out p')
    \<and> content r' = [] \<and> out r' = out r \<and> ctl r' = ctl r \<and> reliable r' = reliable r"
  using assms
proof (induction "weight r" arbitrary: r p rule: less_induct)
  case less
  obtain bs e r1 where rd: "nc_read nc 4096 r = ((bs, e), r1)" by (metis surj_pair)
  note rl = sock.read_content [OF TrueI rd] sock.read_rest [OF TrueI rd]
  obtain p1 where w: "(if length bs > 0 then pumpSend nc opt bs p else (None, p)) = (None, p1)" "sent bs (pm_out p) (pm_out p1)"
    by (cases "bs = []") (auto intro: pumpSend_sent [OF less.prems, of opt bs] sent_refl [OF less.prems])
  note unfold = copyRaw.simps [of "nc_read nc" nc opt r p]
  show ?case
  proof (cases e)
    case None
    then have "weight r1 < weight r" using sock.read_progress [OF TrueI _ rd] by simp
    from less.hyps [OF this sent_reliable [OF w(2)]] obtain r' p' where
      "copyRaw (nc_read nc) nc opt r1 p1 = Some (r', p')" "sent (content r1) (pm_out p1) (pm_out p')"
      "content r' = []" "out r' = out r1 \<and> ctl r' = ctl r1 \<and> reliable r' = reliable r1" by blast
    then show ?thesis using rd w None rl sent_trans [OF w(2)] by (simp add: unfold)
  next
    case (Some x)
    then have "content r1 = []" using sock.read_error [OF TrueI] rd by blast
    then show ?thesis using rd w Some rl by (simp add: unfold)
  qed
qed

lemma pumpRun_frame:
  assumes "reliable (pm_out p)" "content r = f @ later" "rawFrame f"
  obtains r' p' pre post where "pumpRun (nc_read nc) nc opt r p = pumpRun (nc_read nc) nc opt r' p'"
    "sock.after (length f) r r'" "sent (pre @ f @ post) (pm_out p) (pm_out p')" "noise (op_noise opt) pre" "noise (op_noise opt) post"
proof -
  let ?h = "take 12 f" and ?n = "unat (beUint32 f)"
  have f: "length f = 12 + ?n" "?n \<le> 16384" using assms(3) by (auto simp: rawFrame_def)
  have be: "beUint32 ?h = beUint32 f" using be_prefix [of ?h "drop 12 f"] f by simp
  obtain r1 where 1: "readFull (nc_read nc) 12 r = Some ((?h, None), r1)" "sock.after 12 r r1"
    using sock.readFull_ok [OF TrueI, of 12 r] assms(2) f by auto
  then have c1: "content r1 = drop 12 f @ later" using assms(2) f by (simp add: sock.after_def)
  obtain r2 where 2: "readFull (nc_read nc) ?n r1 = Some ((drop 12 f, None), r2)" "sock.after ?n r1 r2"
    using sock.readFull_ok [OF TrueI, of ?n r1] c1 f by auto
  obtain p1 pre where 3: "(if op_noise opt then inject nc opt p else (None, p)) = (None, p1)"
    "sent pre (pm_out p) (pm_out p1)" "noise (op_noise opt) pre"
    using maybe_inject_sent [OF assms(1), of "op_noise opt" opt] by auto
  let ?p1 = "p1\<lparr>pm_st := (pm_st p1)\<lparr>st_frames := st_frames (pm_st p1) + 1\<rparr>\<rparr>"
  obtain p2 where 4: "pumpSend nc opt f ?p1 = (None, p2)" "sent f (pm_out p1) (pm_out p2)"
    using pumpSend_sent [of ?p1 opt f] sent_reliable [OF 3(2)] by auto
  obtain p3 post where 5: "(if op_noise opt \<and> ?h ! 5 AND FlagEndStream \<noteq> 0 then inject nc opt p2 else (None, p2)) = (None, p3)"
    "sent post (pm_out p2) (pm_out p3)" "noise (op_noise opt) post"
    using maybe_inject_sent [OF sent_reliable [OF 4(2)], of "op_noise opt \<and> ?h ! 5 AND FlagEndStream \<noteq> 0" opt] by auto
  have "pumpRun (nc_read nc) nc opt r p = pumpRun (nc_read nc) nc opt r2 p3"
    unfolding pumpRun.simps [of "nc_read nc" nc opt r p] using 1(1) 2(1) 3(1) 4(1) 5(1) f be by (simp add: Let_def)
  moreover have "sock.after (length f) r r2" using sock.after_trans [OF 1(2) 2(2)] f by simp
  moreover have "sent (pre @ f @ post) (pm_out p) (pm_out p3)" using sent_trans [OF 3(2) sent_trans [OF 4(2) 5(2)]] .
  ultimately show ?thesis using that 3(3) 5(3) by blast
qed

lemma pumpRun_tail:
  assumes "reliable (pm_out p)" "partialFrame (content r) \<or> oversizeHead (content r)"
  shows "\<exists>r' p'. pumpRun (nc_read nc) nc opt r p = Some (r', p') \<and> sent (tailOut (content r)) (pm_out p) (pm_out p')
    \<and> content r' = [] \<and> out r' = out r \<and> ctl r' = ctl r \<and> reliable r' = reliable r"
proof -
  let ?b = "content r"
  let ?h = "take 12 ?b" and ?n = "unat (beUint32 ?b)"
  note unfold = pumpRun.simps [of "nc_read nc" nc opt r p]
  show ?thesis
  proof (cases "length ?b < 12")
    case True
    with sock.readFull_short [OF TrueI, of r 12] obtain x r1 where "readFull (nc_read nc) 12 r = Some ((?b, Some x), r1)" "sock.after 12 r r1"
      by blast
    then show ?thesis using True assms(1) by (simp add: unfold tailOut_def sent_refl sock.after_def)
  next
    case False
    have be: "beUint32 ?h = beUint32 ?b" using be_prefix [of ?h "drop 12 ?b"] False by simp
    obtain r1 where 1: "readFull (nc_read nc) 12 r = Some ((?h, None), r1)" "sock.after 12 r r1"
      using sock.readFull_ok [OF TrueI, of 12 r] False by auto
    then have c1: "content r1 = drop 12 ?b" "out r1 = out r" "ctl r1 = ctl r" "reliable r1 = reliable r" by (auto simp: sock.after_def)
    show ?thesis
    proof (cases "?n \<le> 16384")
      case True
      with assms(2) False have short: "length ?b < 12 + ?n" by (auto simp: partialFrame_def oversizeHead_def)
      have "length (content r1) < ?n" using short c1(1) False by simp
      from sock.readFull_short [OF TrueI this] obtain x r2 where 2: "readFull (nc_read nc) ?n r1 = Some ((content r1, Some x), r2)"
        "sock.after ?n r1 r2" by blast
      obtain p' where p': "pumpSend nc opt (tailOut ?b) p = (None, p')" "sent (tailOut ?b) (pm_out p) (pm_out p')"
        by (rule pumpSend_sent [OF assms(1)])
      have "?h @ drop 12 ?b @ replicate (?n - length (drop 12 ?b)) 0 = tailOut ?b" using False True short
        by (simp add: tailOut_def add.commute flip: append_assoc)
      with 1 2 True p' c1 False be short show ?thesis by (simp add: unfold Let_def sock.after_def)
    next
      case big: False
      obtain p1 where w: "pumpSend nc opt ?h p = (None, p1)" "sent ?h (pm_out p) (pm_out p1)"
        by (rule pumpSend_sent [OF assms(1)])
      from copyRaw_sent [OF sent_reliable [OF w(2)], of opt r1] obtain r' p' where
        "copyRaw (nc_read nc) nc opt r1 p1 = Some (r', p')" "sent (drop 12 ?b) (pm_out p1) (pm_out p')"
        "content r' = []" "out r' = out r" "ctl r' = ctl r" "reliable r' = reliable r" using c1 by auto
      with 1 w big be False sent_trans [OF w(2)] show ?thesis by (force simp: unfold tailOut_def)
    qed
  qed
qed

lemma pumpRun_spec:
  assumes "reliable (pm_out p)" "content r = concat frames @ later" "list_all rawFrame frames" "partialFrame later \<or> oversizeHead later"
  shows "\<exists>r' p' b. pumpRun (nc_read nc) nc opt r p = Some (r', p') \<and> disturbed (op_noise opt) frames b
    \<and> sent (b @ tailOut later) (pm_out p) (pm_out p') \<and> content r' = [] \<and> out r' = out r \<and> ctl r' = ctl r \<and> reliable r' = reliable r"
  using assms(1-3)
proof (induction frames arbitrary: r p)
  case Nil
  with pumpRun_tail [of p r opt] assms(4) show ?case using disturbed_Nil by fastforce
next
  case (Cons f fs)
  then have f: "content r = f @ concat fs @ later" "rawFrame f" by simp_all
  obtain r1 p1 pre post where 1: "pumpRun (nc_read nc) nc opt r p = pumpRun (nc_read nc) nc opt r1 p1"
    "sock.after (length f) r r1" "sent (pre @ f @ post) (pm_out p) (pm_out p1)" "noise (op_noise opt) pre" "noise (op_noise opt) post"
    by (rule pumpRun_frame [OF Cons.prems(1) f])
  then have "content r1 = concat fs @ later" "out r1 = out r" "ctl r1 = ctl r" "reliable r1 = reliable r"
    using Cons.prems(2) by (auto simp: sock.after_def)
  moreover from this Cons.IH [OF sent_reliable [OF 1(3)], of r1] Cons.prems(3) obtain r' p' b where
    "pumpRun (nc_read nc) nc opt r1 p1 = Some (r', p')" "disturbed (op_noise opt) fs b"
    "sent (b @ tailOut later) (pm_out p1) (pm_out p')" "content r' = []" "out r' = out r1" "ctl r' = ctl r1" "reliable r' = reliable r1" by auto
  ultimately show ?case
    using 1(1) disturbed_Cons [OF 1(4,5), of fs b f] sent_trans [OF 1(3)] by (intro exI [of _ r'] exI [of _ p'] exI conjI) auto
qed

lemma copyConn_spec:
  assumes "reliable dst"
  shows "\<exists>src' dst'. copyConn nc src dst = Some (src', dst') \<and> sent (content src) dst dst'
    \<and> content src' = [] \<and> out src' = out src \<and> ctl src' = ctl src \<and> reliable src' = reliable src"
  using assms
proof (induction "weight src" arbitrary: src dst rule: less_induct)
  case less
  obtain bs e src1 where rd: "nc_read nc 32768 src = ((bs, e), src1)" by (metis surj_pair)
  obtain n we dst1 where w: "nc_write nc bs dst = ((n, we), dst1)" by (metis surj_pair)
  note rl = sock.read_content [OF TrueI rd] sock.read_rest [OF TrueI rd] and ws = write_sent [OF less.prems w]
  note unfold = copyConn.simps [of nc src dst]
  show ?case
  proof (cases e)
    case None
    define d where "d = (if bs = [] then dst else dst1)"
    have d: "sent bs dst d" using ws sent_refl [OF less.prems] by (simp add: d_def)
    from None have "weight src1 < weight src" using sock.read_progress [OF TrueI _ rd] by simp
    from less.hyps [OF this sent_reliable [OF d]] obtain src' dst' where
      "copyConn nc src1 d = Some (src', dst')" "sent (content src1) d dst'"
      "content src' = []" "out src' = out src1" "ctl src' = ctl src1" "reliable src' = reliable src1" by blast
    then show ?thesis using rd w None rl ws sent_trans [OF d] by (auto simp: unfold d_def)
  next
    case (Some x)
    then have "content src1 = []" using sock.read_error [OF TrueI] rd by blast
    then show ?thesis using rd w Some rl ws sent_refl [OF less.prems] by (auto simp: unfold)
  qed
qed

lemma halfClose_laws:
  "content (halfClose nc c) = content c" "ending (halfClose nc c) = ending c" "out (halfClose nc c) = out c"
  "ct_closed (ctl (halfClose nc c)) = ct_closed (ctl c)"
  using closeWrite_law by (auto simp: halfClose_def split: option.splits)

lemma relay_spec:
  assumes "reliable client" "reliable server" "content server = concat frames @ later" "list_all rawFrame frames"
    "partialFrame later \<or> oversizeHead later"
  shows "\<exists>l c s b. relay nc newRand first opt seed (Inr server) client = Some (l, c, Some s) \<and> disturbed (op_noise opt) frames b
    \<and> out c = out client @ b @ tailOut later \<and> out s = out server @ content client \<and> ct_closed (ctl c) \<and> ct_closed (ctl s)"
proof -
  let ?p = "\<lambda>c. \<lparr>pm_out = c, pm_rng = newRand seed, pm_st = \<lparr>st_frames = 0, st_injected = 0, st_writes = 0\<rparr>\<rparr>"
  note unfold = relay_def relayRequests_def relayAnswers_def
  show ?thesis
  proof (cases first)
    case True
    obtain c1 s1 where 1: "copyConn nc client server = Some (c1, s1)" "sent (content client) server s1" "out c1 = out client" "reliable c1"
      using copyConn_spec [OF assms(2), of client] assms(1) by blast
    have "content (halfClose nc s1) = concat frames @ later" using 1(2) assms(3) by (simp add: sent_def halfClose_laws)
    from pumpRun_spec [OF _ this assms(4,5), of "?p c1" opt] 1(4) obtain s2 p b where
      "pumpRun (nc_read nc) nc opt (halfClose nc s1) (?p c1) = Some (s2, p)" "disturbed (op_noise opt) frames b"
      "sent (b @ tailOut later) c1 (pm_out p)" "out s2 = out s1" by (auto simp: halfClose_laws)
    then show ?thesis using True 1 close_law by (auto simp: unfold sent_def halfClose_laws)
  next
    case False
    from pumpRun_spec [OF _ assms(3-5), of "?p client" opt] assms(1) obtain s1 p b where 1:
      "pumpRun (nc_read nc) nc opt server (?p client) = Some (s1, p)" "disturbed (op_noise opt) frames b"
      "sent (b @ tailOut later) client (pm_out p)" "out s1 = out server" "reliable s1" using assms(2) by auto
    obtain c2 s2 where "copyConn nc (halfClose nc (pm_out p)) s1 = Some (c2, s2)" "sent (content client) s1 s2" "out c2 = out (pm_out p)"
      using copyConn_spec [OF 1(5), of "halfClose nc (pm_out p)"] 1(3) by (auto simp: halfClose_laws sent_def)
    then show ?thesis using False 1 close_law by (auto simp: unfold sent_def halfClose_laws)
  qed
qed

end

subsection \<open>Frames through the proxy\<close>

lemma parses_noise: "noise on b \<Longrightarrow> fs \<noteq> [] \<Longrightarrow> parses e (b @ x) fs later \<longleftrightarrow> parses e x fs later"
  by (cases fs) (simp_all add: parse_noise)

lemma parses_disturbed:
  assumes "disturbed on (map frameBytes fs) b" "list_all (\<lambda>f. known (fr_type f) \<and> encodable f) fs" "parses e x gs later" "gs \<noteq> []"
  shows "parses e (b @ x) (fs @ gs) later"
  using assms(1,2)
proof (induction "map frameBytes fs" b arbitrary: fs rule: disturbed.induct)
  case disturbed_Nil
  then show ?case using assms(3) by simp
next
  case (disturbed_Cons pre post bs out f fs)
  then obtain g gs' where fs: "fs = g # gs'" "f = frameBytes g" "bs = map frameBytes gs'" by (cases fs) auto
  with disturbed_Cons have "parses e (out @ x) (gs' @ gs) later" by simp
  then have "parses e (post @ out @ x) (gs' @ gs) later" using parses_noise [OF disturbed_Cons(2)] assms(4) by simp
  then show ?case using fs disturbed_Cons.prems parse_noise [OF disturbed_Cons(1)] by (simp add: parse_frameBytes)
qed

lemma disturbed_parses:
  assumes "disturbed on (map frameBytes fs) b" "list_all (\<lambda>f. known (fr_type f) \<and> encodable f) fs"
  shows "\<exists>later. noise on later \<and> parses e b fs later"
  using assms
proof (induction "map frameBytes fs" b arbitrary: fs rule: disturbed.induct)
  case (disturbed_Cons pre post bs out f fs)
  then obtain g gs where fs: "fs = g # gs" "f = frameBytes g" "bs = map frameBytes gs" by (cases fs) auto
  with disturbed_Cons obtain later where l: "noise on later" "parses e out gs later" by auto
  have "\<exists>later. noise on later \<and> parses e (post @ out) gs later"
  proof (cases "gs = []")
    case True
    with l noise_append [OF disturbed_Cons(2)] show ?thesis by auto
  next
    case False
    with l parses_noise [OF disturbed_Cons(2) False] show ?thesis by auto
  qed
  then show ?case using fs disturbed_Cons.prems parse_noise [OF disturbed_Cons(1)] by (simp add: parse_frameBytes)
qed simp

lemma concat_frames: "concat (map frameBytes fs) = wireOf fs"
  by (simp add: wireOf_def)

lemma frames_raw: "list_all (\<lambda>f. known (fr_type f) \<and> encodable f) fs \<Longrightarrow> list_all rawFrame (map frameBytes fs)"
  by (induction fs) (simp_all add: frame_rawFrame)

text \<open>A frame cut inside its payload, and what the pump makes of it.\<close>

definition zeroFilled :: "nat \<Rightarrow> frame \<Rightarrow> frame" where
  "zeroFilled k g = g\<lparr>fr_payload := take k (fr_payload g) @ replicate (length (fr_payload g) - k) 0\<rparr>"

lemma tailOut_cut:
  assumes "encodable g" "k < length (fr_payload g)"
  shows "partialFrame (take (12 + k) (frameBytes g))" "tailOut (take (12 + k) (frameBytes g)) = frameBytes (zeroFilled k g)"
proof -
  let ?b = "take (12 + k) (frameBytes g)"
  have split: "?b = putUint32 (word_of_nat (length (fr_payload g))) @ [fr_type g, fr_flags g, 0, 0] @ putUint32 (fr_stream g) @ take k (fr_payload g)"
    by (simp add: frameBytes_def take_Cons')
  then have be: "beUint32 ?b = word_of_nat (length (fr_payload g))" by simp
  show "partialFrame ?b" using assms be by (auto simp: partialFrame_def encodable_def)
  show "tailOut ?b = frameBytes (zeroFilled k g)"
    using assms be by (simp add: tailOut_def encodable_def) (simp add: split zeroFilled_def frameBytes_def take_Cons')
qed

lemma chunk_pieces_lemma:
  assumes "writeChunked wr b mx (ws, g, n) = (e, ws', g', n')" "\<And>b ws. wr b ws = ((int (length b), None), ws @ [b])"
  shows "e = None \<and> (\<exists>ps. ws' = ws @ ps \<and> concat ps = b \<and> n' = n + length ps
    \<and> list_all (\<lambda>p. p \<noteq> [] \<and> (0 < mx \<longrightarrow> int (length p) \<le> mx)) ps \<and> (mx \<le> 0 \<longrightarrow> length ps \<le> 1))"
  using assms(1)
proof (induction "length b" arbitrary: b ws g n rule: less_induct)
  case less
  show ?case
  proof (cases "b = []")
    case False
    obtain k g1 where k: "chunkSize mx (length b) g = (k, g1)" by fastforce
    note kb = chunkSize_bounds [OF k]
    have run: "writeChunked wr (drop k b) mx (ws @ [take k b], g1, n + 1) = (e, ws', g', n')"
      using less.prems False k assms(2) by (simp add: writeChunked.simps [of wr b])
    have "length (drop k b) < length b" using kb False by auto
    from less.hyps [OF this run] obtain ps where "e = None" "ws' = (ws @ [take k b]) @ ps" "concat ps = drop k b" "n' = n + 1 + length ps"
      "list_all (\<lambda>p. p \<noteq> [] \<and> (0 < mx \<longrightarrow> int (length p) \<le> mx)) ps" "mx \<le> 0 \<longrightarrow> length ps \<le> 1" by blast
    moreover have "ps = []" if "mx \<le> 0" using that kb False calculation(3,5) by (cases ps) auto
    ultimately show ?thesis using kb False by (intro conjI exI [of _ "take k b # ps"]) auto
  qed (use less.prems in \<open>simp add: writeChunked.simps\<close>)
qed

subsection \<open>Properties\<close>

text \<open>
  C36. A client behind the proxy reads the frames the server sent. When the server's bytes are whole frames, of
  any types and valid or not, then with every chunk size, with or without noise, and for every
  sequence of random draws the relay ends, and repeated reads of what the client received give the
  same frames and the same final error as on the server's bytes, whatever follows. Without noise the
  bytes are the same. The client's bytes reach the server unchanged, and both connections are closed.
\<close>
theorem chaos_same_frames:
  assumes "tcp_reliable client" and "tcp_reliable server" and "tcp_content server = concat frames" and "list_all rawFrame frames"
  shows "\<exists>l c s b. relay tcp_net_conn newRand first opt seed (Inr server) client = Some (l, c, Some s)
    \<and> tcp_out c = tcp_out client @ b \<and> (\<forall>e later. readAll e (b @ later) = readAll e (concat frames @ later))
    \<and> (op_noise opt \<or> b = concat frames) \<and> tcp_out s = tcp_out server @ tcp_content client
    \<and> ct_closed (tcp_ctl c) \<and> ct_closed (tcp_ctl s)"
proof -
  obtain l c s b where r: "relay tcp_net_conn newRand first opt seed (Inr server) client = Some (l, c, Some s)"
    "disturbed (op_noise opt) frames b" "tcp_out c = tcp_out client @ b" "tcp_out s = tcp_out server @ tcp_content client"
    "ct_closed (tcp_ctl c)" "ct_closed (tcp_ctl s)"
    using tcp.relay_spec [OF assms(1,2) _ assms(4), of "[]" newRand first opt seed] assms(3) by (auto simp: partialFrame_def tailOut_def)
  have "op_noise opt \<or> b = concat frames" using disturbed_off [of frames b] r(2) by (cases "op_noise opt") auto
  then show ?thesis using r disturbed_readAll [OF r(2) assms(4)] by blast
qed

definition demoRand :: "i64 \<Rightarrow> rng" where
  "demoRand seed = \<lparr>rg_draw = (\<lambda>n. n * n + unat seed), rg_pos = 0\<rparr>"

definition demoOpts :: chaos_opts where
  "demoOpts = \<lparr>op_chunk = 1, op_delay = 0, op_noise = True, op_seed = 1, op_logf = False\<rparr>"

theorem chaos_same_frames_witness:
  "\<exists>l c s b. relay tcp_net_conn demoRand False demoOpts 7 (Inr (tcp_open [wireOf [demoHead, demoData]] EOF None)) (tcp_open [[1]] EOF None) = Some (l, c, Some s)
    \<and> tcp_out c = b \<and> readAll EOF b = readAll EOF (wireOf [demoHead, demoData]) \<and> tcp_out s = [1]"
proof -
  have "tcp_content (tcp_open [wireOf [demoHead, demoData]] EOF None) = concat (map frameBytes [demoHead, demoData])"
    unfolding concat_frames by (simp del: wireOf_simps)
  from chaos_same_frames [OF _ _ this frames_raw [OF demo_frames], of "tcp_open [[1]] EOF None" demoRand False demoOpts 7]
  obtain l c s b where "relay tcp_net_conn demoRand False demoOpts 7 (Inr (tcp_open [wireOf [demoHead, demoData]] EOF None)) (tcp_open [[1]] EOF None) = Some (l, c, Some s)"
    "tcp_out c = b" "tcp_out s = [1]" "readAll EOF (b @ []) = readAll EOF (wireOf [demoHead, demoData] @ [])"
    unfolding concat_frames by (auto simp del: wireOf_simps append_Nil2)
  then show ?thesis by (simp del: wireOf_simps)
qed

text \<open>
  C12. A correct client does not notice the proxy. When the server answers with a complete response and the
  proxy relays it, cut into pieces and padded with frames of unknown types in any way it may, a
  client that receives what the proxy sent, in whatever pieces, returns from \<^verbatim>\<open>Get\<close> the status, the
  headers and the body of the response.
\<close>
theorem chaos_get:
  assumes "responseShape 1 head datas" and "list_all (\<lambda>f. known (fr_type f) \<and> encodable f) (head # datas)"
    and "decodeResponse (fr_payload head) = Inr resp" and "checkLength (rs_headers resp) (int (length (payloads datas))) = None"
    and "tcp_reliable client" and "tcp_out client = []" and "tcp_reliable server" and "tcp_content server = wireOf (head # datas)"
    and "encodeRequest \<lparr>rq_method = MethodGet, rq_path = path, rq_headers = hs\<rparr> = Inr p"
  shows "\<exists>l c s. relay tcp_net_conn newRand first opt seed (Inr server) client = Some (l, c, Some s) \<and>
    (\<forall>chunks. concat chunks = tcp_out c \<longrightarrow>
      (\<exists>c' b'. clientGet tcp_net_conn outWrite path hs (newClient (tcp_open chunks EOF None)) emptyFile =
          Some (Inr \<lparr>re_status = rs_status resp, re_headers = rs_headers resp, re_bodyBytes = int (length (payloads datas))\<rparr>, c', b')
        \<and> of_data b' = payloads datas))"
proof -
  let ?fs = "head # datas"
  let ?res = "\<lparr>re_status = rs_status resp, re_headers = rs_headers resp, re_bodyBytes = int (length (payloads datas))\<rparr>"
  have "tcp_content server = concat (map frameBytes ?fs) @ []" using assms(8) concat_frames by (metis append_Nil2)
  from tcp.relay_spec [OF assms(5,7) this frames_raw [OF assms(2)], of newRand first opt seed] assms(6)
  obtain l c s b where b: "relay tcp_net_conn newRand first opt seed (Inr server) client = Some (l, c, Some s)"
    "disturbed (op_noise opt) (map frameBytes ?fs) b" "tcp_out c = b" by (auto simp: partialFrame_def tailOut_def)
  from disturbed_parses [OF b(2) assms(2), of EOF] obtain later where "parses EOF b ?fs later" by blast
  then have "received EOF (tcp_out c) 1 ?res (payloads datas) later"
    unfolding received_def using b(3) assms(1,3,4) by blast
  then have "\<exists>c' b'. clientGet tcp_net_conn outWrite path hs (newClient (tcp_open chunks EOF None)) emptyFile = Some (Inr ?res, c', b')
      \<and> of_data b' = payloads datas" if "concat chunks = tcp_out c" for chunks
    using tcpc.clientGet_complete [OF _ _ _ _ _ _ assms(9), of "newClient (tcp_open chunks EOF None)" emptyFile ?res "payloads datas" later] that
    by (auto simp: tcp_bcontent)
  with b(1) show ?thesis by blast
qed

theorem chaos_get_witness:
  "\<exists>l c s. relay tcp_net_conn demoRand True demoOpts 1 (Inr (tcp_open [wireOf [demoHead, demoData]] EOF None)) (tcp_open [] EOF None) = Some (l, c, Some s)
    \<and> (\<exists>c' b'. clientGet tcp_net_conn outWrite (str ''/a'') [] (newClient (tcp_open [tcp_out c] EOF None)) emptyFile = Some (Inr demoResult, c', b')
        \<and> of_data b' = [65, 66])"
proof -
  have body: "payloads [demoData] = [65, 66]" by (simp add: demoData_def)
  have "\<exists>l c s. relay tcp_net_conn demoRand True demoOpts 1 (Inr (tcp_open [wireOf [demoHead, demoData]] EOF None)) (tcp_open [] EOF None) = Some (l, c, Some s)
    \<and> (\<forall>chunks. concat chunks = tcp_out c \<longrightarrow> (\<exists>c' b'. clientGet tcp_net_conn outWrite (str ''/a'') [] (newClient (tcp_open chunks EOF None)) emptyFile =
        Some (Inr demoResult, c', b') \<and> of_data b' = [65, 66]))"
    using chaos_get [OF demo_shape demo_frames demo_decodes _ _ _ _ _ demo_request, of "tcp_open [] EOF None"
        "tcp_open [wireOf [demoHead, demoData]] EOF None" demoRand True demoOpts 1] demo_length
    unfolding body by (simp add: demoResult_def del: str_Cons wireOf_simps)
  then show ?thesis by (metis append_Nil2 concat.simps)
qed

text \<open>
  C37. A frame the server did not finish is finished by the proxy. When the server's connection ends inside
  the payload of a frame, after \<open>k\<close> bytes of it, the client receives a whole frame: the same header over
  the bytes that came and zeros for the rest, and reads it without an error. The client cannot tell
  that anything was lost, although on the server's own connection the same read fails.
\<close>
theorem chaos_completes_truncated:
  assumes "list_all (\<lambda>f. known (fr_type f) \<and> encodable f) (fs @ [g])" and "k < length (fr_payload g)"
    and "tcp_reliable client" and "tcp_reliable server" and "tcp_content server = wireOf fs @ take (12 + k) (frameBytes g)"
  shows "\<exists>l c s b. relay tcp_net_conn newRand first opt seed (Inr server) client = Some (l, c, Some s)
    \<and> tcp_out c = tcp_out client @ b
    \<and> parses EOF b (fs @ [g\<lparr>fr_payload := take k (fr_payload g) @ replicate (length (fr_payload g) - k) 0\<rparr>]) []
    \<and> readAll EOF (take (12 + k) (frameBytes g)) = ([], ErrTruncated)"
proof -
  have g: "encodable g" "known (fr_type g)" and fs: "list_all (\<lambda>f. known (fr_type f) \<and> encodable f) fs" using assms(1) by auto
  have z: "known (fr_type (zeroFilled k g))" "encodable (zeroFilled k g)" using g assms(2) by (auto simp: zeroFilled_def encodable_def)
  have "tcp_content server = concat (map frameBytes fs) @ take (12 + k) (frameBytes g)" using assms(5) concat_frames by metis
  from tcp.relay_spec [OF assms(3,4) this frames_raw [OF fs], of newRand first opt seed] tailOut_cut [OF g(1) assms(2)]
  obtain l c s b where r: "relay tcp_net_conn newRand first opt seed (Inr server) client = Some (l, c, Some s)"
    "disturbed (op_noise opt) (map frameBytes fs) b" "tcp_out c = tcp_out client @ b @ frameBytes (zeroFilled k g)" by auto
  have "parses EOF (frameBytes (zeroFilled k g)) [zeroFilled k g] []" using parse_frameBytes [OF z(2,1), of EOF "[]"] by simp
  from parses_disturbed [OF r(2) fs this] have "parses EOF (b @ frameBytes (zeroFilled k g)) (fs @ [zeroFilled k g]) []" by simp
  moreover have "readAll EOF (take (12 + k) (frameBytes g)) = ([], ErrTruncated)"
    using parse_truncated [OF g, of "12 + k"] assms(2) by (simp add: readAll.simps)
  ultimately show ?thesis using r(1,3) unfolding zeroFilled_def by blast
qed

theorem chaos_completes_truncated_witness:
  "\<exists>l c s b. relay tcp_net_conn demoRand True demoOpts 1 (Inr (tcp_open [wireOf [demoHead], take 13 (frameBytes demoData)] EOF None)) (tcp_open [] EOF None) = Some (l, c, Some s)
    \<and> tcp_out c = b \<and> parses EOF b [demoHead, demoData\<lparr>fr_payload := [65, 0]\<rparr>] []"
proof -
  have "tcp_content (tcp_open [wireOf [demoHead], take 13 (frameBytes demoData)] EOF None) = wireOf [demoHead] @ take (12 + 1) (frameBytes demoData)"
    by simp
  from chaos_completes_truncated [OF _ _ _ _ this, of "tcp_open [] EOF None" demoRand True demoOpts 1] demo_frames
  show ?thesis by (simp add: demoData_def del: parses.simps wireOf_simps) blast
qed

text \<open>
  Pieces are as small as asked for. A writer that takes what it is given sees non-empty pieces that add
  up to the bytes in order, none longer than the chunk size when there is one, and one piece at most
  when there is none; the counter goes up by the number of pieces.
\<close>
lemma chunk_pieces:
  assumes "\<And>b ws. wr b ws = ((int (length b), None), ws @ [b])"
  shows "\<exists>ps g'. writeChunked wr b mx ([], g, n) = (None, ps, g', n + length ps) \<and> concat ps = b
    \<and> list_all (\<lambda>p. p \<noteq> [] \<and> (0 < mx \<longrightarrow> int (length p) \<le> mx)) ps \<and> (mx \<le> 0 \<longrightarrow> length ps \<le> 1)"
proof -
  obtain e ws' g' n' where run: "writeChunked wr b mx ([], g, n) = (e, ws', g', n')" by (metis surj_pair)
  from chunk_pieces_lemma [OF this assms] run show ?thesis by auto
qed

end
