(* ===== verification/Commands.thy ===== *)
theory Commands
  imports Chaos Wire_Props Server_Life
begin

text \<open>
  The three programs of \<^verbatim>\<open>cmd\<close>: \<^verbatim>\<open>bserve\<close>, \<^verbatim>\<open>bcurl\<close> and \<^verbatim>\<open>bchaos\<close>, from the arguments to the exit status.

  Dialling and listening are parameters, functions of the address; what a listening server then
  meets is in \<open>Server_Life\<close> and \<open>Chaos\<close>. The text of messages is not modelled, except the dump of
  \<^verbatim>\<open>bcurl -v\<close>.
\<close>

subsection \<open>The \<open>flag\<close> package\<close>

text \<open>
  A flag set maps a name to whether the flag is boolean and to its \<^verbatim>\<open>Set\<close> method, which may refuse a
  value. \<^verbatim>\<open>Parse\<close> returns the arguments after the flags; \<open>None\<close> is every error, the request for help included.
\<close>

type_synonym 's flag_set = "byte list \<Rightarrow> (bool \<times> (byte list \<Rightarrow> 's \<Rightarrow> 's option)) option"

definition cutFlag :: "byte list \<Rightarrow> byte list \<times> byte list option" where
  "cutFlag name =
     (case indexByte (tl name) (chr CHR ''='') of
        None \<Rightarrow> (name, None)
      | Some i \<Rightarrow> (take (Suc i) name, Some (drop (Suc (Suc i)) name)))"

text \<open>\<^verbatim>\<open>parseOne\<close>: whether it took a flag, and the state after it.\<close>

definition flagOne :: "'s flag_set \<Rightarrow> byte list \<Rightarrow> byte list list \<Rightarrow> 's \<Rightarrow> (bool \<times> 's \<times> byte list list) option" where
  "flagOne fs a as st =
     (if length a < 2 \<or> a ! 0 \<noteq> chr CHR ''-'' then Some (False, st, a # as)
      else if a = str ''--'' then Some (False, st, as)
      else let name0 = drop (if a ! 1 = chr CHR ''-'' then 2 else 1) a in
        if name0 = [] \<or> name0 ! 0 = chr CHR ''-'' \<or> name0 ! 0 = chr CHR ''='' then None
        else (case cutFlag name0 of (name, arg) \<Rightarrow>
          (case fs name of
             None \<Rightarrow> None
           | Some (isBool, put) \<Rightarrow>
             if isBool then map_option (\<lambda>st1. (True, st1, as)) (put (case arg of Some v \<Rightarrow> v | None \<Rightarrow> str ''true'') st)
             else (case arg of
                 Some v \<Rightarrow> map_option (\<lambda>st1. (True, st1, as)) (put v st)
               | None \<Rightarrow> (case as of
                     [] \<Rightarrow> None
                   | v # as1 \<Rightarrow> map_option (\<lambda>st1. (True, st1, as1)) (put v st))))))"

lemma flagOne_shorter: "flagOne fs a as st = Some (True, st1, as1) \<Longrightarrow> length as1 \<le> length as"
  by (auto simp: flagOne_def Let_def split: if_splits option.splits prod.splits list.splits)

function flagParse :: "'s flag_set \<Rightarrow> byte list list \<Rightarrow> 's \<Rightarrow> ('s \<times> byte list list) option" where
  "flagParse fs args st =
     (case args of
        [] \<Rightarrow> Some (st, [])
      | a # as \<Rightarrow>
        (case flagOne fs a as st of
           None \<Rightarrow> None
         | Some (seen, st1, as1) \<Rightarrow> if seen then flagParse fs as1 st1 else Some (st1, as1)))"
  by pat_completeness auto
termination
  by (relation "measure (\<lambda>(fs, args, st). length args)") (auto dest!: flagOne_shorter)

declare flagParse.simps [simp del]

definition parseBool :: "byte list \<Rightarrow> bool option" where
  "parseBool s =
     (if s \<in> set (map str [''1'', ''t'', ''T'', ''true'', ''TRUE'', ''True'']) then Some True
      else if s \<in> set (map str [''0'', ''f'', ''F'', ''false'', ''FALSE'', ''False'']) then Some False
      else None)"

subsection \<open>Addresses (\<open>net\<close>)\<close>

definition lastIndexByte :: "byte list \<Rightarrow> byte \<Rightarrow> nat option" where
  "lastIndexByte s c = map_option (\<lambda>i. length s - Suc i) (indexByte (rev s) c)"

text \<open>\<^verbatim>\<open>net.SplitHostPort\<close>; \<open>None\<close> is any of its errors.\<close>

definition splitHostPort :: "byte list \<Rightarrow> (byte list \<times> byte list) option" where
  "splitHostPort hp =
     (case lastIndexByte hp (chr CHR '':'') of
        None \<Rightarrow> None
      | Some i \<Rightarrow>
        if hp ! 0 = chr CHR ''['' then
          (case indexByte hp (chr CHR '']'') of
             None \<Rightarrow> None
           | Some e \<Rightarrow>
             if e + 1 \<noteq> i \<or> chr CHR ''['' \<in> set (drop 1 hp) \<or> chr CHR '']'' \<in> set (drop (e + 1) hp) then None
             else Some (take (e - 1) (drop 1 hp), drop (i + 1) hp))
        else if chr CHR '':'' \<in> set (take i hp) \<or> chr CHR ''['' \<in> set hp \<or> chr CHR '']'' \<in> set hp then None
        else Some (take i hp, drop (i + 1) hp))"

definition joinHostPort :: "byte list \<Rightarrow> byte list \<Rightarrow> byte list" where
  "joinHostPort host port =
     (if chr CHR '':'' \<in> set host then str ''['' @ host @ str '']:'' @ port else host @ str '':'' @ port)"

subsection \<open>\<open>bcurl\<close>\<close>

text \<open>\<^verbatim>\<open>strings.TrimSpace\<close>: the white space of Unicode, as it is encoded.\<close>

definition spaceRunes :: "byte list list" where
  "spaceRunes = [[9], [10], [11], [12], [13], [32], [0xC2, 0x85], [0xC2, 0xA0], [0xE1, 0x9A, 0x80],
     [0xE2, 0x80, 0xA8], [0xE2, 0x80, 0xA9], [0xE2, 0x80, 0xAF], [0xE2, 0x81, 0x9F], [0xE3, 0x80, 0x80]]
     @ map (\<lambda>i. [0xE2, 0x80, 0x80 + word_of_nat i]) [0..<11]"

lemma find_prefix_shorter:
  assumes "find (\<lambda>r. r \<noteq> [] \<and> hasPrefix s r) rs = Some r"
  shows "length (drop (length r) s) < length s"
proof -
  from assms have "r \<noteq> []" "length r \<le> length s" by (auto simp: find_Some_iff hasPrefix_def)
  then show ?thesis by (cases r) auto
qed

function dropRunes :: "byte list list \<Rightarrow> byte list \<Rightarrow> byte list" where
  "dropRunes rs s =
     (case find (\<lambda>r. r \<noteq> [] \<and> hasPrefix s r) rs of None \<Rightarrow> s | Some r \<Rightarrow> dropRunes rs (drop (length r) s))"
  by pat_completeness auto
termination
  by (relation "measure (\<lambda>(rs, s). length s)") (simp_all add: find_prefix_shorter del: length_drop)

declare dropRunes.simps [simp del]

definition trimSpace :: "byte list \<Rightarrow> byte list" where
  "trimSpace s = rev (dropRunes (map rev spaceRunes) (rev (dropRunes spaceRunes s)))"

text \<open>\<^verbatim>\<open>strings.Cut\<close> at a byte.\<close>

definition cutByte :: "byte \<Rightarrow> byte list \<Rightarrow> byte list \<times> byte list \<times> bool" where
  "cutByte c s = (case indexByte s c of Some i \<Rightarrow> (take i s, drop (Suc i) s, True) | None \<Rightarrow> (s, [], False))"

text \<open>\<^verbatim>\<open>headerFlags.Set\<close>; \<open>None\<close> is an error.\<close>

definition headerSet :: "byte list \<Rightarrow> header list \<Rightarrow> header list option" where
  "headerSet v hs =
     (case cutByte (chr CHR '':'') v of (name0, arg, ok) \<Rightarrow>
       let name = toLower (trimSpace name0) in
       if \<not> ok \<or> name = [] then None
       else let hdr = NewHeader name (dropWhile (\<lambda>b. b = 32 \<or> b = 9) arg) in
         (case encodeRequest \<lparr>rq_method = MethodGet, rq_path = str ''/'', rq_headers = [hdr]\<rparr> of
            Inl _ \<Rightarrow> None
          | Inr _ \<Rightarrow> Some (hs @ [hdr])))"

definition parseTarget :: "byte list \<Rightarrow> (byte list \<times> byte list) option" where
  "parseTarget target =
     (case (case indexByte target (chr CHR ''/'') of
              Some i \<Rightarrow> (take i target, drop i target) | None \<Rightarrow> (target, str ''/'')) of (authority, path) \<Rightarrow>
       (case splitHostPort authority of
          None \<Rightarrow> None
        | Some (host, port) \<Rightarrow>
          if host = [] \<or> port = [] then None else Some (joinHostPort host port, path)))"

record bcurl_flags =
  bc_verbose :: bool
  bc_headers :: "header list"

definition bcurlFlags :: "bcurl_flags flag_set" where
  "bcurlFlags name =
     (if name = str ''v'' then Some (True, \<lambda>v st. map_option (\<lambda>b. st\<lparr>bc_verbose := b\<rparr>) (parseBool v))
      else if name = str ''H'' then Some (False, \<lambda>v st. map_option (\<lambda>hs. st\<lparr>bc_headers := hs\<rparr>) (headerSet v (bc_headers st)))
      else None)"

text \<open>What \<^verbatim>\<open>run\<close> takes from the arguments before it dials: the flags, the address and the path.\<close>

definition bcurlArgs :: "byte list list \<Rightarrow> (bcurl_flags \<times> byte list \<times> byte list) option" where
  "bcurlArgs args =
     (case flagParse bcurlFlags args \<lparr>bc_verbose = False, bc_headers = []\<rparr> of
        None \<Rightarrow> None
      | Some (fl, as) \<Rightarrow>
        if length as \<noteq> 1 then None
        else (case parseTarget (as ! 0) of None \<Rightarrow> None | Some (addr, path) \<Rightarrow> Some (fl, addr, path)))"

definition bcurlFetch ::
  "'c net_conn \<Rightarrow> 'b writer \<Rightarrow> byte list \<Rightarrow> header list \<Rightarrow> 'c \<Rightarrow> 'b \<Rightarrow> (nat \<times> 'c \<times> 'b) option" where
  "bcurlFetch nc bw path hs conn b =
     (case clientGet nc bw path hs (newClient conn) b of
        None \<Rightarrow> None
      | Some (res, c, b1) \<Rightarrow>
        Some (case res of Inl _ \<Rightarrow> 3 | Inr r \<Rightarrow> if re_status r \<ge> 400 then 1 else 0, cl_conn (closeClient nc c), b1))"

text \<open>
  The whole of \<^verbatim>\<open>run\<close>: the exit status, the connection if there was one, standard output, and the dump on
  standard error. The deferred \<^verbatim>\<open>Close\<close> runs before the deferred \<^verbatim>\<open>Flush\<close>.
\<close>

definition bcurlRun ::
  "'c net_conn \<Rightarrow> (byte list \<Rightarrow> io_err + 'c) \<Rightarrow> 'b writer \<Rightarrow> byte list list \<Rightarrow> 'b \<Rightarrow> (nat \<times> 'c option \<times> 'b \<times> byte list) option" where
  "bcurlRun nc dial bw args b =
     (case bcurlArgs args of
        None \<Rightarrow> Some (2, None, b, [])
      | Some (fl, addr, path) \<Rightarrow>
        (case dial addr of
           Inl _ \<Rightarrow> Some (3, None, b, [])
         | Inr conn \<Rightarrow>
           if bc_verbose fl
           then (case bcurlFetch (tapWrap nc) bw path (bc_headers fl) (conn, NewTap []) b of
                   None \<Rightarrow> None
                 | Some (code, (conn1, t), b1) \<Rightarrow> Some (code, Some conn1, b1, tp_out (tap_io (tapFlush t))))
           else (case bcurlFetch nc bw path (bc_headers fl) conn b of
                   None \<Rightarrow> None
                 | Some (code, conn1, b1) \<Rightarrow> Some (code, Some conn1, b1, []))))"

subsection \<open>\<open>bserve\<close>\<close>

text \<open>
  \<^verbatim>\<open>run\<close>, with \<^verbatim>\<open>net.Listen\<close> and what \<^verbatim>\<open>Serve\<close> returns in the end as parameters; the signal handler that
  calls \<^verbatim>\<open>Close\<close> meanwhile is one of the goroutines of \<open>Server_Life\<close>.
\<close>

definition bserveRun ::
  "os_env \<Rightarrow> (byte list \<Rightarrow> io_err + 'l) \<Rightarrow> (server_cfg \<Rightarrow> 'l \<Rightarrow> io_err option) \<Rightarrow> byte list list \<Rightarrow> os_state \<Rightarrow> nat \<times> os_state" where
  "bserveRun env listen serve args os =
     (if length args \<noteq> 2 then (2, os)
      else (case parseInt (args ! 1) of
          None \<Rightarrow> (2, os)
        | Some port \<Rightarrow>
          if port < 0 \<or> port > 65535 then (2, os)
          else (case newServer env \<lparr>cfg_Root = args ! 0, cfg_IdleTimeout = 0, cfg_WriteTimeout = 0, cfg_Logger = True\<rparr> os of
              (Inl _, os1) \<Rightarrow> (1, os1)
            | (Inr srv, os1) \<Rightarrow>
              (case listen (str '':'' @ formatInt port) of
                 Inl _ \<Rightarrow> (1, os1)
               | Inr lis \<Rightarrow> (case serve srv lis of Some _ \<Rightarrow> (1, os1) | None \<Rightarrow> (0, os1))))))"

subsection \<open>\<open>bchaos\<close>\<close>

record bchaos_flags =
  bx_target :: "byte list"
  bx_listen :: "byte list"
  bx_chunk :: int
  bx_delay :: int
  bx_noise :: bool
  bx_seed :: i64

text \<open>
  The number and duration syntax of the \<^verbatim>\<open>flag\<close> package (\<^verbatim>\<open>ParseInt\<close> with base 0, \<^verbatim>\<open>ParseDuration\<close>) are
  the parameters \<open>int0\<close> and \<open>duration\<close>.
\<close>

definition bchaosFlags :: "(byte list \<Rightarrow> int option) \<Rightarrow> (byte list \<Rightarrow> int option) \<Rightarrow> bchaos_flags flag_set" where
  "bchaosFlags int0 duration name =
     (if name = str ''target'' then Some (False, \<lambda>v st. Some (st\<lparr>bx_target := v\<rparr>))
      else if name = str ''listen'' then Some (False, \<lambda>v st. Some (st\<lparr>bx_listen := v\<rparr>))
      else if name = str ''chunk'' then Some (False, \<lambda>v st. map_option (\<lambda>n. st\<lparr>bx_chunk := n\<rparr>) (int0 v))
      else if name = str ''delay'' then Some (False, \<lambda>v st. map_option (\<lambda>n. st\<lparr>bx_delay := n\<rparr>) (duration v))
      else if name = str ''noise'' then Some (True, \<lambda>v st. map_option (\<lambda>b. st\<lparr>bx_noise := b\<rparr>) (parseBool v))
      else if name = str ''seed'' then Some (False, \<lambda>v st. map_option (\<lambda>n. st\<lparr>bx_seed := word_of_int n\<rparr>) (int0 v))
      else None)"

text \<open>
  \<^verbatim>\<open>run\<close>, with \<^verbatim>\<open>net.Listen\<close> giving the results of \<^verbatim>\<open>Accept\<close> in order: the exit status, or \<open>None\<close> while it
  is serving, and the relays started, each with its target, options and seed.
\<close>

definition bchaosRun ::
  "(byte list \<Rightarrow> int option) \<Rightarrow> (byte list \<Rightarrow> int option) \<Rightarrow> (byte list \<Rightarrow> io_err + (accept_err + 'c) list) \<Rightarrow> byte list list
     \<Rightarrow> nat option \<times> ('c \<times> byte list \<times> chaos_opts \<times> i64) list" where
  "bchaosRun int0 duration listen args =
     (case flagParse (bchaosFlags int0 duration) args
         \<lparr>bx_target = [], bx_listen = str ''127.0.0.1:9100'', bx_chunk = 0, bx_delay = 0, bx_noise = False, bx_seed = 1\<rparr> of
        None \<Rightarrow> (Some 2, [])
      | Some (fl, as) \<Rightarrow>
        if as \<noteq> [] \<or> bx_target fl = [] \<or> bx_chunk fl < 0 \<or> bx_delay fl < 0 then (Some 2, [])
        else if splitHostPort (bx_target fl) = None then (Some 2, [])
        else (case listen (bx_listen fl) of
            Inl _ \<Rightarrow> (Some 1, [])
          | Inr accepts \<Rightarrow>
            let opt = \<lparr>op_chunk = bx_chunk fl, op_delay = bx_delay fl, op_noise = bx_noise fl, op_seed = bx_seed fl, op_logf = True\<rparr> in
            (case chaosServe opt 0 accepts of (started, res) \<Rightarrow>
              (map_option (\<lambda>r. case r of None \<Rightarrow> 0 | Some _ \<Rightarrow> 1) res, map (\<lambda>(c, seed). (c, bx_target fl, opt, seed)) started))))"

end
