(* ===== verification/Commands_Props.thy ===== *)
theory Commands_Props
  imports Commands
begin

text \<open>
  Properties of the programs: addresses survive splitting and joining, headers given with \<^verbatim>\<open>-H\<close> can be
  sent, and the exit status of \<^verbatim>\<open>bcurl\<close> says what happened.
\<close>

subsection \<open>Addresses and targets\<close>

lemma indexByte_fresh: "c \<notin> set a \<Longrightarrow> indexByte (a @ c # b) c = Some (length a)"
  by (induction a) auto

lemma indexByte_None: "indexByte s c = None \<longleftrightarrow> c \<notin> set s"
  by (induction s) auto

lemma indexByte_Some: "indexByte s c = Some i \<Longrightarrow> i < length s \<and> s ! i = c \<and> c \<notin> set (take i s)"
  by (induction s arbitrary: i) (auto split: if_splits)

lemma lastIndexByte_fresh: "c \<notin> set b \<Longrightarrow> lastIndexByte (a @ c # b) c = Some (length a)"
  using indexByte_fresh [of c "rev b" "rev a"] by (simp add: lastIndexByte_def)

definition plainHost :: "byte list \<Rightarrow> bool" where
  "plainHost host \<longleftrightarrow> host \<noteq> [] \<and> set host \<inter> {47, 91, 93} = {}"

definition plainPort :: "byte list \<Rightarrow> bool" where
  "plainPort port \<longleftrightarrow> port \<noteq> [] \<and> set port \<inter> {47, 58, 91, 93} = {}"

lemma splitHostPort_join:
  assumes "plainHost host" "plainPort port"
  shows "splitHostPort (joinHostPort host port) = Some (host, port)"
proof (cases "58 \<in> set host")
  case True
  have l: "lastIndexByte (91 # host @ 93 # 58 # port) 58 = Some (length host + 2)"
    using lastIndexByte_fresh [of 58 port "91 # host @ [93]"] assms(2) by (simp add: plainPort_def)
  have "indexByte (91 # host @ 93 # 58 # port) 93 = Some (length host + 1)"
    using indexByte_fresh [of 93 "91 # host" "58 # port"] assms(1) by (simp add: plainHost_def)
  with l True assms show ?thesis by (auto simp: splitHostPort_def joinHostPort_def plainHost_def plainPort_def)
next
  case False
  have "lastIndexByte (host @ 58 # port) 58 = Some (length host)"
    using lastIndexByte_fresh [of 58 port host] assms(2) by (simp add: plainPort_def)
  moreover have "(host @ 58 # port) ! 0 \<noteq> 91" using assms(1) by (cases host) (auto simp: plainHost_def)
  ultimately show ?thesis using False assms by (auto simp: splitHostPort_def joinHostPort_def plainHost_def plainPort_def)
qed

lemma join_no_slash: "plainHost host \<Longrightarrow> plainPort port \<Longrightarrow> 47 \<notin> set (joinHostPort host port)"
  by (auto simp: joinHostPort_def plainHost_def plainPort_def)

lemma parseTarget_shape:
  assumes "parseTarget t = Some (addr, path)"
  shows "\<exists>host port. host \<noteq> [] \<and> port \<noteq> [] \<and> addr = joinHostPort host port \<and> path \<noteq> [] \<and> hd path = 47"
proof (cases "indexByte t 47")
  case (Some i)
  with indexByte_Some [OF Some] assms show ?thesis
    by (auto simp: parseTarget_def hd_drop_conv_nth split: option.splits if_splits) blast
next
  case None
  with assms show ?thesis by (auto simp: parseTarget_def split: option.splits if_splits) blast
qed

subsection \<open>Headers\<close>

lemma headerSet_Some:
  assumes "headerSet v hs = Some hs'"
  obtains h where "hs' = hs @ [h]" "headerOk h" "hd_name h \<noteq> []"
proof -
  obtain name0 arg ok where c: "cutByte 58 v = (name0, arg, ok)" by (metis surj_pair)
  let ?h = "NewHeader (toLower (trimSpace name0)) (dropWhile (\<lambda>b. b = 32 \<or> b = 9) arg)"
  from assms c obtain p where "encodeRequest \<lparr>rq_method = MethodGet, rq_path = str ''/'', rq_headers = [?h]\<rparr> = Inr p" "hs' = hs @ [?h]"
    "toLower (trimSpace name0) \<noteq> []"
    by (auto simp: headerSet_def Let_def split: if_splits sum.splits simp del: str_Cons)
  then show ?thesis using that [of ?h] by (auto simp: encodeRequest_Inr requestOk_def NewHeader_def simp del: str_Cons)
qed

lemma flagParse_invariant:
  assumes "flagParse fs args st = Some (st', as')" "P st"
    "\<And>name b put v s s'. fs name = Some (b, put) \<Longrightarrow> put v s = Some s' \<Longrightarrow> P s \<Longrightarrow> P s'"
  shows "P st'"
  using assms(1,2)
proof (induction "length args" arbitrary: args st rule: less_induct)
  case less
  show ?case
  proof (cases args)
    case (Cons a as)
    with less.prems(1) obtain seen st1 as1 where one: "flagOne fs a as st = Some (seen, st1, as1)"
      and later: "if seen then flagParse fs as1 st1 = Some (st', as') else st' = st1"
      by (auto simp: flagParse.simps [of fs "a # as"] split: option.splits if_splits)
    have "P st1" using one less.prems(2) assms(3)
      by (auto simp: flagOne_def Let_def split: if_splits option.splits prod.splits list.splits)
    with later less.hyps [of as1 st1] flagOne_shorter [of fs a as st st1 as1] one Cons show ?thesis by (cases seen) auto
  qed (use less.prems in \<open>simp add: flagParse.simps\<close>)
qed

lemma bcurlArgs_headers:
  assumes "bcurlArgs args = Some (fl, addr, path)"
  shows "list_all (\<lambda>h. headerOk h \<and> hd_name h \<noteq> []) (bc_headers fl)"
proof -
  from assms obtain as where p: "flagParse bcurlFlags args \<lparr>bc_verbose = False, bc_headers = []\<rparr> = Some (fl, as)"
    by (auto simp: bcurlArgs_def split: option.splits if_splits)
  have "list_all (\<lambda>h. headerOk h \<and> hd_name h \<noteq> []) (bc_headers s')"
    if "bcurlFlags name = Some (b, put)" "put v s = Some s'" "list_all (\<lambda>h. headerOk h \<and> hd_name h \<noteq> []) (bc_headers s)" for name b put v s s'
    using that by (auto simp: bcurlFlags_def split: if_splits elim!: headerSet_Some)
  from flagParse_invariant [OF p, of "\<lambda>fl. list_all (\<lambda>h. headerOk h \<and> hd_name h \<noteq> []) (bc_headers fl)", OF _ this] show ?thesis by simp
qed

subsection \<open>One run of \<open>bcurl\<close>\<close>

definition exitStatus :: "client_err + result \<Rightarrow> nat" where
  "exitStatus r = (case r of Inl _ \<Rightarrow> 3 | Inr res \<Rightarrow> if re_status res \<ge> 400 then 1 else 0)"

lemma newClient_map: "clientMap fst (newClient (conn, t)) = newClient conn"
  by (simp add: clientMap_def newClient_def bufMap_def bufioNew_def)

text \<open>With or without the tap, a run ends as a plain \<^verbatim>\<open>Get\<close> does.\<close>

lemma bcurlRun_get:
  assumes "bcurlArgs args = Some (fl, addr, path)" "dial addr = Inr conn"
  shows "\<exists>r c b' dump. clientGet tcp_net_conn outWrite path (bc_headers fl) (newClient conn) b = Some (r, c, b')
    \<and> bcurlRun tcp_net_conn dial outWrite args b = Some (exitStatus r, Some (nc_close tcp_net_conn (cl_conn c)), b', dump)"
proof (cases "bc_verbose fl")
  case True
  have "clientOk (clientMap fst (newClient (conn, NewTap [])))" by (simp add: newClient_map)
  from tapped_get_returns [OF this, of path "bc_headers fl" b] obtain r c b' where
    get: "clientGet (tapWrap tcp_net_conn) outWrite path (bc_headers fl) (newClient (conn, NewTap [])) b = Some (r, c, b')" by blast
  have "nc_close (tapWrap tcp_net_conn) (cl_conn c) = (nc_close tcp_net_conn (fst (cl_conn c)), snd (cl_conn c))"
    by (simp add: tapWrap_def apfst_def map_prod_def split: prod.splits)
  with assms True get tap_sim.clientGet_sim [OF get] show ?thesis
    by (auto simp: bcurlRun_def bcurlFetch_def closeClient_def onClConn_def cl_conn_def exitStatus_def newClient_map)
next
  case False
  obtain r c b' where "clientGet tcp_net_conn outWrite path (bc_headers fl) (newClient conn) b = Some (r, c, b')"
    using newClient_simps(1) [of conn] by (cases rule: get_outcome [of "newClient conn" path "bc_headers fl" b]) auto
  with assms False show ?thesis
    by (auto simp: bcurlRun_def bcurlFetch_def closeClient_def onClConn_def cl_conn_def exitStatus_def)
qed

text \<open>A complete response on a fresh connection is what \<^verbatim>\<open>Get\<close> returns.\<close>

lemma fresh_complete:
  assumes "tcp_reliable conn" "of_room b = None" "encodeRequest \<lparr>rq_method = MethodGet, rq_path = path, rq_headers = hs\<rparr> = Inr p"
    "received (tcp_ending conn) (tcp_content conn) 1 res body later"
  shows "\<exists>c' b'. clientGet tcp_net_conn outWrite path hs (newClient conn) b = Some (Inr res, c', b') \<and> of_data b' = of_data b @ body"
  using tcpc.clientGet_complete [OF _ _ _ _ _ assms(2,3), of "newClient conn" res body later] assms(1,4) by (auto simp: tcp_bcontent)

subsection \<open>Properties\<close>

text \<open>
  C40. Targets are read as they are written. For a non-empty host without slashes or brackets (it may have colons, as an
  IPv6 address has) and a non-empty port without slashes, colons or brackets, the joined address followed by a path is split into that
  address and that path; without a path the path is the root.
\<close>
theorem target_roundtrip:
  assumes "plainHost host" and "plainPort port" and "path = [] \<or> hd path = 47"
  shows "splitHostPort (joinHostPort host port) = Some (host, port)
    \<and> parseTarget (joinHostPort host port @ path) = Some (joinHostPort host port, if path = [] then str ''/'' else path)"
proof (cases path)
  case Nil
  then show ?thesis using splitHostPort_join [OF assms(1,2)] join_no_slash [OF assms(1,2)] assms(1,2)
    by (auto simp: parseTarget_def indexByte_None [THEN iffD2] plainHost_def plainPort_def)
next
  case (Cons x xs)
  then have "indexByte (joinHostPort host port @ path) 47 = Some (length (joinHostPort host port))"
    using indexByte_fresh [OF join_no_slash [OF assms(1,2)]] assms(3) by simp
  then show ?thesis using Cons splitHostPort_join [OF assms(1,2)] assms(1,2)
    by (auto simp: parseTarget_def plainHost_def plainPort_def)
qed

theorem target_roundtrip_witness:
  "parseTarget (str ''[::1]:80/a'') = Some (str ''[::1]:80'', str ''/a'')"
  using target_roundtrip [of "str ''::1''" "str ''80''" "str ''/a''"] by (simp add: plainHost_def plainPort_def joinHostPort_def)

text \<open>
  C14. The exit status of \<^verbatim>\<open>bcurl\<close> tells what happened. Every run ends. The status is 2, with nothing dialled
  or written, exactly when the arguments are not understood, and 3 when the server cannot be
  reached. Otherwise every header to send is one the protocol can carry, the connection is closed at the end, and the
  status is what became of one \<^verbatim>\<open>Get\<close> on the connection: 3 for an error, 1 for an answer of 400 or above, 0 for any
  other. A status other than 3 means that one complete response arrived on the connection: its body, and nothing else,
  was written to standard output, and the status is 1 if the server answered 400 or above and 0 if it did not. Conversely,
  when a complete response arrives, on a connection and to an output that take what is written, and the request
  can be built, the status is 1 or 0 by the same rule and the body was written. All this holds with and without \<^verbatim>\<open>-v\<close>.
\<close>
theorem bcurl_exit_status:
  "\<exists>code conn' b' dump. bcurlRun tcp_net_conn dial outWrite args b = Some (code, conn', b', dump) \<and>
     (case bcurlArgs args of
        None \<Rightarrow> code = 2 \<and> conn' = None \<and> b' = b
      | Some (fl, addr, path) \<Rightarrow> code \<noteq> 2 \<and>
        (case dial addr of
           Inl e \<Rightarrow> code = 3 \<and> conn' = None \<and> b' = b
         | Inr conn \<Rightarrow> list_all headerOk (bc_headers fl) \<and> (\<exists>c. conn' = Some c \<and> ct_closed (tcp_ctl c)) \<and>
             (\<exists>r c. clientGet tcp_net_conn outWrite path (bc_headers fl) (newClient conn) b = Some (r, c, b')
                \<and> code = (case r of Inl _ \<Rightarrow> 3 | Inr res \<Rightarrow> if re_status res \<ge> 400 then 1 else 0)) \<and>
             (code \<noteq> 3 \<longrightarrow> (\<exists>res body later. received (tcp_ending conn) (tcp_content conn) 1 res body later
                \<and> of_data b' = of_data b @ body \<and> code = (if re_status res \<ge> 400 then 1 else 0))) \<and>
             (\<forall>p res body later. tcp_reliable conn \<and> of_room b = None
                \<and> encodeRequest \<lparr>rq_method = MethodGet, rq_path = path, rq_headers = bc_headers fl\<rparr> = Inr p
                \<and> received (tcp_ending conn) (tcp_content conn) 1 res body later \<longrightarrow>
                code = (if re_status res \<ge> 400 then 1 else 0) \<and> of_data b' = of_data b @ body)))"
proof (cases "bcurlArgs args")
  case None
  then show ?thesis by (simp add: bcurlRun_def)
next
  case (Some t)
  obtain fl addr path where t: "t = (fl, addr, path)" by (metis surj_pair)
  show ?thesis
  proof (cases "dial addr")
    case (Inl e)
    then show ?thesis using Some t by (simp add: bcurlRun_def)
  next
    case (Inr conn)
    from bcurlRun_get [OF Some [unfolded t], where dial = dial, OF Inr, of b] obtain r c b' dump where
      get: "clientGet tcp_net_conn outWrite path (bc_headers fl) (newClient conn) b = Some (r, c, b')" and
      run: "bcurlRun tcp_net_conn dial outWrite args b = Some (exitStatus r, Some (nc_close tcp_net_conn (cl_conn c)), b', dump)" by blast
    have headers: "list_all headerOk (bc_headers fl)" using bcurlArgs_headers [OF Some [unfolded t]] by (simp add: list_all_iff)
    have closed: "\<exists>c'. Some (nc_close tcp_net_conn (cl_conn c)) = Some c' \<and> ct_closed (tcp_ctl c')" using tcp.close_law by simp
    have sound: "\<exists>body later. received (tcp_ending conn) (tcp_content conn) 1 res body later \<and> of_data b' = of_data b @ body"
      if "r = Inr res" for res
      using newClient_simps(1) [of conn] by (cases rule: get_outcome [of "newClient conn" path "bc_headers fl" b]) (use get that in auto)
    have complete: "\<forall>p res body later. tcp_reliable conn \<and> of_room b = None
        \<and> encodeRequest \<lparr>rq_method = MethodGet, rq_path = path, rq_headers = bc_headers fl\<rparr> = Inr p
        \<and> received (tcp_ending conn) (tcp_content conn) 1 res body later \<longrightarrow>
        exitStatus r = (if re_status res \<ge> 400 then 1 else 0) \<and> of_data b' = of_data b @ body"
      using fresh_complete [of conn b path "bc_headers fl"] get by (fastforce simp: exitStatus_def)
    have answered: "exitStatus r \<noteq> 3 \<longrightarrow> (\<exists>res body later. received (tcp_ending conn) (tcp_content conn) 1 res body later
        \<and> of_data b' = of_data b @ body \<and> exitStatus r = (if re_status res \<ge> 400 then 1 else 0))"
    proof (cases r)
      case (Inr res)
      from sound [OF this] Inr show ?thesis by (auto simp: exitStatus_def)
    qed (simp add: exitStatus_def)
    have two: "exitStatus r \<noteq> 2" by (simp add: exitStatus_def split: sum.splits)
    have status: "\<exists>r' c'. clientGet tcp_net_conn outWrite path (bc_headers fl) (newClient conn) b = Some (r', c', b')
        \<and> exitStatus r = (case r' of Inl _ \<Rightarrow> 3 | Inr res \<Rightarrow> if re_status res \<ge> 400 then 1 else 0)"
      by (intro exI conjI, rule get, rule exitStatus_def)
    show ?thesis unfolding Some t Inr option.case prod.case sum.case
      by (intro exI, rule conjI [OF run], intro conjI two headers closed status answered complete)
  qed
qed

lemma demo_args: "bcurlArgs [str ''-v'', str ''h:1/a''] = Some (\<lparr>bc_verbose = True, bc_headers = []\<rparr>, str ''h:1'', str ''/a'')"
  by (simp add: bcurlArgs_def flagParse.simps flagOne_def cutFlag_def bcurlFlags_def parseBool_def parseTarget_def splitHostPort_def
      lastIndexByte_def joinHostPort_def)

text \<open>An answer of 404 with an empty body on stream 1.\<close>

definition demoMissing :: frame where
  "demoMissing = \<lparr>fr_type = TypeResponse, fr_flags = FlagEndStream, fr_stream = 1,
     fr_payload = responseBytes \<lparr>rs_status = 404, rs_headers = []\<rparr>\<rparr>"

lemma missing_received: "received EOF (frameBytes demoMissing) 1 \<lparr>re_status = 404, re_headers = [], re_bodyBytes = 0\<rparr> [] []"
proof -
  have wf: "list_all (\<lambda>f. known (fr_type f) \<and> encodable f) [demoMissing]"
    by (simp add: demoMissing_def known_def encodable_def type_defs responseBytes_def headerBlock_def)
  have "decodeResponse (fr_payload demoMissing) = Inr \<lparr>rs_status = 404, rs_headers = []\<rparr>"
    using decodeResponse_bytes [of "\<lparr>rs_status = 404, rs_headers = []\<rparr>"] by (simp add: demoMissing_def responseOk_def validStatus_def)
  moreover have "responseShape 1 demoMissing []" by (simp add: responseShape_def endsStream_def Has_def demoMissing_def FlagEndStream_def)
  ultimately show ?thesis unfolding received_def using parses_wire [OF wf, of EOF "[]"]
    by (intro exI [of _ demoMissing] exI [of _ "[]"] exI) auto
qed

theorem bcurl_exit_status_witness:
  "(\<exists>c b' dump. bcurlRun tcp_net_conn (\<lambda>_. Inr (tcp_open [wireOf [demoHead, demoData]] EOF None)) outWrite [str ''-v'', str ''h:1/a''] emptyFile =
      Some (0, Some c, b', dump) \<and> of_data b' = [65, 66] \<and> ct_closed (tcp_ctl c))
   \<and> (\<exists>c b' dump. bcurlRun tcp_net_conn (\<lambda>_. Inr (tcp_open [frameBytes demoMissing] EOF None)) outWrite [str ''-v'', str ''h:1/a''] emptyFile =
      Some (1, Some c, b', dump) \<and> of_data b' = [] \<and> ct_closed (tcp_ctl c))"
proof
  let ?wire = "wireOf [demoHead, demoData]"
  let ?run = "bcurlRun tcp_net_conn (\<lambda>_. Inr (tcp_open [?wire] EOF None)) outWrite [str ''-v'', str ''h:1/a''] emptyFile"
  have rec: "received EOF ?wire 1 demoResult [65, 66] []" using demo_received [of EOF "[]"] by (simp del: wireOf_simps)
  from bcurl_exit_status [of "\<lambda>_. Inr (tcp_open [?wire] EOF None)" "[str ''-v'', str ''h:1/a'']" emptyFile, unfolded demo_args option.case prod.case sum.case]
  obtain code c b' dump where run: "?run = Some (code, Some c, b', dump)" "ct_closed (tcp_ctl c)"
    and complete: "\<forall>p res body later. tcp_reliable (tcp_open [?wire] EOF None) \<and> of_room emptyFile = None
        \<and> encodeRequest \<lparr>rq_method = MethodGet, rq_path = str ''/a'', rq_headers = bc_headers \<lparr>bc_verbose = True, bc_headers = []\<rparr>\<rparr> = Inr p
        \<and> received (tcp_ending (tcp_open [?wire] EOF None)) (tcp_content (tcp_open [?wire] EOF None)) 1 res body later \<longrightarrow>
        code = (if re_status res \<ge> 400 then 1 else 0) \<and> of_data b' = of_data emptyFile @ body" by (elim exE conjE) simp
  from complete [rule_format, of _ demoResult "[65, 66]" "[]"] demo_request rec have "code = 0" "of_data b' = [65, 66]"
    by (simp_all add: demoResult_def del: wireOf_simps str_Cons)
  with run show "\<exists>c b' dump. ?run = Some (0, Some c, b', dump) \<and> of_data b' = [65, 66] \<and> ct_closed (tcp_ctl c)" by blast
next
  let ?wire = "frameBytes demoMissing"
  let ?run = "bcurlRun tcp_net_conn (\<lambda>_. Inr (tcp_open [?wire] EOF None)) outWrite [str ''-v'', str ''h:1/a''] emptyFile"
  from bcurl_exit_status [of "\<lambda>_. Inr (tcp_open [?wire] EOF None)" "[str ''-v'', str ''h:1/a'']" emptyFile, unfolded demo_args option.case prod.case sum.case]
  obtain code c b' dump where run: "?run = Some (code, Some c, b', dump)" "ct_closed (tcp_ctl c)"
    and complete: "\<forall>p res body later. tcp_reliable (tcp_open [?wire] EOF None) \<and> of_room emptyFile = None
        \<and> encodeRequest \<lparr>rq_method = MethodGet, rq_path = str ''/a'', rq_headers = bc_headers \<lparr>bc_verbose = True, bc_headers = []\<rparr>\<rparr> = Inr p
        \<and> received (tcp_ending (tcp_open [?wire] EOF None)) (tcp_content (tcp_open [?wire] EOF None)) 1 res body later \<longrightarrow>
        code = (if re_status res \<ge> 400 then 1 else 0) \<and> of_data b' = of_data emptyFile @ body" by (elim exE conjE) simp
  from complete [rule_format, of _ "\<lparr>re_status = 404, re_headers = [], re_bodyBytes = 0\<rparr>" "[]" "[]"] demo_request missing_received
  have "code = 1" "of_data b' = []" by (simp_all del: str_Cons)
  with run show "\<exists>c b' dump. ?run = Some (1, Some c, b', dump) \<and> of_data b' = [] \<and> ct_closed (tcp_ctl c)" by blast
qed

end
