(* ===== verification/Spec2Isabelle.thy ===== *)
theory Spec2Isabelle
  imports Frame Messages Server_Props Server_Life Client_Props Wire_Props Chaos_Props Commands_Props
begin

text \<open>
  BHTTP/1: a verification of the Go implementation of a small binary, HTTP-like protocol over
  persistent TCP connections.

  \<^bold>\<open>The program.\<close> A message is one or more frames: twelve header bytes (payload length, type, flags, two
  reserved bytes, stream id) and at most 16384 bytes of payload. \<^verbatim>\<open>internal/frame\<close> reads and writes
  frames, \<^verbatim>\<open>internal/protocol\<close> encodes and decodes the payloads of requests, responses and errors,
  \<^verbatim>\<open>internal/server\<close> serves the files below a root directory, \<^verbatim>\<open>internal/client\<close> fetches one path at a
  time, \<^verbatim>\<open>internal/wire\<close> prints what crosses a connection, and \<^verbatim>\<open>internal/chaos\<close> is a proxy that
  disturbs a server's answers in ways a client must tolerate. The programs \<^verbatim>\<open>bserve\<close>, \<^verbatim>\<open>bcurl\<close> and \<^verbatim>\<open>bchaos\<close> are
  \<^verbatim>\<open>cmd/*/main.go\<close>.

  \<^bold>\<open>Theories and sources.\<close>
  \<^item> \<open>Prelude\<close>: bytes, big-endian integers, errors as sums. \<open>Go_IO\<close>, \<open>Go_Strings\<close>, \<open>Go_Filepath\<close>: what
    the code uses of \<^verbatim>\<open>io\<close>, \<^verbatim>\<open>bufio\<close>, \<^verbatim>\<open>net\<close>, \<^verbatim>\<open>strings\<close>, \<^verbatim>\<open>strconv\<close>, \<^verbatim>\<open>unicode/utf8\<close> and \<^verbatim>\<open>path/filepath\<close> (on
    Unix). Readers, writers and connections are dictionaries of operations on an explicit state;
    the locales \<open>io_reader\<close>, \<open>buffered\<close>, \<open>io_writer\<close> and \<open>net_conn\<close> are their contracts, and \<open>tcp\<close> and \<open>bufio\<close> keep them.
  \<^item> \<open>Frame\<close>: \<^verbatim>\<open>frame.go\<close>, \<^verbatim>\<open>reader.go\<close>, \<^verbatim>\<open>writer.go\<close>. \<open>encodeFrame\<close>, \<open>readFrame\<close>, \<open>writeFrame\<close>, \<open>writeAll\<close>, and
    \<open>parseFrame\<close>, the specification of reading as a function of the bytes alone.
  \<^item> \<open>Protocol\<close>, \<open>Messages\<close>: \<^verbatim>\<open>protocol.go\<close>, \<^verbatim>\<open>headers.go\<close>, \<^verbatim>\<open>messages.go\<close>, one definition per function.
  \<^item> \<open>Resolver\<close>: \<^verbatim>\<open>resolver.go\<close>, \<^verbatim>\<open>badname_*.go\<close>, \<^verbatim>\<open>mime.go\<close>. The file system is a parameter that may change
    between any two calls.
  \<^item> \<open>Server_Conn\<close>: one connection of \<^verbatim>\<open>server.go\<close> and \<^verbatim>\<open>request.go\<close> (\<open>handle\<close>, \<open>serveRequest\<close>, \<open>sendFile\<close> and
    all they call). \<open>Server_Spec\<close>: the answer to a byte stream as a function (\<open>serverSpec\<close>) and the proof, for any
    connection that keeps the contract, that the handler implements it. \<open>Server_Props\<close>: the properties over TCP.
  \<^item> \<open>Server_Life\<close>: \<^verbatim>\<open>New\<close>, \<^verbatim>\<open>Serve\<close>, \<^verbatim>\<open>Close\<close>, \<^verbatim>\<open>track\<close>, \<^verbatim>\<open>untrack\<close> of \<^verbatim>\<open>server.go\<close> as a step relation over the
    shared state, the mutex included, one step per critical section or atomic operation, for any number of
    goroutines. Moves the server makes by itself are told apart from those that need a client, a caller or a deadline.
  \<^item> \<open>Client\<close>: \<^verbatim>\<open>client.go\<close>. \<open>Client_Spec\<close>: what \<^verbatim>\<open>Get\<close> does in terms of the bytes on the connection, in the
    locale \<open>client_conn\<close>. \<open>Client_Props\<close>: the properties over TCP and a file.
  \<^item> \<open>Wire_Tap\<close>: \<^verbatim>\<open>tap.go\<close>; a tapped connection is again a \<open>net_conn\<close> (sublocale of \<open>tapped\<close>).
    \<open>Conn_Sim\<close>: a simulation between two connections carries over to everything the client does.
    \<open>Wire_Props\<close>: the properties of the tap.
  \<^item> \<open>Chaos\<close>: \<^verbatim>\<open>chaos.go\<close>. \<open>Chaos_Props\<close>: what a client behind the proxy reads.
  \<^item> \<open>Commands\<close>: the three \<^verbatim>\<open>main.go\<close> files, from arguments to exit status, with what they use of \<^verbatim>\<open>flag\<close> and
    of the address functions of \<^verbatim>\<open>net\<close>. \<open>Commands_Props\<close>: their properties.
  \<^item> This theory joins client and server.

  \<^bold>\<open>What is shown.\<close>
  Frames and messages survive the wire, decoders accept exactly the payloads of the specification, and what a
  reader returns does not depend on how the bytes were cut. A path is served only after resolving it to a place below the
  root, symbolic links included, a path that resolves outside looks like a miss (one whose resolution fails
  need not: it may be answered with 500), and handles are not leaked. The connection handler refines its specification, always returns,
  gives every request one complete response or none that looks complete, and reports errors as the protocol asks. The accounting of
  connections is exact in every interleaving, \<^verbatim>\<open>Close\<close> leaves no connection behind and returns after boundedly many moves of
  the server's goroutines, whatever the clients do. A client's success means a
  complete response arrived, a complete response is always delivered, a truncated one never is, and
  every request goes out on a stream id of its own. The tap prints every frame, in a form that can be read back, and changes nothing; the proxy's noise and
  chunking change no frame a client reads, although a frame cut off by the server leaves the proxy
  completed with zeros. \<^verbatim>\<open>bcurl\<close>'s exit status says which of these happened. Together: a client and a server, each
  reading what the other sends, cut in any way, end with the file or the right status delivered.

  \<^bold>\<open>Loops.\<close> Loops that read are partial functions into \<open>option\<close>, where \<open>None\<close> is not returning; that they
  return is proved from the contract of the reader, whose \<open>weight\<close> bounds the reads that succeed.
  All other recursion is total. There is no fuel.

  \<^bold>\<open>Integers.\<close> Lengths and ids on the wire, stream ids and the proxy's seeds are words of their width. File sizes
  are integers within the range of an \<^verbatim>\<open>int64\<close>; byte counts of a body and statistics are unbounded.

  \<^bold>\<open>Parameters.\<close> The file system (hypothesis \<open>statLaw\<close>: a regular file's size is an \<^verbatim>\<open>int64\<close> that is not
  negative), dialling and listening, the draws of \<^verbatim>\<open>math/rand\<close>, and the syntax of numbers and durations in flags of \<^verbatim>\<open>bchaos\<close>.

  \<^bold>\<open>Not modelled.\<close> The text of error and log messages (log lines are values) and \<^verbatim>\<open>printable\<close>, which
  quotes a path for the log; time: a deadline is a number handed to the connection and running into
  it is one of the connection's errors, sleeps are left out; the Windows forms of \<^verbatim>\<open>path/filepath\<close>; the tests, the conformance
  fixtures and the interoperability tools, which hold no program logic.
\<close>

subsection \<open>A client and a server\<close>

text \<open>
  A client and a server on the two ends of a connection: the client's \<^verbatim>\<open>Get\<close> runs on what the server
  sends, cut into the pieces \<open>reply\<close>, and returns \<open>r\<close> with the body file \<open>b'\<close>; the server's handler runs on
  what this call of \<^verbatim>\<open>Get\<close> sends, cut into the pieces \<open>there\<close>.
\<close>

definition conversation ::
  "server_cfg \<Rightarrow> os_state \<Rightarrow> byte list \<Rightarrow> header list \<Rightarrow> out_file \<Rightarrow> byte list list \<Rightarrow> byte list list \<Rightarrow> client_err + result \<Rightarrow> out_file \<Rightarrow> bool" where
  "conversation s os path hs b there reply r b' \<longleftrightarrow> (\<exists>c' h.
     clientGet tcp_net_conn outWrite path hs (newClient (tcp_open reply EOF None)) b = Some (r, c', b')
     \<and> concat there = tcp_out (cl_conn c')
     \<and> handle tcp_net_conn s os (tcp_open there EOF None) = Some h
     \<and> concat reply = tcp_out (h_conn h))"

lemma answer_encodable:
  assumes "statLaw env" "st \<noteq> 0"
  shows "c \<in> {400, 404, 500} \<Longrightarrow> known (fr_type (statusFrame st c)) \<and> encodable (statusFrame st c)"
    and "0 \<le> fi_size fi \<Longrightarrow> fi_size fi < 2 ^ 63 \<Longrightarrow>
      list_all (\<lambda>f. known (fr_type f) \<and> encodable f) (fst (fileAnswer st fl fi))"
proof -
  show "known (fr_type (statusFrame st c)) \<and> encodable (statusFrame st c)" if "c \<in> {400, 404, 500}"
    using statusFrame_encodable [OF _ assms(2), of c] that
    by (auto simp: validStatus_def) (simp_all add: statusFrame_def responseFrame_def known_def type_defs)
  assume sz: "0 \<le> fi_size fi" "fi_size fi < 2 ^ 63"
  obtain fs full where body: "bodyFrames st (nat (fi_size fi)) (fileContent fl) = (fs, full)" by (metis surj_pair)
  have "list_all (\<lambda>f. known (fr_type f) \<and> encodable f) fs"
    using body_shape [OF body] assms(2) by (auto simp: list_all_iff dataOn_def encodable_def known_def type_defs)
  moreover have "known (fr_type (fileHead st (contentType (fi_name fi)) (fi_size fi)))"
    by (simp add: fileHead_def responseFrame_def known_def type_defs)
  ultimately show "list_all (\<lambda>f. known (fr_type f) \<and> encodable f) (fst (fileAnswer st fl fi))"
    using fileHead_encodable [OF sz contentType_length assms(2)] by (simp add: fileAnswer_def body)
qed

lemma complete_shape:
  assumes "completeResponse st fs"
  obtains head datas resp where "fs = head # datas" "responseShape st head datas" "decodeResponse (fr_payload head) = Inr resp"
proof -
  from assms obtain head datas resp where "fs = head # datas" "fr_type head = TypeResponse" "fr_stream head = st"
    "decodeResponse (fr_payload head) = Inr resp" "list_all (dataOn st) datas"
    "list_all (\<lambda>g. \<not> endsStream g) (butlast fs)" "endsStream (last fs)" unfolding completeResponse_def by blast
  then show ?thesis by (intro that) (auto simp: responseShape_def dataOn_def list_all_iff)
qed

text \<open>What a fresh client makes of the frames a server sent for its first request.\<close>

lemma fresh_get:
  assumes "encodeRequest \<lparr>rq_method = MethodGet, rq_path = path, rq_headers = hs\<rparr> = Inr p" "of_room b = None"
    "responseShape 1 head datas" "list_all (\<lambda>f. known (fr_type f) \<and> encodable f) (head # datas)"
    "decodeResponse (fr_payload head) = Inr resp" "checkLength (rs_headers resp) (int (length (payloads datas))) = None"
    "concat chunks = wireOf (head # datas) @ later"
  shows "\<exists>c' b'. clientGet tcp_net_conn outWrite path hs (newClient (tcp_open chunks EOF None)) b =
      Some (Inr \<lparr>re_status = rs_status resp, re_headers = rs_headers resp, re_bodyBytes = int (length (payloads datas))\<rparr>, c', b')
    \<and> of_data b' = of_data b @ payloads datas \<and> tcp_out (cl_conn c') = frameBytes (requestFrame 1 path hs)"
proof -
  have "received EOF (wireOf (head # datas) @ later) 1
      \<lparr>re_status = rs_status resp, re_headers = rs_headers resp, re_bodyBytes = int (length (payloads datas))\<rparr> (payloads datas) later"
    unfolding received_def using parses_wire [OF assms(4), of EOF later] assms(3,5,6) by blast
  then have "received (tcp_ending (cl_conn (newClient (tcp_open chunks EOF None)))) (tcp.sock.bcontent (cl_br (newClient (tcp_open chunks EOF None)))) 1
      \<lparr>re_status = rs_status resp, re_headers = rs_headers resp, re_bodyBytes = int (length (payloads datas))\<rparr> (payloads datas) later"
    using assms(7) by (simp add: tcp_bcontent del: wireOf_simps)
  note run = tcpc.clientGet_complete [of "newClient (tcp_open chunks EOF None)" b, simplified, OF assms(2,1) this [simplified]]
  then show ?thesis by blast
qed

lemma fresh_get_error:
  assumes "encodeRequest \<lparr>rq_method = MethodGet, rq_path = path, rq_headers = hs\<rparr> = Inr p" "of_room b = None"
    "list_all (\<lambda>f. known (fr_type f) \<and> encodable f) (head # datas @ [g])" "concat chunks = wireOf (head # datas @ [g])"
    "fr_type head = TypeResponse" "fr_stream head = 1" "\<not> endsStream head" "decodeResponse (fr_payload head) = Inr resp"
    "list_all (\<lambda>d. dataFor 1 d \<and> \<not> endsStream d) datas" "fr_type g = TypeError"
  shows "\<exists>c' b'. clientGet tcp_net_conn outWrite path hs (newClient (tcp_open chunks EOF None)) b = Some (Inl (remoteError g), c', b')
    \<and> tcp_out (cl_conn c') = frameBytes (requestFrame 1 path hs)"
proof -
  let ?c = "newClient (tcp_open chunks EOF None)"
  have "parses (tcp_ending (cl_conn ?c)) (tcp.sock.bcontent (cl_br ?c)) (head # datas @ [g]) []"
    using parses_wire [OF assms(3), of EOF "[]"] assms(4) by (simp add: tcp_bcontent del: wireOf_simps parses.simps)
  note run = tcpc.clientGet_error [of ?c b path hs p head datas g "[]", OF _ _ _ _ _ _ assms(1) this assms(5) _ assms(7,8) _ assms(10)]
  then show ?thesis using assms(2,6,9) by simp
qed

text \<open>The handler on a request and whatever comes after it: the answer first, and nothing more when the answer ends the connection.\<close>

lemma server_first:
  assumes "statLaw (sv_env s)" "known (fr_type f)" "encodable f" "concat chunks = frameBytes f @ later"
    "answer (sv_env s) (sv_res s) f os = ((gs, goes), os1)"
  shows "\<exists>h more. handle tcp_net_conn s os (tcp_open chunks EOF None) = Some h \<and> tcp_out (h_conn h) = wireOf gs @ more
    \<and> (\<not> goes \<longrightarrow> more = [])"
proof -
  have "concat chunks = frameBytes f @ concat [later]" using assms(4) by simp
  from tcp_handle_frame [OF assms(1-3) this assms(5), of EOF] obtain h h' where
    "handle tcp_net_conn s os (tcp_open chunks EOF None) = Some h" "handle tcp_net_conn s os1 (tcp_open [later] EOF None) = Some h'"
    "tcp_out (h_conn h) = wireOf gs @ (if goes then tcp_out (h_conn h') else [])" by blast
  then show ?thesis by auto
qed

lemma requestFrame_simps [simp]:
  "fr_type (requestFrame sid path hs) = TypeRequest" "fr_flags (requestFrame sid path hs) = FlagEndStream"
  "fr_stream (requestFrame sid path hs) = sid"
  by (simp_all add: requestFrame_def)

text \<open>The server answers the client's request by what opening its path gives.\<close>

lemma answer_get:
  assumes "encodeRequest \<lparr>rq_method = MethodGet, rq_path = path, rq_headers = hs\<rparr> = Inr p"
  shows "requestAnswer env r (requestFrame 1 path hs) os =
    (case resolverOpen env r path os of
       (Inl e, os') \<Rightarrow> (([statusFrame 1 (if e = errBadPath then 400 else if e = errNotFound then 404 else 500)], True), os')
     | (Inr (fl, fi), os') \<Rightarrow> (fileAnswer 1 fl fi, osClose os'))"
proof -
  have "decodeRequest (fr_payload (requestFrame 1 path hs)) = Inr \<lparr>rq_method = MethodGet, rq_path = path, rq_headers = hs\<rparr>"
    using assms decodeRequest_bytes by (simp add: requestFrame_def encodeRequest_Inr)
  then show ?thesis by (auto simp: requestAnswer_def split: prod.splits sum.splits)
qed

text \<open>The two kinds of complete answer, as the client receives them.\<close>

lemma get_status:
  assumes "encodeRequest \<lparr>rq_method = MethodGet, rq_path = path, rq_headers = hs\<rparr> = Inr p" "of_room b = None"
    "c \<in> {400, 404, 500}" "concat reply = wireOf [statusFrame 1 c] @ later"
  shows "\<exists>res c' b'. clientGet tcp_net_conn outWrite path hs (newClient (tcp_open reply EOF None)) b = Some (Inr res, c', b')
    \<and> re_status res = c \<and> re_bodyBytes res = 0 \<and> of_data b' = of_data b \<and> tcp_out (cl_conn c') = frameBytes (requestFrame 1 path hs)"
proof -
  have "validStatus c" using assms(3) by (auto simp: validStatus_def)
  note dec = statusFrame_decodes [OF this, of 1]
  have wf: "list_all (\<lambda>f. known (fr_type f) \<and> encodable f) [statusFrame 1 c]"
    using answer_encodable(1) [of demoEnv 1 c] demoServer_law assms(3) by simp
  have shape: "responseShape 1 (statusFrame 1 c) []"
    by (simp add: responseShape_def statusFrame_def) (simp add: responseFrame_def)
  have "checkLength [NewHeader HeaderContentLength (str ''0''), NewHeader HeaderServer serverName] 0 = None"
    unfolding checkLength_None by (simp add: lengthOk_def NewHeader_def isDigit_def digitsValue_def header_name_defs)
  with fresh_get [OF assms(1,2) shape wf dec _ assms(4)] show ?thesis by fastforce
qed

lemma get_file:
  assumes "encodeRequest \<lparr>rq_method = MethodGet, rq_path = path, rq_headers = hs\<rparr> = Inr p" "of_room b = None"
    "0 \<le> fi_size fi" "fi_size fi < 2 ^ 63" "nat (fi_size fi) \<le> length (fileContent fl)"
    "concat reply = wireOf (fst (fileAnswer 1 fl fi)) @ later"
  shows "\<exists>res c' b'. clientGet tcp_net_conn outWrite path hs (newClient (tcp_open reply EOF None)) b = Some (Inr res, c', b')
    \<and> re_status res = 200 \<and> re_bodyBytes res = fi_size fi \<and> of_data b' = of_data b @ take (nat (fi_size fi)) (fileContent fl)
    \<and> tcp_out (cl_conn c') = frameBytes (requestFrame 1 path hs)"
proof -
  let ?head = "fileHead 1 (contentType (fi_name fi)) (fi_size fi)"
  obtain datas full where fa: "fileAnswer 1 fl fi = (?head # datas, full)"
    by (cases "bodyFrames 1 (nat (fi_size fi)) (fileContent fl)") (auto simp: fileAnswer_def)
  note shape = file_complete [OF assms(3,4) fa]
  have full: "completeResponse 1 (?head # datas)" "payloads datas = take (nat (fi_size fi)) (fileContent fl)"
    using shape(1,2) assms(5) by auto
  from complete_shape [OF full(1)] have rs: "responseShape 1 ?head datas" by (metis list.inject)
  have wf: "list_all (\<lambda>f. known (fr_type f) \<and> encodable f) (?head # datas)"
    using answer_encodable(2) [of demoEnv 1 fi fl] demoServer_law assms(3,4) fa by simp
  have len: "int (length (payloads datas)) = fi_size fi" using full(2) assms(3,5) by simp
  have "checkLength [NewHeader HeaderContentType (contentType (fi_name fi)), NewHeader HeaderContentLength (formatInt (fi_size fi)),
      NewHeader HeaderServer serverName] (fi_size fi) = None"
    unfolding checkLength_None using assms(3,4) formatInt_length [OF assms(3,4)] decDigits_digits [of "nat (fi_size fi)"]
    by (simp add: lengthOk_def NewHeader_def header_name_defs formatInt_def)
  with fresh_get [OF assms(1,2) rs wf fileHead_decodes [OF assms(3,4) contentType_length]] assms(6) fa len full(2)
  show ?thesis by fastforce
qed

lemma get_short_file:
  assumes "encodeRequest \<lparr>rq_method = MethodGet, rq_path = path, rq_headers = hs\<rparr> = Inr p" "of_room b = None"
    "0 \<le> fi_size fi" "fi_size fi < 2 ^ 63" "length (fileContent fl) < nat (fi_size fi)"
    "concat reply = wireOf (fst (fileAnswer 1 fl fi) @ [bodyFailed])"
  shows "\<exists>c' b'. clientGet tcp_net_conn outWrite path hs (newClient (tcp_open reply EOF None)) b =
      Some (Inl (RemoteError CodeProtocolError (str ''could not finish sending the response'')), c', b')
    \<and> tcp_out (cl_conn c') = frameBytes (requestFrame 1 path hs)"
proof -
  let ?head = "fileHead 1 (contentType (fi_name fi)) (fi_size fi)"
  obtain datas full where body: "bodyFrames 1 (nat (fi_size fi)) (fileContent fl) = (datas, full)" by (metis surj_pair)
  then have fa: "fileAnswer 1 fl fi = (?head # datas, full)" by (simp add: fileAnswer_def)
  note shape = file_complete [OF assms(3,4) fa]
  have open_ended: "list_all (\<lambda>g. \<not> endsStream g) (?head # datas)" using shape(1,3) assms(5) by simp
  have datas: "list_all (\<lambda>d. dataFor 1 d \<and> \<not> endsStream d) datas"
    using body_shape [OF body] open_ended by (auto simp: list_all_iff dataOn_def dataFor_def)
  have wf: "list_all (\<lambda>f. known (fr_type f) \<and> encodable f) (?head # datas @ [bodyFailed])"
    using answer_encodable(2) [of demoEnv 1 fi fl] demoServer_law assms(3,4) fa errorFrame_sends
    by (simp add: bodyFailed_def) (simp add: errorFrame_def known_def type_defs)
  have "decodeConnError (fr_payload bodyFailed) =
      Inr \<lparr>ce_code = CodeProtocolError, ce_message = str ''could not finish sending the response''\<rparr>"
    unfolding bodyFailed_def by (rule connError_roundtrip, rule errorFrame_sends [THEN conjunct1]) simp
  then have err: "remoteError bodyFailed = RemoteError CodeProtocolError (str ''could not finish sending the response'')"
    by (simp add: remoteError_def del: str_Cons)
  have head: "fr_type ?head = TypeResponse" "fr_stream ?head = 1" "\<not> endsStream ?head"
    using open_ended by (simp_all add: fileHead_def) (simp_all add: responseFrame_def)
  have "fr_type bodyFailed = TypeError" by (simp add: bodyFailed_def errorFrame_def)
  note run = fresh_get_error [OF assms(1,2) wf _ head fileHead_decodes [OF assms(3,4) contentType_length] datas this, of reply, unfolded err]
  show ?thesis by (rule run) (use assms(6) fa in simp)
qed

text \<open>
  What the client gets back when the server saw its request first, whatever the server was sent
  after it, and that the client then sent nothing else.
\<close>

lemma get_answered:
  assumes "statLaw (sv_env s)" and req: "encodeRequest \<lparr>rq_method = MethodGet, rq_path = path, rq_headers = hs\<rparr> = Inr p"
    and "concat there = frameBytes (requestFrame 1 path hs) @ x"
    and "handle tcp_net_conn s os (tcp_open there EOF None) = Some h" and "concat reply = tcp_out (h_conn h)"
    and "of_room b = None"
  shows "\<exists>r c' b'. clientGet tcp_net_conn outWrite path hs (newClient (tcp_open reply EOF None)) b = Some (r, c', b')
    \<and> tcp_out (cl_conn c') = frameBytes (requestFrame 1 path hs) \<and>
    (case resolverOpen (sv_env s) (sv_res s) path os of
       (Inr (fl, fi), _) \<Rightarrow>
         if nat (fi_size fi) \<le> length (fileContent fl)
         then (\<exists>res. r = Inr res \<and> re_status res = 200 \<and> re_bodyBytes res = fi_size fi)
           \<and> of_data b' = of_data b @ take (nat (fi_size fi)) (fileContent fl)
         else r = Inl (RemoteError CodeProtocolError (str ''could not finish sending the response''))
     | (Inl e, _) \<Rightarrow>
         (\<exists>res. r = Inr res \<and> re_bodyBytes res = 0
            \<and> re_status res = (if e = errBadPath then 400 else if e = errNotFound then 404 else 500))
         \<and> of_data b' = of_data b)"
proof -
  let ?f = "requestFrame 1 path hs"
  have f: "known (fr_type ?f)" "encodable ?f" using requestFrame_wf [OF req, of 1] by simp_all
  obtain ro os' where opn: "resolverOpen (sv_env s) (sv_res s) path os = (ro, os')" by (metis surj_pair)
  have reply: "\<exists>more. concat reply = wireOf gs @ more \<and> (\<not> goes \<longrightarrow> more = [])"
    if "answer (sv_env s) (sv_res s) ?f os = ((gs, goes), os1)" for gs goes os1
    using server_first [OF assms(1) f assms(3) that] assms(4,5) by auto
  note ans = answer_get [OF req, of "sv_env s" "sv_res s" os, unfolded opn]
  show ?thesis
  proof (cases ro)
    case (Inl e)
    let ?c = "if e = errBadPath then 400 else if e = errNotFound then 404 else (500 :: int)"
    have "answer (sv_env s) (sv_res s) ?f os = (([statusFrame 1 ?c], True), os')" using ans Inl by (simp add: answer_def)
    from reply [OF this] obtain more where "concat reply = wireOf [statusFrame 1 ?c] @ more" by blast
    from get_status [OF req assms(6) _ this] opn Inl show ?thesis by fastforce
  next
    case (Inr y)
    then obtain fl fi where y: "ro = Inr (fl, fi)" by (cases y) simp
    from resolverOpen_stat [OF assms(1) opn [unfolded y]] have size: "0 \<le> fi_size fi" "fi_size fi < 2 ^ 63" by auto
    obtain gs full where fa: "fileAnswer 1 fl fi = (gs, full)" by (metis surj_pair)
    note shape = file_complete [OF size fa]
    have a: "answer (sv_env s) (sv_res s) ?f os = ((if full then gs else gs @ [bodyFailed], full), osClose os')"
      using ans y fa by (simp add: answer_def)
    from reply [OF a] obtain more where more: "concat reply = wireOf (if full then gs else gs @ [bodyFailed]) @ more"
      "\<not> full \<longrightarrow> more = []" by blast
    show ?thesis
    proof (cases full)
      case True
      with get_file [OF req assms(6) size, of fl reply more] more(1) fa shape(1) opn y show ?thesis by fastforce
    next
      case False
      with get_short_file [OF req assms(6) size, of fl reply] more fa shape(1) opn y show ?thesis by fastforce
    qed
  qed
qed

lemma conversation_starts:
  assumes "conversation s os path hs b there reply r b'" "encodeRequest \<lparr>rq_method = MethodGet, rq_path = path, rq_headers = hs\<rparr> = Inr p"
  shows "\<exists>x. concat there = frameBytes (requestFrame 1 path hs) @ x"
proof -
  let ?c = "newClient (tcp_open reply EOF None)"
  obtain c' where run: "clientGet tcp_net_conn outWrite path hs ?c b = Some (r, c', b')" "concat there = tcp_out (cl_conn c')"
    using assms(1) unfolding conversation_def by blast
  have "asked path hs ?c c'"
    using newClient_simps(1) [of "tcp_open reply EOF None"]
    by (cases rule: get_outcome [of ?c path hs b]) (use run(1) assms(2) in auto)
  then obtain k x where "tcp_out (cl_conn c') = tcp_out (cl_conn ?c) @ take k (frameBytes (requestFrame (cl_next ?c) path hs)) @ x"
    "tcp_reliable (cl_conn ?c) \<or> x \<noteq> [] \<longrightarrow> k = length (frameBytes (requestFrame (cl_next ?c) path hs))"
    unfolding asked_def by blast
  then show ?thesis using run(2) by simp
qed

text \<open>
  C1. Client and server together, each reading what the other sends. Whatever pieces the bytes of the
  client reach the server in and whatever pieces the answer comes back in, there is such a
  conversation, and in every one \<^verbatim>\<open>Get\<close> returns as follows. For a file that has the bytes its
  size promises it returns status 200 and writes exactly those bytes of the file to the body; for a
  path the rules forbid it returns 400, for a missing one 404, for one the server cannot open 500,
  each with an empty body; and for a file that ended early it returns the server's error, never a result.
\<close>
theorem get_from_server:
  assumes "statLaw (sv_env s)" and "encodeRequest \<lparr>rq_method = MethodGet, rq_path = path, rq_headers = hs\<rparr> = Inr p"
    and "of_room b = None"
  shows "(\<forall>cut cut'. (\<forall>bs. concat (cut bs) = bs) \<and> (\<forall>bs. concat (cut' bs) = bs) \<longrightarrow>
      (\<exists>there reply r b'. there = cut (concat there) \<and> reply = cut' (concat reply) \<and> conversation s os path hs b there reply r b'))
    \<and> (\<forall>there reply r b'. conversation s os path hs b there reply r b' \<longrightarrow>
        (case resolverOpen (sv_env s) (sv_res s) path os of
           (Inr (fl, fi), _) \<Rightarrow>
             if nat (fi_size fi) \<le> length (fileContent fl)
             then (\<exists>res. r = Inr res \<and> re_status res = 200 \<and> re_bodyBytes res = fi_size fi)
               \<and> of_data b' = of_data b @ take (nat (fi_size fi)) (fileContent fl)
             else r = Inl (RemoteError CodeProtocolError (str ''could not finish sending the response''))
         | (Inl e, _) \<Rightarrow>
             (\<exists>res. r = Inr res \<and> re_bodyBytes res = 0
                \<and> re_status res = (if e = errBadPath then 400 else if e = errNotFound then 404 else 500))
             \<and> of_data b' = of_data b))"
proof (intro conjI allI impI)
  fix cut cut' :: "byte list \<Rightarrow> byte list list"
  assume cuts: "(\<forall>bs. concat (cut bs) = bs) \<and> (\<forall>bs. concat (cut' bs) = bs)"
  let ?there = "cut (frameBytes (requestFrame 1 path hs))"
  have there: "concat ?there = frameBytes (requestFrame 1 path hs) @ []" using cuts by simp
  obtain h where h: "handle tcp_net_conn s os (tcp_open ?there EOF None) = Some h"
    using tcp_handle_fresh [OF assms(1), of EOF os ?there] by (metis prod.collapse)
  let ?reply = "cut' (tcp_out (h_conn h))"
  have reply: "concat ?reply = tcp_out (h_conn h)" using cuts by simp
  from get_answered [OF assms(1,2) there h reply assms(3)] there h reply
  show "\<exists>there reply r b'. there = cut (concat there) \<and> reply = cut' (concat reply) \<and> conversation s os path hs b there reply r b'"
    unfolding conversation_def by (intro exI [of _ ?there] exI [of _ ?reply]) auto
next
  fix there reply r b'
  assume conv: "conversation s os path hs b there reply r b'"
  from conversation_starts [OF this assms(2)] obtain x where "concat there = frameBytes (requestFrame 1 path hs) @ x" by blast
  from get_answered [OF assms(1,2) this _ _ assms(3)] conv show "case resolverOpen (sv_env s) (sv_res s) path os of
           (Inr (fl, fi), _) \<Rightarrow>
             if nat (fi_size fi) \<le> length (fileContent fl)
             then (\<exists>res. r = Inr res \<and> re_status res = 200 \<and> re_bodyBytes res = fi_size fi)
               \<and> of_data b' = of_data b @ take (nat (fi_size fi)) (fileContent fl)
             else r = Inl (RemoteError CodeProtocolError (str ''could not finish sending the response''))
         | (Inl e, _) \<Rightarrow>
             (\<exists>res. r = Inr res \<and> re_bodyBytes res = 0
                \<and> re_status res = (if e = errBadPath then 400 else if e = errNotFound then 404 else 500))
             \<and> of_data b' = of_data b"
    unfolding conversation_def by fastforce
qed

theorem get_from_server_witness:
  "\<exists>there reply res b'. conversation demoServer demoState (str ''/a'') [] emptyFile there reply (Inr res) b'
    \<and> there = map (\<lambda>x. [x]) (concat there) \<and> re_status res = 200 \<and> of_data b' = [65, 66]"
proof -
  let ?bytes = "map (\<lambda>x. [x]) :: byte list \<Rightarrow> byte list list"
  have cuts: "(\<forall>bs. concat (?bytes bs) = bs) \<and> (\<forall>bs. concat ([bs] :: byte list list) = bs)" by simp
  have starts: "\<exists>there reply r b'. there = ?bytes (concat there) \<and> reply = [concat reply]
      \<and> conversation demoServer demoState (str ''/a'') [] emptyFile there reply r b'"
    by (rule get_from_server [OF demoServer_law demo_request, of emptyFile demoState, THEN conjunct1, THEN spec, THEN spec, THEN mp])
      (simp_all only: out_file.simps cuts HOL.simp_thms)
  then obtain there reply r b' where conv: "there = ?bytes (concat there)"
    "conversation demoServer demoState (str ''/a'') [] emptyFile there reply r b'" by blast
  have "(\<exists>res. r = Inr res \<and> re_status res = 200 \<and> re_bodyBytes res = 2) \<and> of_data b' = [65, 66]"
    using get_from_server [OF demoServer_law demo_request, of emptyFile demoState, THEN conjunct2, rule_format, OF _ conv(2)] demo_open
    by (simp add: fileContent_def del: str_Cons)
  with conv show ?thesis by blast
qed

end
